(* ===== verification/Prelude.thy ===== *)
theory Prelude
  imports Main "HOL-Library.Word" "HOL-Library.Signed_Division"
begin

text \<open>
  Shared vocabulary of the development: names for the machine integers of the
  32-bit f32c targets, and the generic lemmas on words that the component
  theories use.
\<close>

unbundle bit_operations_syntax

section \<open>Machine integers\<close>

type_synonym u8 = "8 word"
type_synonym u16 = "16 word"
type_synonym u32 = "32 word"
type_synonym u64 = "64 word"

named_theorems word_nat
  \<open>facts that read word operations as arithmetic on natural numbers\<close>

text \<open>The value of a word read as a two's complement number.\<close>

lemma bit_top_int:
  fixes k :: int
  assumes "0 \<le> k" "k < 2 ^ Suc n"
  shows "bit k n \<longleftrightarrow> 2 ^ n \<le> k"
proof (cases "2 ^ n \<le> k")
  case True
  then have "k div 2 ^ n = 1"
    using assms by (intro int_div_pos_eq [where r = "k - 2 ^ n"]) auto
  then show ?thesis using True by (simp add: bit_iff_odd)
next
  case False
  then show ?thesis using assms by (simp add: bit_iff_odd)
qed

lemma sint_eq_if:
  "sint (w :: 'a::len word) =
     (if uint w < 2 ^ (LENGTH('a) - 1) then uint w else uint w - 2 ^ LENGTH('a))"
proof -
  obtain n where n: "LENGTH('a) = Suc n" by (metis len_not_eq_0 not0_implies_Suc)
  have u: "0 \<le> uint w" "uint w < 2 ^ Suc n" using uint_lt2p [of w] n by simp_all
  have "signed_take_bit n (uint w) = uint w - 2 ^ Suc n * of_bool (2 ^ n \<le> uint w)"
    unfolding signed_take_bit_eq_take_bit_minus bit_top_int [OF u] using u
    by (simp add: take_bit_int_eq_self)
  then show ?thesis using n by (simp add: sint_uint)
qed

lemma sint_neg_iff: "sint (w :: 'a::len word) < 0 \<longleftrightarrow> 2 ^ (LENGTH('a) - 1) \<le> uint w"
proof -
  have "uint w < 2 ^ LENGTH('a)" "0 \<le> uint w" by (rule uint_lt2p) simp
  then show ?thesis unfolding sint_eq_if by presburger
qed

lemma int_unat_less_exp: "int (unat w) < 2 ^ n \<longleftrightarrow> unat w < 2 ^ n"
  by (metis of_nat_less_iff of_nat_numeral of_nat_power)

lemma sless_zero_iff [word_nat]:
  "0 <s (b :: 'a::len word) \<longleftrightarrow> 0 < unat b \<and> unat b < 2 ^ (LENGTH('a) - 1)"
proof -
  have u: "uint b < 2 ^ LENGTH('a)" "0 \<le> uint b" by (rule uint_lt2p) simp
  have 1: "0 < sint b \<longleftrightarrow> 0 < uint b \<and> uint b < 2 ^ (LENGTH('a) - 1)"
    using u unfolding sint_eq_if by presburger
  have 2: "uint b = int (unat b)" by simp
  show ?thesis
    unfolding word_sless_alt signed_0 1 unfolding 2 int_unat_less_exp of_nat_0_less_iff ..
qed

lemma half_range: "(2::nat) ^ LENGTH('a::len) = 2 * 2 ^ (LENGTH('a) - 1)"
  by (metis One_nat_def len_gt_0 power_minus_mult mult.commute)

lemma unat_push_bit_mod:
  "unat (push_bit k (b :: 'a::len word)) = (unat b * 2 ^ k) mod 2 ^ LENGTH('a)"
proof -
  have "unat (push_bit k b) = take_bit LENGTH('a) (push_bit k (unat b))"
    by (metis push_bit_of_nat of_nat_unat unat_of_nat take_bit_eq_mod ucast_id)
  then show ?thesis by (simp only: take_bit_eq_mod push_bit_eq_mult)
qed

lemma unat_drop_bit_div [word_nat]: "unat (drop_bit k b) = unat (b :: 'a::len word) div 2 ^ k"
  by (simp only: unat_drop_bit_eq) (simp only: drop_bit_eq_div)

lemma unat_push_bit_1 [word_nat]:
  "unat (b :: 'a::len word) < 2 ^ (LENGTH('a) - 1) \<Longrightarrow> unat (push_bit 1 b) = 2 * unat b"
  using half_range [where 'a = 'a] by (simp only: unat_push_bit_mod) (simp add: mult.commute)

lemma unat_sub_le [word_nat]: "b \<le> a \<Longrightarrow> unat (a - b) = unat a - unat (b :: 'a::len word)"
  by (rule unat_sub)

lemma unat_of_nat_lt [word_nat]:
  "n < 2 ^ LENGTH('a) \<Longrightarrow> unat (of_nat n :: 'a::len word) = n"
  by (simp add: unat_of_nat)

lemma unat_exp_lt [word_nat]: "k < LENGTH('a) \<Longrightarrow> unat (2 ^ k :: 'a::len word) = 2 ^ k"
  by (metis unat_of_nat_lt of_nat_numeral of_nat_power power_strict_increasing
      one_less_numeral_iff semiring_norm(76))

lemma or_exp_eq_add:
  "take_bit (Suc k) lo = 0 \<Longrightarrow> lo OR 2 ^ k = lo + (2 ^ k :: 'a::len word)"
  by (rule disjunctive_add [symmetric])
    (metis bit_0_eq bit_exp_iff bit_take_bit_iff bot_apply bot_bool_def lessI)

lemma word_unat_inverse: "of_nat (unat w) = (w :: 'a::len word)"
  by (metis of_nat_unat ucast_id)

text \<open>The idiom \<^verbatim>\<open>if ((int) a < 0) a = -(int) a\<close>.\<close>

definition word_abs :: "'a::len word \<Rightarrow> 'a word" where
  "word_abs a = (if a <s 0 then - a else a)"

lemma sless_0_iff: "(a :: 'a::len word) <s 0 \<longleftrightarrow> sint a < 0"
  by (simp add: word_sless_alt)

lemma uint_word_abs: "uint (word_abs (a :: 'a::len word)) = \<bar>sint a\<bar>"
proof (cases "sint a < 0")
  case True
  then have u: "2 ^ (LENGTH('a) - 1) \<le> uint a" by (simp only: sint_neg_iff)
  then have "0 < uint a" by (rule less_le_trans [rotated]) simp
  then have "uint (- a) = 2 ^ LENGTH('a) - uint a"
    by (simp add: uint_word_ariths(4) zmod_zminus1_eq_if)
  moreover have "sint a = uint a - 2 ^ LENGTH('a)" using u unfolding sint_eq_if by simp
  ultimately show ?thesis using True by (simp only: word_abs_def sless_0_iff if_True abs_of_neg)
next
  case False
  then have "uint a < 2 ^ (LENGTH('a) - 1)" by (simp only: sint_neg_iff not_le)
  then have "sint a = uint a" unfolding sint_eq_if by simp
  then show ?thesis using False by (simp add: word_abs_def sless_0_iff)
qed

lemma sint_word_of_int_32: "- (2 ^ 31) \<le> k \<Longrightarrow> k < 2 ^ 31 \<Longrightarrow> sint (word_of_int k :: u32) = k"
  by (simp add: sint_sbintrunc' signed_take_bit_int_eq_self)

text \<open>The value that a 32-bit int holds after a computation whose exact result is \<open>x\<close>.\<close>

definition s32 :: "int \<Rightarrow> int" where
  "s32 x = sint (word_of_int x :: u32)"

lemma s32_id: "- (2 ^ 31) \<le> x \<Longrightarrow> x < 2 ^ 31 \<Longrightarrow> s32 x = x"
  by (simp add: s32_def sint_word_of_int_32)

lemma sint_nonneg_unat: "0 \<le> sint (w :: 'a::len word) \<Longrightarrow> sint w = int (unat w)"
  using sint_eq_if [of w] sint_neg_iff [of w] by (simp add: not_less split: if_splits)

lemma sint_sub_4: "4 \<le> sint (w :: u32) \<Longrightarrow> sint (w - 4) = sint w - 4"
  using sint_range_size [of w] sint_word_of_int_32 [of "sint w - 4"] by (simp add: word_size)

end
