(* ===== verification/Gen_Arith.thy ===== *)
theory Gen_Arith
  imports Prelude
begin

text \<open>
  The integer helper routines the compiler calls where the core has no
  multiplier or divider: \<^verbatim>\<open>src/src/lib/src/gen/div.c\<close>, \<^verbatim>\<open>div64.c\<close>, \<^verbatim>\<open>mul.c\<close>,
  \<^verbatim>\<open>ctzsi2.c\<close>, \<^verbatim>\<open>ffssi2.c\<close>, and the generator of \<^verbatim>\<open>stdlib/random.c\<close>.
\<close>

section \<open>Restoring division\<close>

text \<open>
  The two loops of the macro \<^verbatim>\<open>UDIVMOD_BODY\<close>: the first aligns the divisor,
  the second subtracts it at each position. \<^verbatim>\<open>(int) b > 0\<close> is a signed test.
\<close>

function udivmod_align :: "'a::len word \<Rightarrow> 'a word \<Rightarrow> 'a word \<Rightarrow> 'a word \<times> 'a word" where
  "udivmod_align a b bt =
     (if b < a \<and> 0 <s b then udivmod_align a (push_bit 1 b) (push_bit 1 bt) else (b, bt))"
  by pat_completeness auto
termination
proof (relation "measure (\<lambda>(a, b, bt). 2 ^ LENGTH('a) - unat b)")
  fix a b bt :: "'a word"
  assume "b < a \<and> 0 <s b"
  then have "0 < unat b" "unat b < 2 ^ (LENGTH('a) - 1)" by (simp_all only: sless_zero_iff)
  then have "unat b < unat (push_bit 1 b)" by (simp only: unat_push_bit_1)
  moreover have "unat (push_bit 1 b) < 2 ^ LENGTH('a)" by (rule unsigned_less)
  ultimately show "((a, push_bit 1 b, push_bit 1 bt), a, b, bt)
      \<in> measure (\<lambda>(a, b, bt). 2 ^ LENGTH('a) - unat b)"
    by (simp only: in_measure prod.case)
qed simp

function udivmod_reduce ::
  "'a::len word \<Rightarrow> 'a word \<Rightarrow> 'a word \<Rightarrow> 'a word \<Rightarrow> 'a word \<times> 'a word" where
  "udivmod_reduce a b bt lo =
     (if bt \<noteq> 0 then
        if b \<le> a then udivmod_reduce (a - b) (drop_bit 1 b) (drop_bit 1 bt) (lo OR bt)
        else udivmod_reduce a (drop_bit 1 b) (drop_bit 1 bt) lo
      else (a, lo))"
  by pat_completeness auto
termination
proof (relation "measure (\<lambda>(a, b, bt, lo). unat bt)")
  fix bt :: "'a word"
  assume "bt \<noteq> 0"
  then have "0 < unat bt" by (simp add: unat_gt_0)
  then have "unat (drop_bit 1 bt) < unat bt" by (simp only: unat_drop_bit_div) simp
  then show "((a - b, drop_bit 1 b, drop_bit 1 bt, lo OR bt), a, b, bt, lo)
        \<in> measure (\<lambda>(a, b, bt, lo). unat bt)"
    and "((a, drop_bit 1 b, drop_bit 1 bt, lo), a, b, bt, lo)
        \<in> measure (\<lambda>(a, b, bt, lo). unat bt)" for a b lo
    by (simp_all only: in_measure prod.case)
qed simp

declare udivmod_align.simps [simp del] udivmod_reduce.simps [simp del]

text \<open>The body returns what is left in \<^verbatim>\<open>a\<close> and the quotient bits \<^verbatim>\<open>lo\<close>.\<close>

definition udivmod_body :: "'a::len word \<Rightarrow> 'a word \<Rightarrow> 'a word \<Rightarrow> 'a word \<times> 'a word" where
  "udivmod_body a b bt = (let (b', bt') = udivmod_align a b bt in udivmod_reduce a b' bt' 0)"

definition UDIVMOD_SIGNED :: u32 where "UDIVMOD_SIGNED = 1"
definition UDIVMOD_DO_MOD :: u32 where "UDIVMOD_DO_MOD = 2"

definition udivmodsi3 :: "u32 \<Rightarrow> u32 \<Rightarrow> u32 \<Rightarrow> u32" where
  "udivmodsi3 a b flags =
     (let b = (if flags AND UDIVMOD_SIGNED \<noteq> 0 \<and> b <s 0 then - b else b);
          a = (if flags AND UDIVMOD_SIGNED \<noteq> 0 \<and> a <s 0 then - a else a);
          (rem, lo) = udivmod_body a b 1
      in if flags AND UDIVMOD_DO_MOD \<noteq> 0 then rem else lo)"

definition divsi3 :: "u32 \<Rightarrow> u32 \<Rightarrow> u32" where
  "divsi3 a b =
     (let neg = False;
          (a, neg) = (if a <s 0 then (- a, True) else (a, neg));
          (b, neg) = (if b <s 0 then (- b, \<not> neg) else (b, neg));
          (rem, lo) = udivmod_body a b 1
      in if neg then - lo else lo)"

definition modsi3 :: "u32 \<Rightarrow> u32 \<Rightarrow> u32" where
  "modsi3 a b = udivmodsi3 a b (UDIVMOD_SIGNED OR UDIVMOD_DO_MOD)"

definition udivsi3 :: "u32 \<Rightarrow> u32 \<Rightarrow> u32" where
  "udivsi3 a b = udivmodsi3 a b 0"

definition umodsi3 :: "u32 \<Rightarrow> u32 \<Rightarrow> u32" where
  "umodsi3 a b = udivmodsi3 a b UDIVMOD_DO_MOD"

text \<open>The 64-bit routine tests the divisor for zero and tracks the sign itself.\<close>

definition udivmoddi3 :: "u64 \<Rightarrow> u64 \<Rightarrow> u32 \<Rightarrow> u64" where
  "udivmoddi3 a b flags =
     (let bt = (if 0 < b then 1 else 0);
          (b, neg) = (if flags AND UDIVMOD_SIGNED \<noteq> 0 \<and> b <s 0 then (- b, True) else (b, False));
          (a, neg) = (if flags AND UDIVMOD_SIGNED \<noteq> 0 \<and> a <s 0 then (- a, \<not> neg) else (a, neg));
          (rem, lo) = udivmod_body a b bt
      in if flags AND UDIVMOD_DO_MOD \<noteq> 0 then rem
         else if neg then - lo else lo)"

definition divdi3 :: "u64 \<Rightarrow> u64 \<Rightarrow> u64" where
  "divdi3 a b = udivmoddi3 a b UDIVMOD_SIGNED"

definition moddi3 :: "u64 \<Rightarrow> u64 \<Rightarrow> u64" where
  "moddi3 a b = udivmoddi3 a b (UDIVMOD_SIGNED OR UDIVMOD_DO_MOD)"

definition udivdi3 :: "u64 \<Rightarrow> u64 \<Rightarrow> u64" where
  "udivdi3 a b = udivmoddi3 a b 0"

definition umoddi3 :: "u64 \<Rightarrow> u64 \<Rightarrow> u64" where
  "umoddi3 a b = udivmoddi3 a b UDIVMOD_DO_MOD"

section \<open>Shift-and-add multiplication\<close>

text \<open>\<^verbatim>\<open>__mulsi3\<close> and \<^verbatim>\<open>__muldi3\<close> share one loop at two widths.\<close>

function mul_loop :: "'a::len word \<Rightarrow> 'a word \<Rightarrow> 'a word \<Rightarrow> 'a word" where
  "mul_loop res a b =
     (if b \<noteq> 0 then
        mul_loop (if b AND 1 \<noteq> 0 then res + a else res) (push_bit 1 a) (drop_bit 1 b)
      else res)"
  by pat_completeness auto
termination
proof (relation "measure (\<lambda>(res, a, b). unat b)")
  fix res a b :: "'a word"
  assume "b \<noteq> 0"
  then have "0 < unat b" by (simp add: unat_gt_0)
  then have "unat (drop_bit 1 b) < unat b" by (simp only: unat_drop_bit_div) simp
  then show "((if b AND 1 \<noteq> 0 then res + a else res, push_bit 1 a, drop_bit 1 b), res, a, b)
      \<in> measure (\<lambda>(res, a, b). unat b)"
    by (simp only: in_measure prod.case)
qed simp

declare mul_loop.simps [simp del]

definition mulsi3 :: "u32 \<Rightarrow> u32 \<Rightarrow> u32" where
  "mulsi3 a b = mul_loop 0 a b"

definition muldi3 :: "u64 \<Rightarrow> u64 \<Rightarrow> u64" where
  "muldi3 a b = mul_loop 0 a b"

section \<open>Counting trailing zeros\<close>

definition ctzsi2 :: "u32 \<Rightarrow> u32" where
  "ctzsi2 a =
     (let x = a;
          t = (if x AND 0xFFFF = 0 then 16 else 0); x = drop_bit t x; r = of_nat t;
          t = (if x AND 0xFF = 0 then 8 else 0); x = drop_bit t x; r = r + of_nat t;
          t = (if x AND 0xF = 0 then 4 else 0); x = drop_bit t x; r = r + of_nat t;
          t = (if x AND 0x3 = 0 then 2 else 0); x = drop_bit t x; x = x AND 3; r = r + of_nat t
      in r + ((2 - drop_bit 1 x) AND - (if x AND 1 = 0 then 1 else 0)))"

definition ffssi2 :: "u32 \<Rightarrow> u32" where
  "ffssi2 a = (if a = 0 then 0 else ctzsi2 a + 1)"

section \<open>The minimal standard generator\<close>

text \<open>
  \<^verbatim>\<open>random()\<close> keeps its state in the signed word \<^verbatim>\<open>randseed\<close>; the division
  and remainder are C's on signed values, the products are computed modulo
  \<open>2 ^ 32\<close>. The result is the value returned and the new seed.
\<close>

definition random :: "u32 \<Rightarrow> u32 \<times> u32" where
  "random randseed =
     (let x = (if randseed = 0 then 123459876 else randseed);
          hi = word_of_int (sint x sdiv 127773) :: u32;
          lo = word_of_int (sint x smod 127773) :: u32;
          t = 16807 * lo - 2836 * hi;
          t = (if t <s 0 then t + 0x7fffffff else t)
      in (t, t))"

section \<open>Correctness of the division loops\<close>

lemma udivmod_align_spec:
  assumes "b \<noteq> 0" "unat bt \<le> unat b" "udivmod_align a b bt = (b', bt')"
  shows "\<exists>k. unat b' = unat b * 2 ^ k \<and> unat bt' = unat bt * 2 ^ k \<and> unat a < 2 * unat b'"
  using assms
proof (induction a b bt rule: udivmod_align.induct)
  case (1 a b bt)
  show ?case
  proof (cases "b < a \<and> 0 <s b")
    case True
    then have b: "0 < unat b" "unat b < 2 ^ (LENGTH('a) - 1)" by (simp_all only: sless_zero_iff)
    with "1.prems"(2) have bt: "unat bt < 2 ^ (LENGTH('a) - 1)" by linarith
    note sh = unat_push_bit_1 [OF b(2)] unat_push_bit_1 [OF bt]
    have "push_bit 1 b \<noteq> 0" using b sh by (metis mult_is_0 not_less_zero unsigned_0 zero_neq_numeral)
    moreover have "unat (push_bit 1 bt) \<le> unat (push_bit 1 b)"
      using "1.prems"(2) by (simp only: sh)
    moreover have "udivmod_align a (push_bit 1 b) (push_bit 1 bt) = (b', bt')"
      using "1.prems"(3) True by (simp only: udivmod_align.simps [of a b bt] if_True simp_thms)
    ultimately obtain k where "unat b' = unat (push_bit 1 b) * 2 ^ k"
      "unat bt' = unat (push_bit 1 bt) * 2 ^ k" "unat a < 2 * unat b'"
      using "1.IH" [OF True] by blast
    then have "unat b' = unat b * 2 ^ Suc k \<and> unat bt' = unat bt * 2 ^ Suc k \<and> unat a < 2 * unat b'"
      by (simp only: sh) simp
    then show ?thesis by blast
  next
    case False
    then have r: "b' = b" "bt' = bt" using "1.prems"(3) by (simp_all only: udivmod_align.simps [of a b bt] if_False prod.inject)
    have pos: "0 < unat b" using "1.prems"(1) by (simp add: unat_gt_0)
    have "unat a < 2 * unat b"
    proof (cases "b < a")
      case True
      with False have "\<not> 0 <s b" by simp
      with pos have "2 ^ (LENGTH('a) - 1) \<le> unat b" by (simp only: sless_zero_iff) simp
      then show ?thesis using half_range [where 'a = 'a] unsigned_less [of a, where 'a = nat] by linarith
    next
      case False
      then show ?thesis using pos by (simp add: word_less_nat_alt)
    qed
    then show ?thesis using r by (intro exI [of _ 0]) simp
  qed
qed

lemma udivmod_reduce_spec:
  fixes a lo :: "'a::len word"
  assumes "0 < d" "d * 2 ^ k < 2 ^ LENGTH('a)" "take_bit (Suc k) lo = 0"
    and "unat a < 2 * (d * 2 ^ k)"
  shows "udivmod_reduce a (of_nat (d * 2 ^ k)) (2 ^ k) lo =
           (of_nat (unat a mod d), lo + of_nat (unat a div d))"
  using assms
proof (induction k arbitrary: a lo)
  case 0
  have ud: "unat (of_nat d :: 'a word) = d" using "0.prems"(2) by (simp add: unat_of_nat_lt)
  show ?case
  proof (cases "(of_nat d :: 'a word) \<le> a")
    case True
    then have ge: "d \<le> unat a" using ud by (simp add: word_le_nat_alt)
    have *: "unat a - d < d" using "0.prems"(4) ge by simp
    have "a - of_nat d = of_nat (unat a - d)" using True ud
      by (metis of_nat_unat ucast_id unat_sub_le)
    moreover have "unat a mod d = unat a - d" using ge * by (metis le_mod_geq mod_less)
    moreover have "unat a div d = 1" using ge * by (intro div_nat_eqI) simp_all
    ultimately show ?thesis
      using True or_exp_eq_add [of 0 lo] "0.prems"(3)
      by (simp add: udivmod_reduce.simps [of a] udivmod_reduce.simps [of _ _ 0])
  next
    case False
    then have "unat a < d" using ud by (simp add: word_le_nat_alt)
    then show ?thesis using False
      by (simp add: udivmod_reduce.simps [of a] udivmod_reduce.simps [of _ _ 0])
  qed
next
  case (Suc k)
  let ?b = "of_nat (d * 2 ^ Suc k) :: 'a word"
  have ub: "unat ?b = d * 2 ^ Suc k" using Suc.prems(2) by (rule unat_of_nat_lt)
  have "2 ^ Suc k < (2::nat) ^ LENGTH('a)" using Suc.prems(1,2)
    by (metis le_less_trans mult_le_mono1 nat_mult_1 Suc_leI One_nat_def)
  then have kl: "Suc k < LENGTH('a)" by (simp only: power_strict_increasing_iff one_less_numeral_iff semiring_norm)
  have db: "drop_bit 1 ?b = of_nat (d * 2 ^ k)"
  proof (rule word_unat_eq_iff [THEN iffD2])
    have "d * 2 ^ k < 2 ^ LENGTH('a)" using Suc.prems(2) by simp
    then show "unat (drop_bit 1 ?b) = unat (of_nat (d * 2 ^ k) :: 'a word)"
      by (simp only: unat_drop_bit_div ub unat_of_nat_lt) simp
  qed
  have dt: "drop_bit 1 (2 ^ Suc k :: 'a word) = 2 ^ k"
    using kl by (simp only: word_unat_eq_iff unat_drop_bit_div unat_exp_lt Suc_lessD) simp
  have nz: "(2 ^ Suc k :: 'a word) \<noteq> 0" using kl by (metis unat_exp_lt power_eq_0_iff unsigned_0 zero_neq_numeral)
  have d': "d * 2 ^ k < 2 ^ LENGTH('a)" using Suc.prems(2) by simp
  have t0: "take_bit (Suc k) lo = 0" using Suc.prems(3) by (metis lessI less_imp_le take_bit_of_0 take_bit_take_bit min.absorb1)
  show ?case
  proof (cases "?b \<le> a")
    case True
    let ?a = "a - ?b" and ?lo = "lo OR 2 ^ Suc k"
    have ge: "d * 2 ^ Suc k \<le> unat a" using True ub by (simp only: word_le_nat_alt)
    have ua: "unat ?a = unat a - d * 2 ^ Suc k" using True by (simp only: unat_sub_le ub)
    have lt: "unat ?a < 2 * (d * 2 ^ k)" using Suc.prems(4) ge ua by simp
    have "take_bit (Suc k) (2 ^ Suc k :: 'a word) = 0"
      by (metis take_bit_push_bit diff_self_eq_0 push_bit_of_1 take_bit_0 push_bit_0_id push_bit_of_0)
    then have tl: "take_bit (Suc k) ?lo = 0"
      using t0 by (simp only: take_bit_or or.right_neutral)
    have "udivmod_reduce a ?b (2 ^ Suc k) lo = udivmod_reduce ?a (of_nat (d * 2 ^ k)) (2 ^ k) ?lo"
      using True nz by (simp only: udivmod_reduce.simps [of a ?b "2 ^ Suc k" lo] db dt if_True if_False simp_thms)
    also have "\<dots> = (of_nat (unat ?a mod d), ?lo + of_nat (unat ?a div d))"
      by (rule Suc.IH [OF Suc.prems(1) d' tl lt])
    also have "unat ?a mod d = unat a mod d"
      using ge ua by (metis le_add_diff_inverse2 mod_mult_self2 mult.commute)
    also have "?lo = lo + of_nat (2 ^ Suc k)" using or_exp_eq_add [OF Suc.prems(3)] by simp
    also have "unat a div d = unat ?a div d + 2 ^ Suc k"
      using ge ua Suc.prems(1) by (metis add.commute div_mult_self2 le_add_diff_inverse not_gr_zero)
    hence "lo + of_nat (2 ^ Suc k) + of_nat (unat ?a div d) = lo + (of_nat (unat a div d) :: 'a word)"
      by (simp only: of_nat_add add.assoc add.commute)
    finally show ?thesis .
  next
    case False
    have lt: "unat a < 2 * (d * 2 ^ k)" using False ub by (simp add: word_le_nat_alt not_le)
    have "udivmod_reduce a ?b (2 ^ Suc k) lo = udivmod_reduce a (of_nat (d * 2 ^ k)) (2 ^ k) lo"
      using False nz by (simp only: udivmod_reduce.simps [of a ?b "2 ^ Suc k" lo] db dt if_True if_False simp_thms)
    also have "\<dots> = (of_nat (unat a mod d), lo + of_nat (unat a div d))"
      by (rule Suc.IH [OF Suc.prems(1) d' t0 lt])
    finally show ?thesis .
  qed
qed

lemma udivmod_body_spec:
  assumes "b \<noteq> (0 :: 'a::len word)"
  shows "udivmod_body a b 1 = (a mod b, a div b)"
proof -
  obtain b' bt where al: "udivmod_align a b 1 = (b', bt)" by (cases "udivmod_align a b 1")
  have pos: "0 < unat b" using assms by (simp add: unat_gt_0)
  then have "unat (1 :: 'a word) \<le> unat b" by simp
  from udivmod_align_spec [OF assms this al] obtain k where
    k: "unat b' = unat b * 2 ^ k" "unat bt = 2 ^ k" "unat a < 2 * (unat b * 2 ^ k)" by auto
  have lt: "unat b * 2 ^ k < 2 ^ LENGTH('a)" using k(1) unsigned_less [of b', where 'a = nat] by simp
  have b': "b' = of_nat (unat b * 2 ^ k)" using k(1) by (metis of_nat_unat ucast_id)
  have bt: "bt = 2 ^ k" using k(2) by (metis of_nat_unat of_nat_numeral of_nat_power ucast_id)
  have "udivmod_reduce a b' bt 0 = (of_nat (unat a mod unat b), of_nat (unat a div unat b))"
    unfolding b' bt using udivmod_reduce_spec [OF pos lt _ k(3), of 0] by simp
  moreover have "a mod b = of_nat (unat a mod unat b)" "a div b = of_nat (unat a div unat b)"
    by (metis of_nat_unat ucast_id unat_mod_distrib unat_mod, metis of_nat_unat ucast_id unat_div_distrib unat_div)
  ultimately show ?thesis by (simp add: udivmod_body_def al)
qed

section \<open>Signed division and remainder\<close>

lemma word_abs_0_iff [simp]: "word_abs b = 0 \<longleftrightarrow> b = 0"
  by (simp add: word_abs_def)

lemma word_abs_div: "uint (word_abs a div word_abs b) = \<bar>sint a\<bar> div \<bar>sint b\<bar>"
  by (simp add: uint_div uint_word_abs)

lemma word_abs_mod: "uint (word_abs a mod word_abs b) = \<bar>sint a\<bar> mod \<bar>sint b\<bar>"
  by (simp add: uint_mod uint_word_abs)

lemma signed_quotient:
  assumes "b \<noteq> (0 :: 'a::len word)"
  shows "(if (a <s 0) \<noteq> (b <s 0) then - (word_abs a div word_abs b) else word_abs a div word_abs b)
           = word_of_int (sint a sdiv sint b)"
proof -
  let ?q = "word_abs a div word_abs b"
  have nz: "sint b \<noteq> 0" using assms by (metis sint_0 signed_eq_0_iff)
  have q: "?q = word_of_int (\<bar>sint a\<bar> div \<bar>sint b\<bar>)" by (metis word_abs_div word_of_int_uint)
  have m: "- ?q = word_of_int (- (\<bar>sint a\<bar> div \<bar>sint b\<bar>))" unfolding q by simp
  show ?thesis
    using nz unfolding m unfolding q sless_0_iff signed_divide_int_def
    by (auto simp: sgn_if)
qed

lemma udivmodsi3_unsigned:
  assumes "b \<noteq> 0"
  shows "udivmodsi3 a b 0 = a div b" "udivmodsi3 a b UDIVMOD_DO_MOD = a mod b"
  by (simp_all add: udivmodsi3_def udivmod_body_spec [OF assms] UDIVMOD_SIGNED_def UDIVMOD_DO_MOD_def)

lemma udivmoddi3_unsigned:
  assumes "b \<noteq> 0"
  shows "udivmoddi3 a b 0 = a div b" "udivmoddi3 a b UDIVMOD_DO_MOD = a mod b"
  using assms
  by (simp_all add: udivmoddi3_def udivmod_body_spec [OF assms] UDIVMOD_SIGNED_def UDIVMOD_DO_MOD_def
      word_gt_0)

lemma divsi3_quotient:
  assumes "b \<noteq> 0"
  shows "divsi3 a b = word_of_int (sint a sdiv sint b)"
proof -
  have body: "udivmod_body (word_abs a) (word_abs b) 1 = (word_abs a mod word_abs b, word_abs a div word_abs b)"
    using assms by (intro udivmod_body_spec) simp
  have "divsi3 a b = (if (a <s 0) \<noteq> (b <s 0) then - (word_abs a div word_abs b) else word_abs a div word_abs b)"
    using body unfolding divsi3_def by (simp add: word_abs_def Let_def split: if_splits)
  then show ?thesis by (simp only: signed_quotient [OF assms])
qed

lemma divdi3_quotient:
  assumes "b \<noteq> 0"
  shows "divdi3 a b = word_of_int (sint a sdiv sint b)"
proof -
  have body: "udivmod_body (word_abs a) (word_abs b) 1 = (word_abs a mod word_abs b, word_abs a div word_abs b)"
    using assms by (intro udivmod_body_spec) simp
  have "divdi3 a b = (if (a <s 0) \<noteq> (b <s 0) then - (word_abs a div word_abs b) else word_abs a div word_abs b)"
    using body assms unfolding divdi3_def udivmoddi3_def
    by (simp add: word_abs_def Let_def word_gt_0 UDIVMOD_SIGNED_def UDIVMOD_DO_MOD_def split: if_splits)
  then show ?thesis by (simp only: signed_quotient [OF assms])
qed

lemma modsi3_value:
  assumes "b \<noteq> 0"
  shows "uint (modsi3 a b) = \<bar>sint a\<bar> mod \<bar>sint b\<bar>"
proof -
  have "udivmod_body (word_abs a) (word_abs b) 1 = (word_abs a mod word_abs b, word_abs a div word_abs b)"
    using assms by (intro udivmod_body_spec) simp
  then have "modsi3 a b = word_abs a mod word_abs b"
    unfolding modsi3_def udivmodsi3_def word_abs_def
    by (simp add: Let_def UDIVMOD_SIGNED_def UDIVMOD_DO_MOD_def)
  then show ?thesis by (simp only: word_abs_mod)
qed

lemma moddi3_value:
  assumes "b \<noteq> 0"
  shows "uint (moddi3 a b) = \<bar>sint a\<bar> mod \<bar>sint b\<bar>"
proof -
  have "udivmod_body (word_abs a) (word_abs b) 1 = (word_abs a mod word_abs b, word_abs a div word_abs b)"
    using assms by (intro udivmod_body_spec) simp
  then have "moddi3 a b = word_abs a mod word_abs b"
    using assms unfolding moddi3_def udivmoddi3_def word_abs_def
    by (simp add: Let_def UDIVMOD_SIGNED_def UDIVMOD_DO_MOD_def word_gt_0 split: if_splits)
  then show ?thesis by (simp only: word_abs_mod)
qed

lemma mul_loop_spec: "mul_loop res a b = res + a * b"
proof (induction res a b rule: mul_loop.induct)
  case (1 res a b)
  show ?case
  proof (cases "b = 0")
    case False
    have b: "b = (b AND 1) + 2 * drop_bit 1 b"
      using bits_ident [of 1 b] by (simp add: push_bit_eq_mult and_one_eq ac_simps flip: take_bit_eq_mask) (simp add: and.commute [of 1] and_one_eq)
    have b01: "b AND 1 = 0 \<or> b AND 1 = 1" by (metis and_one_eq not_mod_2_eq_0_eq_1)
    have "mul_loop res a b = (if b AND 1 \<noteq> 0 then res + a else res) + push_bit 1 a * drop_bit 1 b"
      using "1.IH" [OF False] False by (simp only: mul_loop.simps [of res a b] if_True simp_thms)
    also have "\<dots> = res + a * ((b AND 1) + 2 * drop_bit 1 b)"
      using b01 by (auto simp: push_bit_eq_mult algebra_simps)
    also have "\<dots> = res + a * b" using b by simp
    finally show ?thesis .
  qed (simp add: mul_loop.simps)
qed

section \<open>The count of trailing zeros\<close>

text \<open>\<open>ctz_at x r\<close>: bit \<open>r\<close> is the lowest one that is set.\<close>

definition ctz_at :: "u32 \<Rightarrow> nat \<Rightarrow> bool" where
  "ctz_at x r \<longleftrightarrow> bit x r \<and> (\<forall>i < r. \<not> bit x i)"

lemma take_bit_0_bits: "take_bit k (x :: u32) = 0 \<longleftrightarrow> (\<forall>i < k. \<not> bit x i)"
proof
  assume z: "take_bit k x = 0"
  show "\<forall>i < k. \<not> bit x i"
    using bit_take_bit_iff [of k x] unfolding z by auto
next
  assume "\<forall>i < k. \<not> bit x i"
  then show "take_bit k x = 0" by (intro bit_eqI) (auto simp: bit_take_bit_iff)
qed

lemma ctz_at_drop: "take_bit k x = 0 \<Longrightarrow> ctz_at (drop_bit k x) r \<Longrightarrow> ctz_at x (k + r)"
  unfolding ctz_at_def take_bit_0_bits
  by (auto simp: bit_drop_bit_eq) (metis less_diff_conv2 add.commute le_add_diff_inverse not_less nat_add_left_cancel_less)

lemma ctz_step:
  assumes "take_bit (2 * k) (x :: u32) \<noteq> 0"
  shows "take_bit k (drop_bit (if take_bit k x = 0 then k else 0) x) \<noteq> 0"
proof (cases "take_bit k x = 0")
  case True
  from assms obtain i where i: "i < 2 * k" "bit x i" unfolding take_bit_0_bits by blast
  with True have "k \<le> i" unfolding take_bit_0_bits by (meson not_le)
  with i have "bit (drop_bit k x) (i - k)" "i - k < k" by (simp_all add: bit_drop_bit_eq)
  then show ?thesis using True unfolding take_bit_0_bits by auto
qed simp

lemma and_masks: "x AND 0xFFFF = take_bit 16 (x::u32)" "x AND 0xFF = take_bit 8 x"
   "x AND 0xF = take_bit 4 x" "x AND 0x3 = take_bit 2 x"
  by (simp_all add: take_bit_eq_mask mask_eq_exp_minus_1)

text \<open>One halving step of the count.\<close>

definition ctz_shift :: "nat \<Rightarrow> u32 \<Rightarrow> nat" where
  "ctz_shift k x = (if take_bit k x = 0 then k else 0)"

lemma ctz_at_shift: "ctz_at (drop_bit (ctz_shift k x) x) r \<Longrightarrow> ctz_at x (ctz_shift k x + r)"
  by (auto simp: ctz_shift_def ctz_at_drop)

lemma ctz_tail:
  assumes "take_bit 2 x \<noteq> 0"
  shows "ctz_at x (unat ((2 - drop_bit 1 (x AND 3)) AND - (if (x AND 3) AND 1 = 0 then 1 else 0)))"
proof (cases "bit x 0")
  case True
  moreover have "(x AND 3) AND 1 = x AND 1" by (simp only: and.assoc) simp
  ultimately have "(x AND 3) AND 1 = 1" by (simp only: and_one_eq bit_0 odd_iff_mod_2_eq_one)
  then show ?thesis using True by (simp add: ctz_at_def)
next
  case False
  with assms have b1: "bit x 1" unfolding take_bit_0_bits by (metis less_2_cases One_nat_def)
  have "x AND 3 = 2"
    using False b1 by (intro bit_eqI) (auto simp: bit_simps less_Suc_eq numeral_eq_Suc)
  then show ?thesis using False b1 by (simp add: ctz_at_def)
qed

lemma ctzsi2_alt:
  "ctzsi2 a = (let x1 = drop_bit (ctz_shift 16 a) a; x2 = drop_bit (ctz_shift 8 x1) x1;
     x3 = drop_bit (ctz_shift 4 x2) x2; x4 = drop_bit (ctz_shift 2 x3) x3 in
     of_nat (ctz_shift 16 a) + of_nat (ctz_shift 8 x1) + of_nat (ctz_shift 4 x2) + of_nat (ctz_shift 2 x3)
       + ((2 - drop_bit 1 (x4 AND 3)) AND - (if (x4 AND 3) AND 1 = 0 then 1 else 0)))"
  unfolding ctzsi2_def ctz_shift_def Let_def and_masks ..

lemma ctz_at_lt: "ctz_at x r \<Longrightarrow> r < 32"
  unfolding ctz_at_def using bit_imp_le_length by fastforce

lemma ctzsi2_ctz:
  assumes "a \<noteq> 0"
  shows "ctz_at a (unat (ctzsi2 a))"
proof -
  define x1 x2 x3 x4 where x: "x1 = drop_bit (ctz_shift 16 a) a" "x2 = drop_bit (ctz_shift 8 x1) x1"
     "x3 = drop_bit (ctz_shift 4 x2) x2" "x4 = drop_bit (ctz_shift 2 x3) x3"
  define r where "r = (2 - drop_bit 1 (x4 AND 3)) AND - (if (x4 AND 3) AND 1 = 0 then 1 else 0)"
  have "take_bit (2 * 16) a \<noteq> 0" using assms by (simp add: take_bit_word_eq_self)
  then have "take_bit 16 x1 \<noteq> 0" using ctz_step [of 16 a] by (simp add: x ctz_shift_def)
  then have "take_bit 8 x2 \<noteq> 0" using ctz_step [of 8 x1] by (simp add: x(2) ctz_shift_def)
  then have "take_bit 4 x3 \<noteq> 0" using ctz_step [of 4 x2] by (simp add: x(3) ctz_shift_def)
  then have "take_bit 2 x4 \<noteq> 0" using ctz_step [of 2 x3] by (simp add: x(4) ctz_shift_def)
  then have "ctz_at x4 (unat r)" unfolding r_def by (rule ctz_tail)
  then have at: "ctz_at a (ctz_shift 16 a + (ctz_shift 8 x1 + (ctz_shift 4 x2 + (ctz_shift 2 x3 + unat r))))"
    unfolding x by (intro ctz_at_shift) 
  have "ctzsi2 a = of_nat (ctz_shift 16 a + (ctz_shift 8 x1 + (ctz_shift 4 x2 + (ctz_shift 2 x3 + unat r))))"
    unfolding ctzsi2_alt Let_def x [symmetric] r_def [symmetric] by (simp add: word_unat_inverse)
  moreover have "ctz_shift 16 a + (ctz_shift 8 x1 + (ctz_shift 4 x2 + (ctz_shift 2 x3 + unat r))) < 2 ^ LENGTH(32)"
    using ctz_at_lt [OF at] by simp
  ultimately have "unat (ctzsi2 a) = ctz_shift 16 a + (ctz_shift 8 x1 + (ctz_shift 4 x2 + (ctz_shift 2 x3 + unat r)))"
    by (simp only: unat_of_nat_lt)
  then show ?thesis using at by simp
qed

section \<open>The generator\<close>

lemma minimal_standard_mod:
  fixes x :: int
  assumes "0 < x" "x < 2 ^ 31 - 1"
  defines "t \<equiv> 16807 * (x mod 127773) - 2836 * (x div 127773)"
  shows "- (2 ^ 31 - 1) < t" "t < 2 ^ 31 - 1"
    "(if t < 0 then t + (2 ^ 31 - 1) else t) = 16807 * x mod (2 ^ 31 - 1)"
proof -
  have m: "0 \<le> x mod 127773" "x mod 127773 < 127773" by simp_all
  have d: "0 \<le> x div 127773" "x div 127773 \<le> 16807" using assms(1,2) by simp_all
  show b: "- (2 ^ 31 - 1) < t" "t < 2 ^ 31 - 1" unfolding t_def using m d by simp_all
  have lin: "16807 * (127773 * q + r) = (16807 * r - 2836 * q) + (2 ^ 31 - 1) * q" for q r :: int
    by simp
  have "127773 * (x div 127773) + x mod 127773 = x" by simp
  then have "16807 * x = t + (2 ^ 31 - 1) * (x div 127773)"
    unfolding t_def using lin [of "x div 127773" "x mod 127773"] by (simp only:)
  then have e: "16807 * x mod (2 ^ 31 - 1) = t mod (2 ^ 31 - 1)" by simp
  show "(if t < 0 then t + (2 ^ 31 - 1) else t) = 16807 * x mod (2 ^ 31 - 1)"
  proof (cases "t < 0")
    case True
    then have "t mod (2 ^ 31 - 1) = (t + (2 ^ 31 - 1)) mod (2 ^ 31 - 1)" by simp
    also have "\<dots> = t + (2 ^ 31 - 1)" using True b by (intro mod_pos_pos_trivial) simp_all
    finally show ?thesis using True e by simp
  next
    case False
    then show ?thesis using e b by (simp add: mod_pos_pos_trivial)
  qed
qed

lemma minimal_standard_nonzero:
  fixes x :: int
  assumes "0 < x" "x < 2 ^ 31 - 1"
  shows "0 < 16807 * x mod (2 ^ 31 - 1)"
proof -
  have c: "coprime (16807 :: int) (2 ^ 31 - 1)" by (simp add: coprime_iff_gcd_eq_1 gcd_non_0_int)
  have "\<not> (2 ^ 31 - 1) dvd x" using assms by (auto dest: zdvd_imp_le)
  then have "\<not> (2 ^ 31 - 1) dvd 16807 * x" using c coprime_dvd_mult_right_iff [of "2 ^ 31 - 1" 16807 x]
    by (simp add: coprime_commute)
  then have "16807 * x mod (2 ^ 31 - 1) \<noteq> 0" by (simp add: dvd_eq_mod_eq_0)
  moreover have "0 \<le> 16807 * x mod (2 ^ 31 - 1)" by simp
  ultimately show ?thesis by simp
qed

lemma random_step:
  assumes s: "0 < sint s" "sint s < 2 ^ 31 - 1"
  shows "sint (fst (random s)) = 16807 * sint s mod (2 ^ 31 - 1)"
proof -
  define hi lo where "hi = sint s div 127773" and "lo = sint s mod 127773"
  define t where "t = 16807 * lo - 2836 * hi"
  note ms = minimal_standard_mod [OF s, folded lo_def hi_def, folded t_def]
  have s0: "s \<noteq> 0" using s by auto
  have tr: "16807 * word_of_int lo - 2836 * word_of_int hi = (word_of_int t :: u32)"
    by (simp add: t_def)
  have dm: "sint s sdiv 127773 = hi" "sint s smod 127773 = lo"
    using s by (simp_all add: hi_def lo_def signed_divide_int_def signed_modulo_int_def minus_div_mult_eq_mod)
  have st: "sint (word_of_int t :: u32) = t" using ms(1,2) by (intro sint_word_of_int_32) simp_all
  have "fst (random s) = (if t < 0 then word_of_int t + 0x7fffffff else word_of_int t)"
    using s0 by (simp add: random_def Let_def dm tr sless_0_iff st)
  also have "\<dots> = word_of_int (if t < 0 then t + (2 ^ 31 - 1) else t)" by simp
  finally have "fst (random s) = word_of_int (16807 * sint s mod (2 ^ 31 - 1))" by (simp only: ms(3))
  moreover have "0 \<le> 16807 * sint s mod (2 ^ 31 - 1)" "16807 * sint s mod (2 ^ 31 - 1) < 2 ^ 31 - 1"
    by (simp_all)
  ultimately show ?thesis using sint_word_of_int_32 [of "16807 * sint s mod (2 ^ 31 - 1)"] by simp
qed

section \<open>Properties\<close>

text \<open>C38: The unsigned division routines compute quotient and remainder for
  every dividend and every divisor but zero, at both widths.\<close>
theorem udiv_umod_correct:
  assumes "b \<noteq> 0" and "d \<noteq> 0"
  shows "udivsi3 a b = a div b \<and> umodsi3 a b = a mod b \<and>
         udivdi3 c d = c div d \<and> umoddi3 c d = c mod d"
  using assms
  by (simp add: udivsi3_def umodsi3_def udivdi3_def umoddi3_def
      udivmodsi3_unsigned udivmoddi3_unsigned)

theorem udiv_umod_correct_witness:
  "(7 :: u32) \<noteq> 0 \<and> (10 :: u64) \<noteq> 0 \<and>
   udivsi3 100 7 = 14 \<and> umodsi3 100 7 = 2 \<and> udivdi3 123456789012 10 = 12345678901 \<and>
   umoddi3 123456789012 10 = 2"
  using udiv_umod_correct [of 7 10 100 123456789012] by simp

text \<open>The signed quotient truncates towards zero as C demands, at both
  widths; the signed remainder routines return the remainder of the absolute
  values, so the sign of the dividend is lost.\<close>
theorem signed_div_mod_value:
  assumes "b \<noteq> 0" and "d \<noteq> 0"
  shows "divsi3 a b = word_of_int (sint a sdiv sint b) \<and>
         divdi3 c d = word_of_int (sint c sdiv sint d) \<and>
         uint (modsi3 a b) = \<bar>sint a\<bar> mod \<bar>sint b\<bar> \<and>
         uint (moddi3 c d) = \<bar>sint c\<bar> mod \<bar>sint d\<bar>"
  using assms by (simp add: divsi3_quotient divdi3_quotient modsi3_value moddi3_value)

theorem signed_div_mod_value_witness:
  "(2 :: u32) \<noteq> 0 \<and> (2 :: u64) \<noteq> 0 \<and>
   divsi3 (- 7) 2 = - 3 \<and> divdi3 (- 7) 2 = - 3 \<and>
   uint (modsi3 (- 7) 2) = 1 \<and> uint (moddi3 (- 7) 2) = 1 \<and> sint (- 7 :: u32) smod 2 = - 1"
  using signed_div_mod_value [of 2 2 "- 7" "- 7"]
  by (simp add: signed_divide_int_def signed_modulo_int_def)

text \<open>Shift-and-add multiplication is multiplication modulo the word size.\<close>
theorem mul_correct: "mulsi3 a b = a * b \<and> muldi3 c d = c * d"
  by (simp add: mulsi3_def muldi3_def mul_loop_spec)

text \<open>For a nonzero word the branch-free count is the position of the lowest
  set bit, and find-first-set is one more.\<close>
theorem ctz_ffs_correct:
  assumes "a \<noteq> 0"
  shows "bit a (unat (ctzsi2 a)) \<and> (\<forall>i < unat (ctzsi2 a). \<not> bit a i) \<and>
         unat (ffssi2 a) = unat (ctzsi2 a) + 1 \<and> ffssi2 0 = 0"
proof -
  have at: "ctz_at a (unat (ctzsi2 a))" using assms by (rule ctzsi2_ctz)
  then have "unat (ctzsi2 a) < 32" by (rule ctz_at_lt)
  then have "unat (ctzsi2 a + 1) = unat (ctzsi2 a) + 1"
    by (simp add: unat_word_ariths)
  then show ?thesis using at assms by (simp add: ctz_at_def ffssi2_def)
qed

theorem ctz_ffs_correct_witness:
  "(40 :: u32) \<noteq> 0 \<and> bit (40 :: u32) (unat (ctzsi2 40)) \<and> unat (ffssi2 40) = unat (ctzsi2 40) + 1"
  using ctz_ffs_correct [of 40] by simp

text \<open>From a seed in range, \<^verbatim>\<open>random()\<close> returns the next value of the
  multiplicative generator \<open>x \<mapsto> 7 ^ 5 * x mod (2 ^ 31 - 1)\<close> and leaves a seed in
  range; a zero seed stands for 123459876.\<close>
theorem random_minimal_standard:
  assumes "0 < sint s" and "sint s < 2 ^ 31 - 1"
  shows "sint (fst (random s)) = 7 ^ 5 * sint s mod (2 ^ 31 - 1) \<and>
         0 < sint (snd (random s)) \<and> sint (snd (random s)) < 2 ^ 31 - 1 \<and>
         random 0 = random 123459876"
proof -
  have "snd (random s) = fst (random s)" by (simp add: random_def Let_def)
  moreover have "16807 * sint s mod (2 ^ 31 - 1) < 2 ^ 31 - 1" by simp
  moreover have "random 0 = random 123459876" by (simp add: random_def)
  ultimately show ?thesis
    using random_step [OF assms] minimal_standard_nonzero [OF assms] by simp
qed

theorem random_minimal_standard_witness:
  "0 < sint (1 :: u32) \<and> sint (1 :: u32) < 2 ^ 31 - 1 \<and> sint (fst (random 1)) = 16807"
  using random_minimal_standard [of 1] by simp

end
