(* ===== verification/Qsort.thy ===== *)
theory Qsort
  imports Prelude "HOL-Library.Multiset"
begin

text \<open>
  The sorting routine of stdlib/qsort.c.  The array is a list, a pointer into
  it the index of its element (all pointers of the routine are the start of the
  array plus a multiple of the element size), and the comparison function an
  argument.  The recursion and the loop back to the start are both recursive
  calls.
\<close>

section \<open>The routine\<close>

text \<open>The macro \<^verbatim>\<open>swap\<close>, and \<^verbatim>\<open>vecswap\<close>, which exchanges \<open>r\<close> elements.\<close>

definition swap :: "nat \<Rightarrow> nat \<Rightarrow> 'a list \<Rightarrow> 'a list" where
  "swap i j xs = xs[i := xs ! j, j := xs ! i]"

fun vecswap :: "nat \<Rightarrow> nat \<Rightarrow> nat \<Rightarrow> 'a list \<Rightarrow> 'a list" where
  "vecswap i j 0 xs = xs"
| "vecswap i j (Suc r) xs = vecswap (Suc i) (Suc j) r (swap i j xs)"

definition med3 :: "('a \<Rightarrow> 'a \<Rightarrow> int) \<Rightarrow> 'a list \<Rightarrow> nat \<Rightarrow> nat \<Rightarrow> nat \<Rightarrow> nat" where
  "med3 cmp xs a b c =
     (if cmp (xs ! a) (xs ! b) < 0 then
        (if cmp (xs ! b) (xs ! c) < 0 then b else if cmp (xs ! a) (xs ! c) < 0 then c else a)
      else
        (if cmp (xs ! b) (xs ! c) > 0 then b else if cmp (xs ! a) (xs ! c) < 0 then a else c))"

text \<open>The two loops of the insertion sort.\<close>

fun sift_down :: "('a \<Rightarrow> 'a \<Rightarrow> int) \<Rightarrow> nat \<Rightarrow> nat \<Rightarrow> 'a list \<Rightarrow> 'a list" where
  "sift_down cmp a 0 xs = xs"
| "sift_down cmp a (Suc pl) xs =
     (if a < Suc pl \<and> cmp (xs ! pl) (xs ! Suc pl) > 0 then sift_down cmp a pl (swap (Suc pl) pl xs) else xs)"

function insertion_sort :: "('a \<Rightarrow> 'a \<Rightarrow> int) \<Rightarrow> nat \<Rightarrow> nat \<Rightarrow> nat \<Rightarrow> 'a list \<Rightarrow> 'a list" where
  "insertion_sort cmp a pn pm xs =
     (if pm < pn then insertion_sort cmp a pn (Suc pm) (sift_down cmp a pm xs) else xs)"
  by pat_completeness auto
termination by (relation "measure (\<lambda>(_, _, pn, pm, _). pn - pm)") auto

text \<open>The choice of the pivot.\<close>

definition pivot :: "('a \<Rightarrow> 'a \<Rightarrow> int) \<Rightarrow> nat \<Rightarrow> nat \<Rightarrow> 'a list \<Rightarrow> nat" where
  "pivot cmp a n xs =
     (let pm = a + n div 2 in
      if n > 7 then
        (let pl = a; pn = a + (n - 1);
             (pl, pm, pn) =
               (if n > 40 then
                  (let d = n div 8 in
                   (med3 cmp xs pl (pl + d) (pl + 2 * d), med3 cmp xs (pm - d) pm (pm + d),
                    med3 cmp xs (pn - 2 * d) (pn - d) pn))
                else (pl, pm, pn))
         in med3 cmp xs pl pm pn)
      else pm)"

text \<open>The two inner loops of the partition and the loop around them.  The state is the array,
  the pointers \<^verbatim>\<open>pa\<close>, \<^verbatim>\<open>pb\<close>, \<^verbatim>\<open>pc\<close>, \<^verbatim>\<open>pd\<close> and \<^verbatim>\<open>swap_cnt\<close>.\<close>

type_synonym 'a part = "'a list \<times> nat \<times> nat \<times> nat \<times> nat \<times> bool"

function scan_up :: "('a \<Rightarrow> 'a \<Rightarrow> int) \<Rightarrow> nat \<Rightarrow> 'a list \<Rightarrow> nat \<Rightarrow> nat \<Rightarrow> nat \<Rightarrow> bool \<Rightarrow> 'a list \<times> nat \<times> nat \<times> bool" where
  "scan_up cmp a xs pa pb pc sw =
     (if pb \<le> pc \<and> cmp (xs ! pb) (xs ! a) \<le> 0 then
        (if cmp (xs ! pb) (xs ! a) = 0 then scan_up cmp a (swap pa pb xs) (Suc pa) (Suc pb) pc True
         else scan_up cmp a xs pa (Suc pb) pc sw)
      else (xs, pa, pb, sw))"
  by pat_completeness auto
termination by (relation "measure (\<lambda>(_, _, _, _, pb, pc, _). Suc pc - pb)") auto

text \<open>\<^verbatim>\<open>pc\<close> never falls below \<^verbatim>\<open>a\<close>, since \<^verbatim>\<open>pb\<close> starts above it.\<close>

fun scan_down :: "('a \<Rightarrow> 'a \<Rightarrow> int) \<Rightarrow> nat \<Rightarrow> 'a list \<Rightarrow> nat \<Rightarrow> nat \<Rightarrow> nat \<Rightarrow> bool \<Rightarrow> 'a list \<times> nat \<times> nat \<times> bool" where
  "scan_down cmp a xs pb 0 pd sw = (xs, 0, pd, sw)"
| "scan_down cmp a xs pb (Suc pc) pd sw =
     (if pb \<le> Suc pc \<and> cmp (xs ! Suc pc) (xs ! a) \<ge> 0 then
        (if cmp (xs ! Suc pc) (xs ! a) = 0 then scan_down cmp a (swap (Suc pc) pd xs) pb pc (pd - 1) True
         else scan_down cmp a xs pb pc pd sw)
      else (xs, Suc pc, pd, sw))"

partial_function (option) qpartition ::
  "('a \<Rightarrow> 'a \<Rightarrow> int) \<Rightarrow> nat \<Rightarrow> 'a list \<Rightarrow> nat \<Rightarrow> nat \<Rightarrow> nat \<Rightarrow> nat \<Rightarrow> bool \<Rightarrow> 'a part option" where
  "qpartition cmp a xs pa pb pc pd sw =
     (let (xs, pa, pb, sw) = scan_up cmp a xs pa pb pc sw;
          (xs, pc, pd, sw) = scan_down cmp a xs pb pc pd sw
      in if pb > pc then Some (xs, pa, pb, pc, pd, sw)
         else qpartition cmp a (swap pb pc xs) pa (Suc pb) (pc - 1) pd True)"

partial_function (option) qsort :: "('a \<Rightarrow> 'a \<Rightarrow> int) \<Rightarrow> nat \<Rightarrow> nat \<Rightarrow> 'a list \<Rightarrow> 'a list option" where
  "qsort cmp a n xs =
     (if n < 7 then Some (insertion_sort cmp a (a + n) (Suc a) xs)
      else
        (case qpartition cmp a (swap a (pivot cmp a n xs) xs) (Suc a) (Suc a) (a + (n - 1)) (a + (n - 1)) False of
           None \<Rightarrow> None
         | Some (xs, pa, pb, pc, pd, sw) \<Rightarrow>
             if \<not> sw then Some (insertion_sort cmp a (a + n) (Suc a) xs)
             else
               (let pn = a + n;
                    r = min (pa - a) (pb - pa);
                    xs = vecswap a (pb - r) r xs;
                    r = min (pd - pc) (pn - pd - 1);
                    xs = vecswap pb (pn - r) r xs
                in Option.bind (if pb - pa > 1 then qsort cmp a (pb - pa) xs else Some xs)
                     (\<lambda>xs. if pd - pc > 1 then qsort cmp (pn - (pd - pc)) (pd - pc) xs else Some xs))))"

section \<open>Rearrangements of a segment\<close>

definition perm_seg :: "nat \<Rightarrow> nat \<Rightarrow> 'a list \<Rightarrow> 'a list \<Rightarrow> bool" where
  "perm_seg a b xs ys \<longleftrightarrow> length ys = length xs \<and> take a ys = take a xs \<and> drop b ys = drop b xs \<and> mset ys = mset xs"

lemma perm_seg_refl: "perm_seg a b xs xs"
  by (simp add: perm_seg_def)

lemma perm_seg_trans: "perm_seg a b xs ys \<Longrightarrow> perm_seg a b ys zs \<Longrightarrow> perm_seg a b xs zs"
  by (simp add: perm_seg_def)

lemma perm_seg_length: "perm_seg a b xs ys \<Longrightarrow> length ys = length xs"
  by (simp add: perm_seg_def)

lemma perm_seg_wider: "perm_seg a b xs ys \<Longrightarrow> a' \<le> a \<Longrightarrow> b \<le> b' \<Longrightarrow> perm_seg a' b' xs ys"
  unfolding perm_seg_def
  by (metis drop_drop le_add_diff_inverse2 min.absorb1 take_take)

lemma perm_seg_nth: "perm_seg a b xs ys \<Longrightarrow> i < a \<or> b \<le> i \<Longrightarrow> i < length xs \<Longrightarrow> ys ! i = xs ! i"
proof -
  assume p: "perm_seg a b xs ys" and i: "i < a \<or> b \<le> i" and l: "i < length xs"
  show "ys ! i = xs ! i"
  proof (cases "i < a")
    case True
    then show ?thesis using p by (metis nth_take perm_seg_def)
  next
    case False
    have "drop b ys ! (i - b) = drop b xs ! (i - b)" using p by (simp only: perm_seg_def)
    then show ?thesis using False i l p by (simp add: perm_seg_length)
  qed
qed

lemma perm_seg_mset:
  assumes p: "perm_seg a b xs ys" and ab: "a \<le> b" "b \<le> length xs"
  shows "mset (take (b - a) (drop a ys)) = mset (take (b - a) (drop a xs))"
proof -
  have s: "zs = take a zs @ take (b - a) (drop a zs) @ drop b zs" for zs :: "'a list"
    using ab(1) by (metis append_take_drop_id drop_drop le_add_diff_inverse2)
  have "mset (take a ys) + mset (take (b - a) (drop a ys)) + mset (drop b ys) =
    mset (take a xs) + mset (take (b - a) (drop a xs)) + mset (drop b xs)"
    using p s [of ys] s [of xs] unfolding perm_seg_def by (metis mset_append union_assoc)
  then show ?thesis using p by (simp add: perm_seg_def)
qed

lemma perm_seg_all:
  assumes p: "perm_seg a b xs ys" and b: "b \<le> length xs"
    and all: "\<forall>i. a \<le> i \<and> i < b \<longrightarrow> P (xs ! i)" and i: "a \<le> i" "i < b"
  shows "P (ys ! i)"
proof -
  have "a \<le> b" using i by simp
  then have m: "set (take (b - a) (drop a ys)) = set (take (b - a) (drop a xs))"
    using perm_seg_mset [OF p _ b] by (metis mset_eq_setD)
  have l: "length ys = length xs" using p by (rule perm_seg_length)
  then have "ys ! i = take (b - a) (drop a ys) ! (i - a)" using i b by simp
  moreover have "i - a < length (take (b - a) (drop a ys))" using i b l by simp
  ultimately have "ys ! i \<in> set (take (b - a) (drop a xs))" using m nth_mem by metis
  then obtain k where "k < length (take (b - a) (drop a xs))" "ys ! i = take (b - a) (drop a xs) ! k"
    by (metis in_set_conv_nth)
  then have "a + k < b" "ys ! i = xs ! (a + k)" using b by simp_all
  then show ?thesis using all by simp
qed

lemma swap_nth: "i < length xs \<Longrightarrow> j < length xs \<Longrightarrow> k < length xs \<Longrightarrow>
    swap i j xs ! k = (if k = j then xs ! i else if k = i then xs ! j else xs ! k)"
  by (auto simp: swap_def nth_list_update)

lemma swap_length [simp]: "length (swap i j xs) = length xs"
  by (simp add: swap_def)

lemma swap_perm: "a \<le> i \<Longrightarrow> i < b \<Longrightarrow> a \<le> j \<Longrightarrow> j < b \<Longrightarrow> b \<le> length xs \<Longrightarrow> perm_seg a b xs (swap i j xs)"
  unfolding perm_seg_def swap_def by (auto simp: mset_swap)

lemma vecswap_perm:
  "a \<le> i \<Longrightarrow> i + r \<le> b \<Longrightarrow> a \<le> j \<Longrightarrow> j + r \<le> b \<Longrightarrow> b \<le> length xs \<Longrightarrow> perm_seg a b xs (vecswap i j r xs)"
proof (induction i j r xs rule: vecswap.induct)
  case (2 i j r xs)
  then show ?case
    using perm_seg_trans [OF swap_perm [of a i b j xs]] by simp
qed (simp add: perm_seg_refl)

lemma vecswap_nth:
  "i + r \<le> j \<Longrightarrow> j + r \<le> length xs \<Longrightarrow> k < length xs \<Longrightarrow>
   vecswap i j r xs ! k =
     (if i \<le> k \<and> k < i + r then xs ! (j + (k - i)) else if j \<le> k \<and> k < j + r then xs ! (i + (k - j)) else xs ! k)"
proof (induction i j r xs rule: vecswap.induct)
  case (2 i j r xs)
  have "vecswap i j (Suc r) xs ! k = vecswap (Suc i) (Suc j) r (swap i j xs) ! k" by simp
  also have "\<dots> = (if Suc i \<le> k \<and> k < Suc i + r then swap i j xs ! (Suc j + (k - Suc i))
      else if Suc j \<le> k \<and> k < Suc j + r then swap i j xs ! (Suc i + (k - Suc j)) else swap i j xs ! k)"
    using "2.prems" by (intro "2.IH") auto
  also have "\<dots> = (if i \<le> k \<and> k < i + Suc r then xs ! (j + (k - i))
      else if j \<le> k \<and> k < j + Suc r then xs ! (i + (k - j)) else xs ! k)"
    using "2.prems" by (auto simp: swap_nth not_less_eq_eq le_Suc_eq intro!: arg_cong [of _ _ "nth xs"])
  finally show ?case .
qed auto

lemma vecswap_length [simp]: "length (vecswap i j r xs) = length xs"
  by (induction i j r xs rule: vecswap.induct) simp_all

section \<open>The insertion sort\<close>

text \<open>What the routine relies on: the comparison function is that of a total order on keys.\<close>

definition cmp_order :: "('a \<Rightarrow> 'a \<Rightarrow> int) \<Rightarrow> bool" where
  "cmp_order cmp \<longleftrightarrow> (\<forall>x y. cmp x y \<le> 0 \<longleftrightarrow> 0 \<le> cmp y x) \<and>
     (\<forall>x y z. cmp x y \<le> 0 \<longrightarrow> cmp y z \<le> 0 \<longrightarrow> cmp x z \<le> 0)"

definition sorted_seg :: "('a \<Rightarrow> 'a \<Rightarrow> int) \<Rightarrow> nat \<Rightarrow> nat \<Rightarrow> 'a list \<Rightarrow> bool" where
  "sorted_seg cmp a b xs \<longleftrightarrow> (\<forall>i j. a \<le> i \<and> i < j \<and> j < b \<longrightarrow> cmp (xs ! i) (xs ! j) \<le> 0)"

lemma cmp_swap: "cmp_order cmp \<Longrightarrow> cmp x y \<le> 0 \<longleftrightarrow> 0 \<le> cmp y x"
  by (simp add: cmp_order_def)

lemma cmp_trans: "cmp_order cmp \<Longrightarrow> cmp x y \<le> 0 \<Longrightarrow> cmp y z \<le> 0 \<Longrightarrow> cmp x z \<le> 0"
  unfolding cmp_order_def by blast

lemma sift_down_perm: "pm < b \<Longrightarrow> b \<le> length xs \<Longrightarrow> perm_seg a b xs (sift_down cmp a pm xs)"
proof (induction cmp a pm xs rule: sift_down.induct)
  case (2 cmp a pl xs)
  then show ?case
    using perm_seg_trans [OF swap_perm [of a "Suc pl" b pl xs]] by (auto simp: perm_seg_refl)
qed (simp add: perm_seg_refl)

lemma sift_down_sorted:
  assumes "cmp_order cmp" "a \<le> pl" "pl \<le> pm" "pm < length xs"
    and "\<forall>i j. a \<le> i \<and> i < j \<and> j \<le> pm \<and> j \<noteq> pl \<longrightarrow> cmp (xs ! i) (xs ! j) \<le> 0"
  shows "sorted_seg cmp a (Suc pm) (sift_down cmp a pl xs)"
  using assms
proof (induction cmp a pl xs rule: sift_down.induct)
  case (1 cmp a xs)
  then show ?case by (auto simp: sorted_seg_def)
next
  case (2 cmp a pl xs)
  note o = "2.prems"(1) and inv = "2.prems"(5)
  show ?case
  proof (cases "a < Suc pl \<and> cmp (xs ! pl) (xs ! Suc pl) > 0")
    case True
    have le: "cmp (xs ! Suc pl) (xs ! pl) \<le> 0" using True cmp_swap [OF o] by (meson less_imp_le)
    have "\<forall>i j. a \<le> i \<and> i < j \<and> j \<le> pm \<and> j \<noteq> pl \<longrightarrow> cmp (swap (Suc pl) pl xs ! i) (swap (Suc pl) pl xs ! j) \<le> 0"
    proof (intro allI impI)
      fix i j assume ij: "a \<le> i \<and> i < j \<and> j \<le> pm \<and> j \<noteq> pl"
      have n: "swap (Suc pl) pl xs ! k = (if k = pl then xs ! Suc pl else if k = Suc pl then xs ! pl else xs ! k)"
        if "k \<le> pm" for k
        using that "2.prems"(3,4) by (intro swap_nth) simp_all
      consider "j = Suc pl" "i = pl" | "j = Suc pl" "i < pl" | "j > Suc pl" | "j < pl"
        using ij by linarith
      then show "cmp (swap (Suc pl) pl xs ! i) (swap (Suc pl) pl xs ! j) \<le> 0"
        using True ij n [of i] n [of j] le inv "2.prems"(3) by cases auto
    qed
    then show ?thesis using True "2.IH" [OF True o] "2.prems" by simp
  next
    case False
    then have f: "a = Suc pl \<or> cmp (xs ! pl) (xs ! Suc pl) \<le> 0" using "2.prems"(2) by auto
    have "cmp (xs ! i) (xs ! j) \<le> 0" if ij: "a \<le> i" "i < j" "j \<le> pm" for i j
    proof (cases "j = Suc pl")
      case True
      then have p: "cmp (xs ! pl) (xs ! Suc pl) \<le> 0" using f ij by auto
      show ?thesis
      proof (cases "i = pl")
        case False
        then have "cmp (xs ! i) (xs ! pl) \<le> 0" using inv ij True "2.prems"(3) by auto
        then show ?thesis using p True cmp_trans [OF o] by blast
      qed (use True p in simp)
    qed (use inv ij in auto)
    then have "sorted_seg cmp a (Suc pm) xs" by (simp add: sorted_seg_def less_Suc_eq_le)
    then show ?thesis using False by (simp only: sift_down.simps if_False)
  qed
qed

lemma insertion_sort_perm:
  "b \<le> length xs \<Longrightarrow> perm_seg a b xs (insertion_sort cmp a b pm xs)"
proof (induction cmp a b pm xs rule: insertion_sort.induct)
  case (1 cmp a b pm xs)
  show ?case
  proof (cases "pm < b")
    case True
    have "perm_seg a b xs (sift_down cmp a pm xs)" using True "1.prems" by (rule sift_down_perm)
    then show ?thesis using "1.IH" [OF True] "1.prems" True perm_seg_trans perm_seg_length
      by (metis insertion_sort.simps)
  qed (simp add: perm_seg_refl)
qed

lemma insertion_sort_sorted:
  assumes "cmp_order cmp" "b \<le> length xs" "a \<le> pm" "sorted_seg cmp a pm xs"
  shows "sorted_seg cmp a b (insertion_sort cmp a b pm xs)"
  using assms
proof (induction cmp a b pm xs rule: insertion_sort.induct)
  case (1 cmp a b pm xs)
  show ?case
  proof (cases "pm < b")
    case True
    have "sorted_seg cmp a (Suc pm) (sift_down cmp a pm xs)"
      using 1 True by (intro sift_down_sorted) (auto simp: sorted_seg_def)
    moreover have "length (sift_down cmp a pm xs) = length xs"
      using sift_down_perm [of pm b xs a cmp] True "1.prems"(2) perm_seg_length by blast
    ultimately have "sorted_seg cmp a b (insertion_sort cmp a b (Suc pm) (sift_down cmp a pm xs))"
      using "1.prems" by (intro "1.IH" [OF True]) simp_all
    then show ?thesis using True by (subst insertion_sort.simps) (simp only: if_True)
  next
    case False
    then have "insertion_sort cmp a b pm xs = xs" by simp
    then show ?thesis using "1.prems"(4) False by (simp add: sorted_seg_def)
  qed
qed

section \<open>The partition\<close>

text \<open>The state of the partition of the segment from \<open>a\<close> to \<open>b\<close>: elements equal to the pivot
  on both ends, then the smaller and the greater ones, and in between those not yet seen.\<close>

definition part_inv :: "('a \<Rightarrow> 'a \<Rightarrow> int) \<Rightarrow> nat \<Rightarrow> nat \<Rightarrow> 'a list \<Rightarrow> nat \<Rightarrow> nat \<Rightarrow> nat \<Rightarrow> nat \<Rightarrow> bool" where
  "part_inv cmp a b xs pa pb pc pd \<longleftrightarrow>
     a < pa \<and> pa \<le> pb \<and> pb \<le> Suc pc \<and> pc \<le> pd \<and> pd < b \<and> b \<le> length xs \<and>
     (\<forall>i. a < i \<and> i < pa \<longrightarrow> cmp (xs ! i) (xs ! a) = 0) \<and>
     (\<forall>i. pa \<le> i \<and> i < pb \<longrightarrow> cmp (xs ! i) (xs ! a) < 0) \<and>
     (\<forall>i. pc < i \<and> i \<le> pd \<longrightarrow> cmp (xs ! i) (xs ! a) > 0) \<and>
     (\<forall>i. pd < i \<and> i < b \<longrightarrow> cmp (xs ! i) (xs ! a) = 0)"

lemma part_inv_swap_nth:
  assumes "part_inv cmp a b xs pa pb pc pd" "k < b" "i < b" "j < b"
  shows "swap i j xs ! k = (if k = j then xs ! i else if k = i then xs ! j else xs ! k)"
  using assms by (intro swap_nth) (auto simp: part_inv_def)

lemma scan_up_inv:
  assumes "part_inv cmp a b xs pa pb pc pd"
    and "scan_up cmp a xs pa pb pc sw = (xs', pa', pb', sw')"
  shows "part_inv cmp a b xs' pa' pb' pc pd \<and> perm_seg a b xs xs' \<and> pb \<le> pb' \<and>
    (pb' \<le> pc \<longrightarrow> cmp (xs' ! pb') (xs' ! a) > 0)"
  using assms
proof (induction cmp a xs pa pb pc sw rule: scan_up.induct)
  case (1 cmp a xs pa pb pc sw)
  note inv = "1.prems"(1)
  consider (eq) "pb \<le> pc" "cmp (xs ! pb) (xs ! a) = 0" | (less) "pb \<le> pc" "cmp (xs ! pb) (xs ! a) < 0"
    | (stop) "\<not> (pb \<le> pc \<and> cmp (xs ! pb) (xs ! a) \<le> 0)" by linarith
  then show ?case
  proof cases
    case eq
    have b: "a < pa" "pa \<le> pb" "pa < b" "pb < b" "a < b" "b \<le> length xs" using inv eq by (auto simp: part_inv_def)
    have "part_inv cmp a b (swap pa pb xs) (Suc pa) (Suc pb) pc pd"
      using inv eq b unfolding part_inv_def by (auto simp: swap_nth less_Suc_eq)
    moreover have "perm_seg a b xs (swap pa pb xs)" using b by (intro swap_perm) auto
    moreover have "scan_up cmp a (swap pa pb xs) (Suc pa) (Suc pb) pc True = (xs', pa', pb', sw')"
      using "1.prems"(2) eq by simp
    ultimately show ?thesis using "1.IH"(1) eq perm_seg_trans by (metis Suc_leD order.refl)
  next
    case less
    then have "part_inv cmp a b xs pa (Suc pb) pc pd" using inv by (auto simp: part_inv_def less_Suc_eq)
    moreover have "scan_up cmp a xs pa (Suc pb) pc sw = (xs', pa', pb', sw')" using "1.prems"(2) less by simp
    ultimately show ?thesis using "1.IH"(2) less by (metis Suc_leD less_imp_le order_less_irrefl)
  next
    case stop
    then have "xs' = xs" "pa' = pa" "pb' = pb" using "1.prems"(2) by (simp_all add: split: if_splits)
    then show ?thesis using inv stop by (auto simp: perm_seg_refl)
  qed
qed

lemma scan_down_inv:
  assumes "part_inv cmp a b xs pa pb pc pd"
    and "scan_down cmp a xs pb pc pd sw = (xs', pc', pd', sw')"
  shows "part_inv cmp a b xs' pa pb pc' pd' \<and> perm_seg a b xs xs' \<and> pc' \<le> pc \<and>
    (pb \<le> pc' \<longrightarrow> cmp (xs' ! pc') (xs' ! a) < 0) \<and> (\<forall>i. i \<le> pc' \<longrightarrow> xs' ! i = xs ! i)"
  using assms
proof (induction cmp a xs pb pc pd sw rule: scan_down.induct)
  case (1 cmp a xs pb pd sw)
  then show ?case by (auto simp: perm_seg_refl part_inv_def)
next
  case (2 cmp a xs pb pc pd sw)
  note inv = "2.prems"(1)
  consider (eq) "pb \<le> Suc pc" "cmp (xs ! Suc pc) (xs ! a) = 0" | (gr) "pb \<le> Suc pc" "cmp (xs ! Suc pc) (xs ! a) > 0"
    | (stop) "\<not> (pb \<le> Suc pc \<and> cmp (xs ! Suc pc) (xs ! a) \<ge> 0)" by linarith
  then show ?case
  proof cases
    case eq
    have b: "a < pa" "Suc pc < b" "pd < b" "Suc pc \<le> pd" "a < Suc pc" "b \<le> length xs" "pa \<le> pb"
      using inv eq by (auto simp: part_inv_def)
    have n: "swap (Suc pc) pd xs ! k = (if k = pd then xs ! Suc pc else if k = Suc pc then xs ! pd else xs ! k)"
      if "k < b" for k
      using b that by (intro swap_nth) auto
    have "part_inv cmp a b (swap (Suc pc) pd xs) pa pb pc (pd - 1)"
      using inv eq b n [of a] unfolding part_inv_def by (auto simp: n)
    moreover have "perm_seg a b xs (swap (Suc pc) pd xs)" using b by (intro swap_perm) auto
    moreover have "scan_down cmp a (swap (Suc pc) pd xs) pb pc (pd - 1) True = (xs', pc', pd', sw')"
      using "2.prems"(2) eq by simp
    ultimately show ?thesis
      using "2.IH"(1) eq perm_seg_trans [of a b xs] n b by fastforce
  next
    case gr
    have "\<forall>i. pc < i \<and> i \<le> pd \<longrightarrow> cmp (xs ! i) (xs ! a) > 0"
      using inv gr unfolding part_inv_def by (metis Suc_lessI)
    then have "part_inv cmp a b xs pa pb pc pd" using inv gr by (auto simp: part_inv_def)
    moreover have "scan_down cmp a xs pb pc pd sw = (xs', pc', pd', sw')" using "2.prems"(2) gr by simp
    ultimately show ?thesis using "2.IH"(2) gr by fastforce
  next
    case stop
    then have "xs' = xs" "pc' = Suc pc" "pd' = pd" using "2.prems"(2) by (simp_all split: if_splits)
    then show ?thesis using inv stop by (auto simp: perm_seg_refl)
  qed
qed

lemma partition_inv:
  assumes "part_inv cmp a b xs pa pb pc pd"
  shows "\<exists>xs' pa' pb' pc' pd' sw'. qpartition cmp a xs pa pb pc pd sw = Some (xs', pa', pb', pc', pd', sw') \<and>
    part_inv cmp a b xs' pa' pb' pc' pd' \<and> pb' = Suc pc' \<and> perm_seg a b xs xs'"
  using assms
proof (induction "Suc pc - pb" arbitrary: xs pa pb pc pd sw rule: less_induct)
  case less
  obtain xs1 pa1 pb1 sw1 where u: "scan_up cmp a xs pa pb pc sw = (xs1, pa1, pb1, sw1)" by (metis prod_cases4)
  obtain xs2 pc2 pd2 sw2 where d: "scan_down cmp a xs1 pb1 pc pd sw1 = (xs2, pc2, pd2, sw2)" by (metis prod_cases4)
  have i1: "part_inv cmp a b xs1 pa1 pb1 pc pd" "perm_seg a b xs xs1" "pb \<le> pb1"
    "pb1 \<le> pc \<Longrightarrow> cmp (xs1 ! pb1) (xs1 ! a) > 0"
    using scan_up_inv [OF less.prems u] by auto
  have i2: "part_inv cmp a b xs2 pa1 pb1 pc2 pd2" "perm_seg a b xs1 xs2" "pc2 \<le> pc"
    "pb1 \<le> pc2 \<Longrightarrow> cmp (xs2 ! pc2) (xs2 ! a) < 0" "\<And>i. i \<le> pc2 \<Longrightarrow> xs2 ! i = xs1 ! i"
    using scan_down_inv [OF i1(1) d] by auto
  have p: "perm_seg a b xs xs2" using i1(2) i2(2) by (rule perm_seg_trans)
  note unf = qpartition.simps [of cmp a xs pa pb pc pd sw]
  show ?case
  proof (cases "pb1 > pc2")
    case True
    then have "qpartition cmp a xs pa pb pc pd sw = Some (xs2, pa1, pb1, pc2, pd2, sw2)"
      using u d by (simp add: unf)
    moreover have "pb1 = Suc pc2" using True i2(1) by (simp add: part_inv_def)
    ultimately show ?thesis using i2(1) p by simp
  next
    case False
    have b: "a < pa1" "pa1 \<le> pb1" "pb1 < b" "pc2 < b" "b \<le> length xs2" "pc2 \<le> pd2" "a < b"
      using i2(1) False by (auto simp: part_inv_def)
    have c: "cmp (xs2 ! pb1) (xs2 ! a) > 0" "cmp (xs2 ! pc2) (xs2 ! a) < 0" "pb1 \<noteq> pc2"
      using i1(4) i2 False b by auto
    have n: "swap pb1 pc2 xs2 ! k = (if k = pc2 then xs2 ! pb1 else if k = pb1 then xs2 ! pc2 else xs2 ! k)"
      if "k < b" for k
      using b that by (intro swap_nth) auto
    have inv: "part_inv cmp a b (swap pb1 pc2 xs2) pa1 (Suc pb1) (pc2 - 1) pd2"
      using i2(1) False b c n [of a] unfolding part_inv_def by (auto simp: n less_Suc_eq)
    have step: "qpartition cmp a xs pa pb pc pd sw = qpartition cmp a (swap pb1 pc2 xs2) pa1 (Suc pb1) (pc2 - 1) pd2 True"
      using u d False by (simp add: unf)
    have "perm_seg a b xs (swap pb1 pc2 xs2)"
      using p b False by (intro perm_seg_trans [OF p] swap_perm) auto
    moreover have "Suc (pc2 - 1) - Suc pb1 < Suc pc - pb" using i1(3) i2(3) False c(3) by simp
    ultimately show ?thesis using less.hyps [OF _ inv, of True] step perm_seg_trans by metis
  qed
qed

section \<open>The whole routine\<close>

definition three_way :: "('a \<Rightarrow> 'a \<Rightarrow> int) \<Rightarrow> 'a \<Rightarrow> nat \<Rightarrow> nat \<Rightarrow> nat \<Rightarrow> nat \<Rightarrow> 'a list \<Rightarrow> bool" where
  "three_way cmp v a m1 m2 b xs \<longleftrightarrow> a \<le> m1 \<and> m1 \<le> m2 \<and> m2 \<le> b \<and>
     (\<forall>i. a \<le> i \<and> i < m1 \<longrightarrow> cmp (xs ! i) v < 0) \<and>
     (\<forall>i. m1 \<le> i \<and> i < m2 \<longrightarrow> cmp (xs ! i) v = 0) \<and>
     (\<forall>i. m2 \<le> i \<and> i < b \<longrightarrow> cmp (xs ! i) v > 0)"

lemma vecswap_left:
  assumes inv: "part_inv cmp a b xs pa pb pc pd" and v: "cmp (xs ! a) (xs ! a) = 0"
    and r: "r = min (pa - a) (pb - pa)" and ys: "ys = vecswap a (pb - r) r xs"
  shows "(\<forall>i. a \<le> i \<and> i < a + (pb - pa) \<longrightarrow> cmp (ys ! i) (xs ! a) < 0) \<and>
    (\<forall>i. a + (pb - pa) \<le> i \<and> i < pb \<longrightarrow> cmp (ys ! i) (xs ! a) = 0)"
proof -
  have b: "a < pa" "pa \<le> pb" "pb \<le> length xs" using inv by (auto simp: part_inv_def)
  have n: "ys ! k = (if a \<le> k \<and> k < a + r then xs ! (pb - r + (k - a))
      else if pb - r \<le> k \<and> k < pb then xs ! (a + (k - (pb - r))) else xs ! k)" if "k < pb" for k
  proof -
    have "r \<le> pa - a" "r \<le> pb - pa" using r by simp_all
    then have "a + r \<le> pb - r" "pb - r + r = pb" using b by linarith+
    then show ?thesis unfolding ys using vecswap_nth [of a r "pb - r" xs k] b that by simp
  qed
  have eq: "cmp (xs ! i) (xs ! a) = 0" if "a \<le> i" "i < pa" for i
    using inv that v by (cases "i = a") (auto simp: part_inv_def)
  have less: "cmp (xs ! i) (xs ! a) < 0" if "pa \<le> i" "i < pb" for i
    using inv that by (auto simp: part_inv_def)
  have rr: "r \<le> pa - a" "r \<le> pb - pa" "r = pa - a \<or> r = pb - pa" using r by (auto simp: min_def)
  have "cmp (ys ! i) (xs ! a) < 0" if i: "a \<le> i" "i < a + (pb - pa)" for i
  proof (cases "i < a + r")
    case True
    then have "pa \<le> pb - r + (i - a)" "pb - r + (i - a) < pb" "i < pb" using rr b i by linarith+
    then show ?thesis using n [of i] True i(1) less by simp
  next
    case False
    then have "r = pa - a" "pa \<le> i" "i < pb - r" "i < pb" using rr b i by linarith+
    then show ?thesis using n [of i] False less [of i] by simp
  qed
  moreover have "cmp (ys ! i) (xs ! a) = 0" if i: "a + (pb - pa) \<le> i" "i < pb" for i
  proof (cases "pb - r \<le> i")
    case True
    then have "a \<le> a + (i - (pb - r))" "a + (i - (pb - r)) < pa" "\<not> i < a + r" using rr b i by linarith+
    then show ?thesis using n [of i] True i(2) eq by simp
  next
    case False
    then have "i < pa" "a \<le> i" "\<not> i < a + r" using rr b i by linarith+
    then show ?thesis using n [of i] False i(2) eq [of i] by simp
  qed
  ultimately show ?thesis by blast
qed

lemma vecswap_right:
  assumes inv: "part_inv cmp a b xs pa (Suc pc) pc pd"
    and r: "r = min (pd - pc) (b - pd - 1)"
    and ys: "length ys = length xs" "\<forall>i. pc < i \<and> i < b \<longrightarrow> ys ! i = xs ! i"
    and zs: "zs = vecswap (Suc pc) (b - r) r ys"
  shows "(\<forall>i. Suc pc \<le> i \<and> i < b - (pd - pc) \<longrightarrow> cmp (zs ! i) (xs ! a) = 0) \<and>
    (\<forall>i. b - (pd - pc) \<le> i \<and> i < b \<longrightarrow> cmp (zs ! i) (xs ! a) > 0)"
proof -
  have b: "pc \<le> pd" "pd < b" "b \<le> length ys" using inv ys by (auto simp: part_inv_def)
  have n: "zs ! k = (if Suc pc \<le> k \<and> k < Suc pc + r then ys ! (b - r + (k - Suc pc))
      else if b - r \<le> k \<and> k < b then ys ! (Suc pc + (k - (b - r))) else ys ! k)" if "k < b" for k
  proof -
    have "r \<le> pd - pc" "r \<le> b - pd - 1" using r by simp_all
    then have "Suc pc + r \<le> b - r" "b - r + r = b" using b by linarith+
    then show ?thesis unfolding zs using vecswap_nth [of "Suc pc" r "b - r" ys k] b that by simp
  qed
  have eq: "cmp (ys ! i) (xs ! a) = 0" if "pd < i" "i < b" for i
    using inv that ys b by (auto simp: part_inv_def)
  have gr: "cmp (ys ! i) (xs ! a) > 0" if "pc < i" "i \<le> pd" for i
    using inv that ys b by (auto simp: part_inv_def)
  have rr: "r \<le> pd - pc" "r \<le> b - pd - 1" "r = pd - pc \<or> r = b - pd - 1" using r by (auto simp: min_def)
  have "cmp (zs ! i) (xs ! a) = 0" if i: "Suc pc \<le> i" "i < b - (pd - pc)" for i
  proof (cases "i < Suc pc + r")
    case True
    then have "pd < b - r + (i - Suc pc)" "b - r + (i - Suc pc) < b" "i < b" using rr b i by linarith+
    then show ?thesis using n [of i] True i(1) eq by simp
  next
    case False
    then have "pd < i" "i < b - r" "i < b" using rr b i by linarith+
    then show ?thesis using n [of i] False eq [of i] by simp
  qed
  moreover have "cmp (zs ! i) (xs ! a) > 0" if i: "b - (pd - pc) \<le> i" "i < b" for i
  proof (cases "b - r \<le> i")
    case True
    then have "pc < Suc pc + (i - (b - r))" "Suc pc + (i - (b - r)) \<le> pd" "\<not> i < Suc pc + r" using rr b i by linarith+
    then show ?thesis using n [of i] True i(2) gr by simp
  next
    case False
    then have "i \<le> pd" "pc < i" "\<not> i < Suc pc + r" using rr b i by linarith+
    then show ?thesis using n [of i] False i(2) gr [of i] by simp
  qed
  ultimately show ?thesis by blast
qed

lemma partition_three_way:
  assumes inv: "part_inv cmp a b xs pa pb pc pd" and pb: "pb = Suc pc" and v: "cmp (xs ! a) (xs ! a) = 0"
    and ys: "ys = vecswap a (pb - min (pa - a) (pb - pa)) (min (pa - a) (pb - pa)) xs"
    and zs: "zs = vecswap pb (b - min (pd - pc) (b - pd - 1)) (min (pd - pc) (b - pd - 1)) ys"
  shows "three_way cmp (xs ! a) a (a + (pb - pa)) (b - (pd - pc)) b zs" "perm_seg a b xs zs"
proof -
  have b: "a < pa" "pa \<le> pb" "pb \<le> b" "b \<le> length xs" "pc \<le> pd" "pd < b" using inv pb by (auto simp: part_inv_def)
  have "pb - min (pa - a) (pb - pa) + min (pa - a) (pb - pa) = pb" "a + min (pa - a) (pb - pa) \<le> pb"
    "a \<le> pb - min (pa - a) (pb - pa)" using b by linarith+
  then have p1: "perm_seg a pb xs ys" unfolding ys using b by (intro vecswap_perm) linarith+
  have l: "length ys = length xs" using p1 by (rule perm_seg_length)
  have "b - min (pd - pc) (b - pd - 1) + min (pd - pc) (b - pd - 1) = b" "pb + min (pd - pc) (b - pd - 1) \<le> b"
    "pb \<le> b - min (pd - pc) (b - pd - 1)" using b pb by linarith+
  then have p2: "perm_seg pb b ys zs" unfolding zs using b l by (intro vecswap_perm) linarith+
  show "perm_seg a b xs zs"
    using perm_seg_trans [OF perm_seg_wider [OF p1, of a b] perm_seg_wider [OF p2, of a b]] b by simp
  have hi: "\<forall>i. pc < i \<and> i < b \<longrightarrow> ys ! i = xs ! i" using perm_seg_nth [OF p1] b pb by simp
  have lo: "zs ! i = ys ! i" if "i < pb" for i using perm_seg_nth [OF p2, of i] that b l by simp
  note left = vecswap_left [OF inv v refl ys] and right = vecswap_right [OF inv [unfolded pb] refl l hi zs [unfolded pb]]
  have "cmp (zs ! i) (xs ! a) = 0" if "a + (pb - pa) \<le> i" "i < b - (pd - pc)" for i
    using left right that lo [of i] pb by (cases "i < pb") auto
  then show "three_way cmp (xs ! a) a (a + (pb - pa)) (b - (pd - pc)) b zs"
    using left right lo b pb unfolding three_way_def by auto
qed

lemma three_way_sorted:
  assumes o: "cmp_order cmp" and t: "three_way cmp v a m1 m2 b xs"
    and s: "sorted_seg cmp a m1 xs" "sorted_seg cmp m2 b xs"
  shows "sorted_seg cmp a b xs"
  unfolding sorted_seg_def
proof (intro allI impI)
  fix i j assume ij: "a \<le> i \<and> i < j \<and> j < b"
  have z: "cmp (xs ! k) v < 0 \<and> k < m1 \<or> cmp (xs ! k) v = 0 \<and> m1 \<le> k \<and> k < m2 \<or> cmp (xs ! k) v > 0 \<and> m2 \<le> k"
    if "a \<le> k" "k < b" for k
    using t that unfolding three_way_def by (metis not_le)
  consider "j < m1" | "m2 \<le> i" | "cmp (xs ! i) v \<le> 0" "0 \<le> cmp (xs ! j) v"
    using z [of i] z [of j] ij by linarith
  then show "cmp (xs ! i) (xs ! j) \<le> 0"
  proof cases
    case 3
    then show ?thesis using cmp_swap [OF o] cmp_trans [OF o] by blast
  qed (use s ij in \<open>auto simp: sorted_seg_def\<close>)
qed

lemma three_way_perm:
  assumes t: "three_way cmp v a m1 m2 b xs" and p: "perm_seg c d xs ys" and b: "b \<le> length xs"
    and cd: "c = a \<and> d = m1 \<or> c = m2 \<and> d = b"
  shows "three_way cmp v a m1 m2 b ys"
proof -
  have in_seg: "P (ys ! i)" if "\<forall>i. c \<le> i \<and> i < d \<longrightarrow> P (xs ! i)" "c \<le> i" "i < d" for i P
    using perm_seg_all [OF p _ that] t cd b by (auto simp: three_way_def)
  have out: "ys ! i = xs ! i" if "i < c \<or> d \<le> i" "i < b" for i
    using perm_seg_nth [OF p that(1)] that(2) b by simp
  show ?thesis
    using cd
  proof
    assume c: "c = a \<and> d = m1"
    then have "cmp (ys ! i) v < 0" if "a \<le> i" "i < m1" for i
      using in_seg [of "\<lambda>x. cmp x v < 0"] t that by (auto simp: three_way_def)
    then show ?thesis using t out c unfolding three_way_def by auto
  next
    assume c: "c = m2 \<and> d = b"
    then have "cmp (ys ! i) v > 0" if "m2 \<le> i" "i < b" for i
      using in_seg [of "\<lambda>x. cmp x v > 0"] t that by (auto simp: three_way_def)
    then show ?thesis using t out c unfolding three_way_def by auto
  qed
qed

lemma sorted_seg_cong:
  "sorted_seg cmp a b xs \<Longrightarrow> \<forall>i. a \<le> i \<and> i < b \<longrightarrow> ys ! i = xs ! i \<Longrightarrow> sorted_seg cmp a b ys"
  by (auto simp: sorted_seg_def)

lemma med3_in: "med3 cmp xs a b c \<in> {a, b, c}"
  by (simp add: med3_def)

lemma pivot_in: "7 \<le> n \<Longrightarrow> a \<le> pivot cmp a n xs \<and> pivot cmp a n xs < a + n"
proof -
  assume n: "7 \<le> n"
  have d: "n div 8 * 8 \<le> n" "n div 2 * 2 \<le> n" "n div 8 * 2 \<le> n - 1" "n div 8 \<le> n div 2" "n div 2 + n div 8 < n"
    using n by linarith+
  have in3: "lo \<le> med3 cmp xs i j k \<and> med3 cmp xs i j k < hi"
    if "lo \<le> i" "i < hi" "lo \<le> j" "j < hi" "lo \<le> k" "k < hi" for i j k lo hi
    using med3_in [of cmp xs i j k] that by auto
  show ?thesis
  proof (cases "n > 7")
    case True
    define q where "q = n div 8"
    define h where "h = n div 2"
    have "a \<le> med3 cmp xs a (a + q) (a + 2 * q) \<and> med3 cmp xs a (a + q) (a + 2 * q) < a + n"
      using d n unfolding q_def by (intro in3) linarith+
    moreover have "a \<le> med3 cmp xs (a + h - q) (a + h) (a + h + q) \<and> med3 cmp xs (a + h - q) (a + h) (a + h + q) < a + n"
      using d n unfolding q_def h_def by (intro in3) linarith+
    moreover have "a \<le> med3 cmp xs (a + (n - 1) - 2 * q) (a + (n - 1) - q) (a + (n - 1)) \<and>
        med3 cmp xs (a + (n - 1) - 2 * q) (a + (n - 1) - q) (a + (n - 1)) < a + n"
      using d n unfolding q_def by (intro in3) linarith+
    ultimately have "a \<le> med3 cmp xs (med3 cmp xs a (a + q) (a + 2 * q)) (med3 cmp xs (a + h - q) (a + h) (a + h + q))
        (med3 cmp xs (a + (n - 1) - 2 * q) (a + (n - 1) - q) (a + (n - 1))) \<and>
      med3 cmp xs (med3 cmp xs a (a + q) (a + 2 * q)) (med3 cmp xs (a + h - q) (a + h) (a + h + q))
        (med3 cmp xs (a + (n - 1) - 2 * q) (a + (n - 1) - q) (a + (n - 1))) < a + n"
      by (intro in3) blast+
    moreover have "a \<le> med3 cmp xs a (a + h) (a + (n - 1)) \<and> med3 cmp xs a (a + h) (a + (n - 1)) < a + n"
      using d n unfolding h_def by (intro in3) linarith+
    ultimately show ?thesis
      using True unfolding pivot_def Let_def by (simp flip: q_def h_def)
  qed (use d n in \<open>auto simp: pivot_def\<close>)
qed

lemma qsort_sorts:
  assumes o: "cmp_order cmp" and b: "a + n \<le> length xs"
  shows "\<exists>ys. qsort cmp a n xs = Some ys \<and> sorted_seg cmp a (a + n) ys \<and> perm_seg a (a + n) xs ys"
  using b
proof (induction n arbitrary: a xs rule: less_induct)
  case (less n)
  note unf = qsort.simps [of cmp a n xs]
  have isort: "sorted_seg cmp a (a + n) (insertion_sort cmp a (a + n) (Suc a) ys)"
    "perm_seg a (a + n) ys (insertion_sort cmp a (a + n) (Suc a) ys)" if "length ys = length xs" for ys
    using less.prems that insertion_sort_sorted [OF o, of "a + n" ys a "Suc a"] insertion_sort_perm [of "a + n" ys a cmp]
    by (auto simp: sorted_seg_def simp del: insertion_sort.simps)
  show ?case
  proof (cases "n < 7")
    case True
    then show ?thesis using isort [of xs] by (simp add: unf del: insertion_sort.simps)
  next
    case False
    define xs0 where "xs0 = swap a (pivot cmp a n xs) xs"
    have p0: "perm_seg a (a + n) xs xs0"
      unfolding xs0_def using pivot_in [of n a cmp xs] False less.prems by (intro swap_perm) auto
    have "part_inv cmp a (a + n) xs0 (Suc a) (Suc a) (a + (n - 1)) (a + (n - 1))"
      using False less.prems perm_seg_length [OF p0] by (auto simp: part_inv_def)
    then obtain xs1 pa pb pc pd sw where
      part: "qpartition cmp a xs0 (Suc a) (Suc a) (a + (n - 1)) (a + (n - 1)) False = Some (xs1, pa, pb, pc, pd, sw)"
      and inv: "part_inv cmp a (a + n) xs1 pa pb pc pd" "pb = Suc pc" and p1: "perm_seg a (a + n) xs0 xs1"
      using partition_inv by metis
    have p01: "perm_seg a (a + n) xs xs1" using p0 p1 by (rule perm_seg_trans)
    show ?thesis
    proof (cases sw)
      case False
      then show ?thesis
        using \<open>\<not> n < 7\<close> part isort [of xs1] perm_seg_length [OF p01] perm_seg_trans [OF p01]
        by (simp add: unf flip: xs0_def del: insertion_sort.simps)
    next
      case True
      define ys where "ys = vecswap a (pb - min (pa - a) (pb - pa)) (min (pa - a) (pb - pa)) xs1"
      define zs where "zs = vecswap pb (a + n - min (pd - pc) (a + n - pd - 1)) (min (pd - pc) (a + n - pd - 1)) ys"
      let ?m1 = "a + (pb - pa)" and ?m2 = "a + n - (pd - pc)" and ?v = "xs1 ! a"
      have v: "cmp ?v ?v = 0" using cmp_swap [OF o, of ?v ?v] by linarith
      have tw: "three_way cmp ?v a ?m1 ?m2 (a + n) zs" and pz: "perm_seg a (a + n) xs1 zs"
        using partition_three_way [OF inv v ys_def zs_def] by auto
      have lz: "a + n \<le> length zs" using less.prems perm_seg_length [OF pz] perm_seg_length [OF p01] by simp
      have sm: "pb - pa < n" "pd - pc < n" "?m1 \<le> ?m2" "pd - pc \<le> a + n" using inv tw by (auto simp: part_inv_def three_way_def)
      obtain us where us: "(if pb - pa > 1 then qsort cmp a (pb - pa) zs else Some zs) = Some us"
        "sorted_seg cmp a ?m1 us" "perm_seg a ?m1 zs us"
      proof (cases "pb - pa > 1")
        case True
        have "?m1 \<le> length zs" using lz sm(1) by linarith
        then show thesis using True less.IH [OF sm(1), of a zs] that by auto
      qed (use that in \<open>auto simp: sorted_seg_def perm_seg_refl\<close>)
      have lu: "length us = length zs" using us(3) by (rule perm_seg_length)
      have tu: "three_way cmp ?v a ?m1 ?m2 (a + n) us" using three_way_perm [OF tw us(3) lz] by simp
      have e2: "?m2 + (pd - pc) = a + n" using sm by simp
      obtain ws where ws: "(if pd - pc > 1 then qsort cmp ?m2 (pd - pc) us else Some us) = Some ws"
        "sorted_seg cmp ?m2 (a + n) ws" "perm_seg ?m2 (a + n) us ws"
      proof (cases "pd - pc > 1")
        case True
        then show thesis using less.IH [OF sm(2), of ?m2 us] lz lu e2 that by auto
      next
        case False
        then have "sorted_seg cmp ?m2 (a + n) us" using e2 unfolding sorted_seg_def by (intro allI impI) linarith
        then show thesis using False that by (simp add: perm_seg_refl)
      qed
      have "sorted_seg cmp a ?m1 ws"
        using sorted_seg_cong [OF us(2)] perm_seg_nth [OF ws(3)] sm lz lu by simp
      moreover have "three_way cmp ?v a ?m1 ?m2 (a + n) ws" using three_way_perm [OF tu ws(3)] lz lu by simp
      ultimately have "sorted_seg cmp a (a + n) ws" using three_way_sorted [OF o] ws(2) by blast
      moreover have "perm_seg a (a + n) xs ws"
      proof -
        have "perm_seg a (a + n) zs us" "perm_seg a (a + n) us ws"
          using perm_seg_wider [OF us(3), of a "a + n"] perm_seg_wider [OF ws(3), of a "a + n"] sm by simp_all
        then show ?thesis using p01 pz perm_seg_trans by metis
      qed
      moreover have "qsort cmp a n xs = Some ws"
        using \<open>\<not> n < 7\<close> True
        by (simp only: unf Let_def xs0_def [symmetric] part option.case prod.case if_False if_True not_True_eq_False
            ys_def [symmetric] zs_def [symmetric] us(1) ws(1) bind.bind_lunit)
      ultimately show ?thesis by blast
    qed
  qed
qed

text \<open>C4: For a comparison function of a total order qsort returns, leaves the array sorted
  and a permutation of what it was.\<close>
theorem qsort_correct:
  assumes "cmp_order cmp"
  shows "\<exists>ys. qsort cmp 0 (length xs) xs = Some ys \<and> mset ys = mset xs \<and>
    sorted_wrt (\<lambda>x y. cmp x y \<le> 0) ys"
  using qsort_sorts [OF assms, of 0 "length xs" xs]
  by (auto simp: sorted_seg_def perm_seg_def sorted_wrt_iff_nth_less)

theorem qsort_correct_witness:
  "\<exists>ys. qsort (\<lambda>x y. x mod 10 - y mod 10) 0 9 [31, 12, 5, 42, 8, 19, 77, 0, 11 :: int] = Some ys \<and>
    mset ys = {#31, 12, 5, 42, 8, 19, 77, 0, 11#} \<and> sorted_wrt (\<lambda>x y. x mod 10 - y mod 10 \<le> 0) ys"
  using qsort_correct [of "\<lambda>x y :: int. x mod 10 - y mod 10" "[31, 12, 5, 42, 8, 19, 77, 0, 11]"]
  by (simp add: cmp_order_def eval_nat_numeral del: qsort.simps)

end
