(* ===== verification/Memory.thy ===== *)
theory Memory
  imports Prelude
begin

text \<open>
  The byte-addressed 32-bit memory the C library works on: loads and stores of
  bytes and of aligned 32-bit words in either byte order of the targets,
  regions of memory, and NUL-terminated strings in memory.
\<close>

section \<open>Bytes and words in memory\<close>

type_synonym addr = u32
type_synonym mem = "addr \<Rightarrow> u8"

datatype byte_order = LITTLE_ENDIAN | BIG_ENDIAN

text \<open>The byte of a word that lies at offset \<open>k\<close> (0 to 3) from its address.\<close>

definition word_byte :: "byte_order \<Rightarrow> u32 \<Rightarrow> nat \<Rightarrow> u8" where
  "word_byte bo v k =
     ucast (drop_bit (case bo of LITTLE_ENDIAN \<Rightarrow> 8 * k | BIG_ENDIAN \<Rightarrow> 24 - 8 * k) v)"

definition load_word :: "byte_order \<Rightarrow> mem \<Rightarrow> addr \<Rightarrow> u32" where
  "load_word bo m a = (case bo of
     LITTLE_ENDIAN \<Rightarrow> ucast (m a) OR push_bit 8 (ucast (m (a + 1)))
       OR push_bit 16 (ucast (m (a + 2))) OR push_bit 24 (ucast (m (a + 3)))
   | BIG_ENDIAN \<Rightarrow> ucast (m (a + 3)) OR push_bit 8 (ucast (m (a + 2)))
       OR push_bit 16 (ucast (m (a + 1))) OR push_bit 24 (ucast (m a)))"

definition store_word :: "byte_order \<Rightarrow> mem \<Rightarrow> addr \<Rightarrow> u32 \<Rightarrow> mem" where
  "store_word bo m a v = m(a := word_byte bo v 0, a + 1 := word_byte bo v 1,
     a + 2 := word_byte bo v 2, a + 3 := word_byte bo v 3)"

lemma bit_top_byte: "bit v n \<Longrightarrow> \<not> bit v (24 + (n - 24)) \<Longrightarrow> n - 16 < (8::nat)"
  by (cases "24 \<le> n") auto

lemma load_store_word_same [simp]: "load_word bo (store_word bo m a v) a = v"
  by (cases bo; rule bit_word_eqI)
    (auto simp: load_word_def store_word_def word_byte_def bit_simps intro: bit_top_byte)

lemma word_byte_load:
  "word_byte bo (load_word bo m s) 0 = m s" "word_byte bo (load_word bo m s) 1 = m (s + 1)"
  "word_byte bo (load_word bo m s) 2 = m (s + 2)" "word_byte bo (load_word bo m s) 3 = m (s + 3)"
  by (cases bo; rule bit_word_eqI;
      auto simp: load_word_def word_byte_def bit_simps dest: bit_imp_le_length)+

lemma store_word_bytes:
  "store_word bo m a (load_word bo m' s) =
     m(a := m' s, a + 1 := m' (s + 1), a + 2 := m' (s + 2), a + 3 := m' (s + 3))"
  by (simp only: store_word_def word_byte_load)

text \<open>A word store changes four bytes; a load of a word that does not overlap them is unaffected.\<close>

lemma store_word_other:
  "x \<notin> {a, a + 1, a + 2, a + 3} \<Longrightarrow> store_word bo m a v x = m x"
  by (simp add: store_word_def)

lemma load_word_cong:
  "m' a = m a \<Longrightarrow> m' (a + 1) = m (a + 1) \<Longrightarrow> m' (a + 2) = m (a + 2) \<Longrightarrow>
   m' (a + 3) = m (a + 3) \<Longrightarrow> load_word bo m' a = load_word bo m a"
  by (cases bo) (simp_all add: load_word_def)

lemma fold_fun_upd [simp]: "(\<lambda>a. if a = d then v else m a) = m(d := v)"
  by (simp add: fun_upd_def)

section \<open>Regions\<close>

text \<open>The \<open>n\<close> bytes that start at \<open>a\<close>; the address arithmetic wraps around.\<close>

definition region :: "addr \<Rightarrow> nat \<Rightarrow> addr set" where
  "region a n = {x. unat (x - a) < n}"

lemma in_region [simp]: "x \<in> region a n \<longleftrightarrow> unat (x - a) < n"
  by (simp add: region_def)

lemma unat_u32_lt: "unat (w :: u32) < 2 ^ 32"
  by (rule order_less_le_trans [OF unsigned_less]) simp

lemma of_nat_eq_u32: "i < 2 ^ 32 \<Longrightarrow> j < 2 ^ 32 \<Longrightarrow> (of_nat i :: u32) = of_nat j \<longleftrightarrow> i = j"
proof -
  assume "i < 2 ^ 32" "j < 2 ^ 32"
  then have "unat (of_nat i :: u32) = i" "unat (of_nat j :: u32) = j"
    by (simp_all add: unat_of_nat_lt)
  then show ?thesis by metis
qed

lemma offset_eq: "n < 2 ^ 32 \<Longrightarrow> unat (x - d) = n \<longleftrightarrow> x = d + (of_nat n :: u32)"
proof -
  assume "n < 2 ^ 32"
  then have "unat (of_nat n :: u32) = n" by (simp add: unat_of_nat_lt)
  then show ?thesis
    by (metis add_diff_cancel_left' diff_add_cancel add.commute word_unat_inverse)
qed

text \<open>Offsets into a region step with the base address.\<close>

lemma unat_offset_Suc: "x \<noteq> a \<Longrightarrow> unat (x - a) = Suc (unat (x - (a + 1 :: u32)))"
proof -
  assume "x \<noteq> a"
  then have "x - a \<noteq> 0" by simp
  then have "unat (x - a - 1) = unat (x - a) - 1" "0 < unat (x - a)"
    by (simp_all add: unat_minus_one unat_gt_0)
  moreover have "x - a - 1 = x - (a + 1)" by simp
  ultimately show ?thesis by simp
qed

lemma region_Suc: "unat (x - a) < Suc n \<longleftrightarrow> x = a \<or> x \<noteq> a \<and> unat (x - (a + 1 :: u32)) < n"
  by (auto simp: unat_offset_Suc)

text \<open>Word stores and loads at offsets from a base address that do not overlap.\<close>

lemma store_word_off:
  assumes "k + 3 < 2 ^ 32" "x < 2 ^ 32" "x < k \<or> k + 3 < x"
  shows "store_word bo m (B + of_nat k) v (B + of_nat x) = m (B + of_nat x)"
proof -
  have ne: "(of_nat x :: u32) \<noteq> of_nat (k + c)" if "c \<le> 3" for c
    using that assms of_nat_eq_u32 [of x "k + c"] by auto
  have ne': "B + of_nat x \<noteq> B + of_nat k + c" if "c \<in> {0, 1, 2, 3}" for c
    using that ne [of 0] ne [of 1] ne [of 2] ne [of 3] by (auto simp: add.assoc add.commute)
  show ?thesis using ne' [of 0] ne' [of 1] ne' [of 2] ne' [of 3] by (intro store_word_other) simp
qed

lemma load_store_word_off:
  assumes "k + 3 < 2 ^ 32" "j + 3 < 2 ^ 32" "j + 3 < k \<or> k + 3 < j"
  shows "load_word bo (store_word bo m (B + of_nat k) v) (B + of_nat j) = load_word bo m (B + of_nat j)"
proof -
  have s: "store_word bo m (B + of_nat k) v (B + of_nat (j + c)) = m (B + of_nat (j + c))" if "c \<le> 3" for c
    using that assms by (intro store_word_off) auto
  have a: "B + of_nat j + 1 = B + of_nat (j + 1)" "B + of_nat j + 2 = B + of_nat (j + 2)"
    "B + of_nat j + 3 = B + of_nat (j + 3)" by (simp_all add: add.assoc add.commute)
  show ?thesis
    by (rule load_word_cong) (use s [of 0] s [of 1] s [of 2] s [of 3] in \<open>simp_all only: a le_refl add_0_right\<close>; simp)+
qed

end
