(* ===== verification/Strings.thy ===== *)
theory Strings
  imports Memory
begin

text \<open>
  The string and block operations of src/lib/src/string and of the inline
  functions of include/string.h, on the byte memory: memcpy, memmove, memset,
  memcmp, bzero, strlen, strnlen, strcpy, strcat, strncpy, strncat, strlcpy,
  strlcat, strcmp, strncmp, strcasecmp, strncasecmp, strstr and strtok.  Loops
  that count a length down recurse on it; loops that run until a NUL byte are
  partial functions, whose value is None when memory holds no NUL.  Pointers
  are 32-bit words and arithmetic on them wraps around.
\<close>

section \<open>Block operations: memcpy, memmove, memset, memcmp, bzero\<close>

fun copy_fwd :: "nat \<Rightarrow> mem \<Rightarrow> addr \<Rightarrow> addr \<Rightarrow> mem" where
  "copy_fwd 0 m dst src = m"
| "copy_fwd (Suc t) m dst src = copy_fwd t (m(dst := m src)) (dst + 1) (src + 1)"

fun copy_bwd :: "nat \<Rightarrow> mem \<Rightarrow> addr \<Rightarrow> addr \<Rightarrow> mem" where
  "copy_bwd 0 m dst src = m"
| "copy_bwd (Suc t) m dst src = copy_bwd t (m(dst - 1 := m (src - 1))) (dst - 1) (src - 1)"

fun word_copy_fwd :: "byte_order \<Rightarrow> nat \<Rightarrow> mem \<Rightarrow> addr \<Rightarrow> addr \<Rightarrow> mem" where
  "word_copy_fwd bo 0 m dst src = m"
| "word_copy_fwd bo (Suc t) m dst src =
     word_copy_fwd bo t (store_word bo m dst (load_word bo m src)) (dst + 4) (src + 4)"

fun word_copy_bwd :: "byte_order \<Rightarrow> nat \<Rightarrow> mem \<Rightarrow> addr \<Rightarrow> addr \<Rightarrow> mem" where
  "word_copy_bwd bo 0 m dst src = m"
| "word_copy_bwd bo (Suc t) m dst src =
     word_copy_bwd bo t (store_word bo m (dst - 4) (load_word bo m (src - 4))) (dst - 4) (src - 4)"

definition memcpy :: "mem \<Rightarrow> addr \<Rightarrow> addr \<Rightarrow> u32 \<Rightarrow> mem \<times> addr" where
  "memcpy m dst src len = (copy_fwd (unat len) m dst src, dst)"

text \<open>
  The memcpy of string.h, which the macro of that name selects wherever the header is included: whole
  words while both pointers are aligned and at least four bytes of the int \<open>len\<close> are left, then
  bytes until \<open>len\<close> is zero, which for a negative length is a full turn of the counter.
\<close>

function memcpy_words :: "byte_order \<Rightarrow> mem \<Rightarrow> addr \<Rightarrow> addr \<Rightarrow> u32 \<Rightarrow> mem \<times> addr \<times> addr \<times> u32" where
  "memcpy_words bo m dst1 src1 len =
     (if 4 \<le>s len then
        memcpy_words bo (store_word bo m dst1 (load_word bo m src1)) (dst1 + 4) (src1 + 4) (len - 4)
      else (m, dst1, src1, len))"
  by pat_completeness auto
termination
  by (relation "measure (\<lambda>(_, _, _, _, len). nat (sint len))") (auto simp: word_sle_eq sint_sub_4)

definition memcpy_inline :: "byte_order \<Rightarrow> mem \<Rightarrow> addr \<Rightarrow> addr \<Rightarrow> u32 \<Rightarrow> mem \<times> addr" where
  "memcpy_inline bo m dst src len =
     (let (m, dst1, src1, len) =
            (if (dst OR src) AND 3 = 0 then memcpy_words bo m dst src len else (m, dst, src, len))
      in (copy_fwd (unat len) m dst1 src1, dst))"

declare memcpy_words.simps [simp del]

definition memmove_fwd_head :: "addr \<Rightarrow> addr \<Rightarrow> u32 \<Rightarrow> u32" where
  "memmove_fwd_head dst src len =
     (if (src OR dst) AND 3 \<noteq> 0
      then (if (src XOR dst) AND 3 \<noteq> 0 \<or> len < 4 then len else 4 - (src AND 3))
      else 0)"

definition memmove_fwd :: "byte_order \<Rightarrow> mem \<Rightarrow> addr \<Rightarrow> addr \<Rightarrow> u32 \<Rightarrow> mem" where
  "memmove_fwd bo m dst src len =
     (let t = memmove_fwd_head dst src len;
          m1 = copy_fwd (unat t) m dst src;
          len1 = len - t; dst1 = dst + t; src1 = src + t;
          w = unat len1 div 4;
          m2 = word_copy_fwd bo w m1 dst1 src1
      in copy_fwd (unat (len1 AND 3)) m2 (dst1 + 4 * of_nat w) (src1 + 4 * of_nat w))"

definition memmove_bwd_head :: "addr \<Rightarrow> addr \<Rightarrow> u32 \<Rightarrow> u32" where
  "memmove_bwd_head dst src len =
     (if (src OR dst) AND 3 \<noteq> 0
      then (if (src XOR dst) AND 3 \<noteq> 0 \<or> len \<le> 4 then len else src AND 3)
      else 0)"

definition memmove_bwd :: "byte_order \<Rightarrow> mem \<Rightarrow> addr \<Rightarrow> addr \<Rightarrow> u32 \<Rightarrow> mem" where
  "memmove_bwd bo m dst0 src0 len =
     (let src = src0 + len; dst = dst0 + len;
          t = memmove_bwd_head dst src len;
          m1 = copy_bwd (unat t) m dst src;
          len1 = len - t; dst1 = dst - t; src1 = src - t;
          w = unat len1 div 4;
          m2 = word_copy_bwd bo w m1 dst1 src1
      in copy_bwd (unat (len1 AND 3)) m2 (dst1 - 4 * of_nat w) (src1 - 4 * of_nat w))"

definition memmove :: "byte_order \<Rightarrow> mem \<Rightarrow> addr \<Rightarrow> addr \<Rightarrow> u32 \<Rightarrow> mem \<times> addr" where
  "memmove bo m dst0 src0 len =
     (if len = 0 \<or> dst0 = src0 then (m, dst0)
      else if dst0 < src0 then (memmove_fwd bo m dst0 src0 len, dst0)
      else (memmove_bwd bo m dst0 src0 len, dst0))"

text \<open>What a copy of \<open>n\<close> bytes is to do: every byte of the source as it was before the call.\<close>

definition copied :: "mem \<Rightarrow> addr \<Rightarrow> addr \<Rightarrow> nat \<Rightarrow> mem" where
  "copied m dst src n = (\<lambda>x. if unat (x - dst) < n then m (src + (x - dst)) else m x)"

lemma copied_0 [simp]: "copied m d s 0 = m"
  by (simp add: copied_def)

lemma copied_same [simp]: "copied m d d n = m"
  by (auto simp: copied_def)

lemma copied_Suc:
  assumes "d = s \<or> Suc n \<le> unat (d - s)"
  shows "copied (m(d := m s)) (d + 1) (s + 1) n = copied m d s (Suc n)"
proof (cases "d = s")
  case False
  with assms have n: "Suc n \<le> unat (d - s)" by simp
  show ?thesis
  proof
    fix x
    show "copied (m(d := m s)) (d + 1) (s + 1) n x = copied m d s (Suc n) x"
    proof (cases "x = d")
      case True
      have "n < 2 ^ 32" using n unat_u32_lt [of "d - s"] by simp
      moreover have "unat (- 1 :: u32) = 2 ^ 32 - 1"
        by (simp add: unsigned_minus_1_eq_mask mask_eq_exp_minus_1)
      ultimately have "\<not> unat (- 1 :: u32) < n" by simp
      then show ?thesis using True by (simp add: copied_def)
    next
      case False
      have "s + (x - d) \<noteq> d" if "unat (x - (d + 1)) < n"
      proof
        assume "s + (x - d) = d"
        then have "x - d = d - s" by (simp add: algebra_simps)
        then show False using that n unat_offset_Suc [OF False] by simp
      qed
      then show ?thesis using False by (simp add: copied_def unat_offset_Suc)
    qed
  qed
qed simp

lemma copy_fwd_copied:
  "d = s \<or> n \<le> unat (d - s) \<Longrightarrow> copy_fwd n m d s = copied m d s n"
proof (induction n arbitrary: m d s)
  case (Suc n)
  have "copy_fwd n (m(d := m s)) (d + 1) (s + 1) = copied (m(d := m s)) (d + 1) (s + 1) n"
    using Suc.prems by (intro Suc.IH) auto
  then show ?case using copied_Suc [OF Suc.prems] by simp
qed simp

lemma copied_Suc_end:
  assumes "s = d \<or> Suc n \<le> unat (s - d)"
  shows "copied (m(d + of_nat n := m (s + of_nat n))) d s n = copied m d s (Suc n)"
proof (cases "d = s")
  case False
  with assms have n: "Suc n \<le> unat (s - d)" by auto
  then have n32: "n < 2 ^ 32" using unat_u32_lt [of "s - d"] by simp
  then have un: "unat (of_nat n :: u32) = n" by (simp add: unat_of_nat_lt)
  show ?thesis
  proof
    fix x
    have "s + (x - d) \<noteq> d + of_nat n" if "unat (x - d) < n"
    proof
      assume "s + (x - d) = d + of_nat n"
      then have "of_nat n - (x - d) = s - d" by (simp add: algebra_simps)
      moreover have "unat (of_nat n - (x - d)) = n - unat (x - d)"
        using that un by (subst unat_sub_le) (auto simp: word_le_nat_alt)
      ultimately show False using n by (simp only:)
    qed
    then show "copied (m(d + of_nat n := m (s + of_nat n))) d s n x = copied m d s (Suc n) x"
      by (auto simp: copied_def less_Suc_eq offset_eq [OF n32])
  qed
qed (auto simp: copied_def)

lemma copy_bwd_copied:
  "s = d \<or> n \<le> unat (s - d) \<Longrightarrow>
   copy_bwd n m (d + of_nat n) (s + of_nat n) = copied m d s n"
proof (induction n arbitrary: m)
  case (Suc n)
  have e: "a + of_nat (Suc n) - 1 = a + of_nat n" for a :: u32 by simp
  have "copy_bwd n (m(d + of_nat n := m (s + of_nat n))) (d + of_nat n) (s + of_nat n) =
      copied (m(d + of_nat n := m (s + of_nat n))) d s n"
    using Suc.prems by (intro Suc.IH) auto
  then show ?case using copied_Suc_end [OF Suc.prems] by (simp only: copy_bwd.simps e)
qed simp

lemma copy_fwd_add:
  "copy_fwd (a + b) m d s = copy_fwd b (copy_fwd a m d s) (d + of_nat a) (s + of_nat a)"
  by (induction a arbitrary: m d s) (auto simp: algebra_simps)

lemma copy_bwd_add:
  "copy_bwd (a + b) m d s = copy_bwd b (copy_bwd a m d s) (d - of_nat a) (s - of_nat a)"
  by (induction a arbitrary: m d s) (auto simp: algebra_simps)

lemma store_load_copied: "store_word bo m d (load_word bo m s) = copied m d s 4"
proof
  fix x
  have d: "unat (x - d) < 4 \<longleftrightarrow> x = d \<or> x = d + 1 \<or> x = d + 2 \<or> x = d + 3"
    using region_Suc [of x d 3] region_Suc [of x "d + 1" 2] region_Suc [of x "d + 2" 1]
      region_Suc [of x "d + 3" 0] by (auto simp: add.assoc)
  show "store_word bo m d (load_word bo m s) x = copied m d s 4 x"
    unfolding store_word_bytes copied_def d by auto
qed


lemma word_copy_fwd_bytes:
  "d = s \<or> 4 \<le> unat (d - s) \<Longrightarrow> word_copy_fwd bo w m d s = copy_fwd (4 * w) m d s"
proof (induction w arbitrary: m d s)
  case (Suc w)
  have "copy_fwd (4 * Suc w) m d s = copy_fwd (4 * w) (copied m d s 4) (d + 4) (s + 4)"
    using copy_fwd_add [of 4 "4 * w" m d s] copy_fwd_copied [of d s 4 m] Suc.prems by simp
  then show ?case using Suc by (simp add: store_load_copied)
qed simp

lemma word_copy_bwd_bytes:
  "s = d \<or> 4 \<le> unat (s - d) \<Longrightarrow> word_copy_bwd bo w m d s = copy_bwd (4 * w) m d s"
proof (induction w arbitrary: m d s)
  case (Suc w)
  have "copy_bwd 4 m d s = copied m (d - 4) (s - 4) 4"
    using copy_bwd_copied [of "s - 4" "d - 4" 4 m] Suc.prems by simp
  then have "copy_bwd (4 * Suc w) m d s = copy_bwd (4 * w) (copied m (d - 4) (s - 4) 4) (d - 4) (s - 4)"
    using copy_bwd_add [of 4 "4 * w" m d s] by simp
  then show ?case using Suc by (simp add: store_load_copied)
qed simp

text \<open>Splitting a length into head, whole words and tail.\<close>

lemma unat_and_3: "unat (w AND 3 :: u32) = unat w mod 4"
proof -
  have "w AND 3 = take_bit 2 w" by (simp add: take_bit_eq_mask mask_eq_exp_minus_1)
  then show ?thesis by (simp only: unsigned_take_bit_eq) (simp add: take_bit_eq_mod)
qed

lemma words_and_tail:
  "unat len = 4 * (unat len div 4) + unat (len AND 3 :: u32)"
  by (simp add: unat_and_3)

lemma fwd_words_copied:
  assumes "d = s \<or> unat len \<le> unat (d - s)" and "w = unat (len :: u32) div 4"
  shows "copy_fwd (unat (len AND 3)) (word_copy_fwd bo w m d s) (d + 4 * of_nat w) (s + 4 * of_nat w)
    = copied m d s (unat len)"
proof -
  have "word_copy_fwd bo w m d s = copy_fwd (4 * w) m d s"
    using assms by (cases "4 \<le> unat len") (auto intro: word_copy_fwd_bytes)
  then have "copy_fwd (unat (len AND 3)) (word_copy_fwd bo w m d s) (d + 4 * of_nat w) (s + 4 * of_nat w)
      = copy_fwd (4 * w + unat (len AND 3)) m d s"
    by (simp add: copy_fwd_add)
  also have "4 * w + unat (len AND 3) = unat len"
    using words_and_tail assms(2) by metis
  finally show ?thesis using assms(1) by (simp add: copy_fwd_copied)
qed

lemma bwd_words_copied:
  assumes "s = d \<or> unat len \<le> unat (s - d)" and "w = unat (len :: u32) div 4"
  shows "copy_bwd (unat (len AND 3)) (word_copy_bwd bo w m (d + len) (s + len))
      (d + len - 4 * of_nat w) (s + len - 4 * of_nat w) = copied m d s (unat len)"
proof -
  have "word_copy_bwd bo w m (d + len) (s + len) = copy_bwd (4 * w) m (d + len) (s + len)"
    using assms by (cases "4 \<le> unat len") (auto intro: word_copy_bwd_bytes)
  then have "copy_bwd (unat (len AND 3)) (word_copy_bwd bo w m (d + len) (s + len))
      (d + len - 4 * of_nat w) (s + len - 4 * of_nat w) = copy_bwd (4 * w + unat (len AND 3)) m (d + len) (s + len)"
    by (simp add: copy_bwd_add)
  also have "4 * w + unat (len AND 3) = unat len"
    using words_and_tail assms(2) by metis
  finally show ?thesis using assms(1) copy_bwd_copied [of s d "unat len" m] by (simp add: word_unat_inverse)
qed


lemma fwd_split_copied:
  assumes "d = s \<or> unat len \<le> unat (d - s)" and "t \<le> (len :: u32)"
  shows "copied (copy_fwd (unat t) m d s) (d + t) (s + t) (unat (len - t)) = copied m d s (unat len)"
proof -
  have u: "unat (len - t) = unat len - unat t" "unat t \<le> unat len"
    using assms(2) by (simp_all add: unat_sub word_le_nat_alt)
  have "copied (copy_fwd (unat t) m d s) (d + t) (s + t) (unat (len - t))
      = copy_fwd (unat (len - t)) (copy_fwd (unat t) m d s) (d + t) (s + t)"
    using assms(1) u by (intro copy_fwd_copied [symmetric]) auto
  also have "\<dots> = copy_fwd (unat t + unat (len - t)) m d s"
    by (simp add: copy_fwd_add word_unat_inverse)
  finally show ?thesis using u assms(1) by (simp add: copy_fwd_copied)
qed

lemma bwd_split_copied:
  assumes "s = d \<or> unat len \<le> unat (s - d)" and "t \<le> (len :: u32)"
  shows "copied (copy_bwd (unat t) m (d + len) (s + len)) d s (unat (len - t)) = copied m d s (unat len)"
proof -
  have u: "unat (len - t) = unat len - unat t" "unat t \<le> unat len"
    using assms(2) by (simp_all add: unat_sub word_le_nat_alt)
  have c: "s = d \<or> unat (len - t) \<le> unat (s - d)" using assms(1) u by auto
  have "copied (copy_bwd (unat t) m (d + len) (s + len)) d s (unat (len - t))
      = copy_bwd (unat (len - t)) (copy_bwd (unat t) m (d + len) (s + len)) (d + len - t) (s + len - t)"
    using copy_bwd_copied [OF c, of "copy_bwd (unat t) m (d + len) (s + len)"]
    by (simp add: word_unat_inverse algebra_simps)
  also have "\<dots> = copy_bwd (unat t + unat (len - t)) m (d + len) (s + len)"
    by (simp add: copy_bwd_add word_unat_inverse)
  finally show ?thesis using u assms(1) copy_bwd_copied [of s d "unat len" m]
    by (simp add: word_unat_inverse)
qed

lemma unat_diff_wrap: "d < s \<Longrightarrow> unat (d - s) = 2 ^ 32 - (unat s - unat (d :: u32))"
  by (simp add: unat_sub_if' word_less_nat_alt)

lemma head_le:
  "\<not> len < 4 \<Longrightarrow> 4 - (w AND 3) \<le> (len :: u32)" "\<not> len \<le> 4 \<Longrightarrow> w AND 3 \<le> (len :: u32)"
proof -
  have w: "unat (w AND 3) \<le> 3" by (simp only: unat_and_3)
  then have "unat (4 - (w AND 3)) = 4 - unat (w AND 3)"
    using unat_sub [of "w AND 3" 4] by (simp add: word_le_nat_alt)
  with w show "\<not> len < 4 \<Longrightarrow> 4 - (w AND 3) \<le> len" "\<not> len \<le> 4 \<Longrightarrow> w AND 3 \<le> len"
    by (simp_all add: word_le_nat_alt word_less_nat_alt)
qed

lemma memmove_head_le:
  "memmove_fwd_head dst src len \<le> len" "memmove_bwd_head dst src len \<le> len"
  by (simp_all add: memmove_fwd_head_def memmove_bwd_head_def head_le)

lemma memmove_fwd_copied:
  assumes "unat len \<le> unat (d - s)"
  shows "memmove_fwd bo m d s len = copied m d s (unat len)"
proof -
  define t where "t = memmove_fwd_head d s len"
  have t: "t \<le> len" unfolding t_def by (rule memmove_head_le)
  then have "unat (len - t) \<le> unat (d + t - (s + t))" using assms by (simp add: unat_sub)
  then show ?thesis using fwd_split_copied [of d s len t m] assms t
    by (simp add: memmove_fwd_def Let_def fwd_words_copied flip: t_def)
qed

lemma memmove_bwd_copied:
  assumes "unat len \<le> unat (s - d)"
  shows "memmove_bwd bo m d s len = copied m d s (unat len)"
proof -
  define t where "t = memmove_bwd_head (d + len) (s + len) len"
  have t: "t \<le> len" unfolding t_def by (rule memmove_head_le)
  then have "unat (len - t) \<le> unat (s - d)" using assms by (simp add: unat_sub)
  then have "copy_bwd (unat ((len - t) AND 3))
      (word_copy_bwd bo (unat (len - t) div 4) (copy_bwd (unat t) m (d + len) (s + len))
        (d + len - t) (s + len - t))
      (d + len - t - 4 * of_nat (unat (len - t) div 4)) (s + len - t - 4 * of_nat (unat (len - t) div 4))
    = copied (copy_bwd (unat t) m (d + len) (s + len)) d s (unat (len - t))"
    using bwd_words_copied [of s d "len - t", OF _ refl] by (simp add: add_diff_eq)
  then show ?thesis using bwd_split_copied [OF disjI2 [OF assms] t, of m]
    by (simp only: memmove_bwd_def Let_def t_def [symmetric])
qed

lemma memmove_copies:
  assumes "unat dst + unat len \<le> 2 ^ 32" "unat src + unat len \<le> 2 ^ 32"
  shows "memmove bo m dst src len = (copied m dst src (unat len), dst)"
proof -
  have "unat len \<le> unat (dst - src)" if "dst < src"
    using assms that unat_diff_wrap [of dst src] by (simp add: word_less_nat_alt)
  moreover have "unat len \<le> unat (src - dst)" if "src < dst"
    using assms that unat_diff_wrap [of src dst] by (simp add: word_less_nat_alt)
  ultimately show ?thesis
    by (auto simp: memmove_def memmove_fwd_copied memmove_bwd_copied not_less le_less)
qed

lemma memcpy_copies:
  "dst = src \<or> unat len \<le> unat (dst - src) \<Longrightarrow> memcpy m dst src len = (copied m dst src (unat len), dst)"
  by (simp add: memcpy_def copy_fwd_copied)

lemma memcpy_words_copies:
  "0 \<le> sint len \<Longrightarrow> memcpy_words bo m d s len =
     (word_copy_fwd bo (unat len div 4) m d s, d + 4 * of_nat (unat len div 4), s + 4 * of_nat (unat len div 4), len AND 3)"
proof (induction bo m d s len rule: memcpy_words.induct)
  case (1 bo m d s len)
  show ?case
  proof (cases "4 \<le>s len")
    case True
    then have l: "4 \<le> sint len" by (simp add: word_sle_eq)
    then have "4 \<le> unat len" using sint_nonneg_unat [of len] by linarith
    then have le: "4 \<le> len" by (simp add: word_le_nat_alt)
    then have u: "unat (len - 4) = unat len - 4" by (simp add: unat_sub)
    have w: "unat len div 4 = Suc (unat (len - 4) div 4)" using le u by (simp add: word_le_nat_alt)
    have "len AND 3 = (len - 4) AND 3"
      using le u by (intro word_unat_eq_iff [THEN iffD2]) (simp only: unat_and_3, simp add: word_le_nat_alt le_mod_geq)
    then show ?thesis using 1 True l
      by (subst memcpy_words.simps) (simp add: w sint_sub_4 algebra_simps)
  next
    case False
    then have l: "sint len < 4" by (simp add: word_sle_eq)
    then have "unat len < 4" using sint_nonneg_unat [OF 1(2)] by linarith
    moreover from this have "len AND 3 = len"
      by (intro word_unat_eq_iff [THEN iffD2]) (simp only: unat_and_3 mod_less)
    ultimately show ?thesis using False by (subst memcpy_words.simps) simp
  qed
qed

lemma memcpy_inline_copies:
  assumes "dst = src \<or> unat len \<le> unat (dst - src)"
  shows "memcpy_inline bo m dst src len = (copied m dst src (unat len), dst)"
proof (cases "0 \<le> sint len")
  case True
  then show ?thesis using assms fwd_words_copied [OF assms refl, of bo m]
    by (simp add: memcpy_inline_def memcpy_words_copies copy_fwd_copied)
next
  case False
  then have "memcpy_words bo m dst src len = (m, dst, src, len)"
    by (subst memcpy_words.simps) (simp add: word_sle_eq)
  then show ?thesis using assms by (simp add: memcpy_inline_def copy_fwd_copied)
qed

text \<open>C30: memmove copies a block of any length and alignment correctly, in either byte
  order and for every overlap of the two regions: every destination byte has the value
  the corresponding source byte had before the call and no other byte changes.\<close>
theorem memmove_correct:
  assumes "unat dst + unat len \<le> 2 ^ 32" "unat src + unat len \<le> 2 ^ 32"
  shows "memmove bo m dst src len =
    (\<lambda>x. if unat (x - dst) < unat len then m (src + (x - dst)) else m x, dst)"
  using memmove_copies [OF assms] by (simp add: copied_def)

theorem memmove_correct_witness:
  "fst (memmove LITTLE_ENDIAN (\<lambda>x. ucast x) 5 3 9) 7 = 5"
  using memmove_correct [of 5 9 3 LITTLE_ENDIAN "\<lambda>x. ucast x"] by simp

section \<open>Filling and comparing blocks\<close>

fun memset_head :: "u8 \<Rightarrow> mem \<Rightarrow> addr \<Rightarrow> nat \<Rightarrow> mem \<times> addr \<times> nat" where
  "memset_head v m cp len =
     (if cp AND 3 \<noteq> 0 \<and> 0 < len then memset_head v (m(cp := v)) (cp + 1) (len - 1)
      else (m, cp, len))"

fun memset_16 :: "byte_order \<Rightarrow> u32 \<Rightarrow> mem \<Rightarrow> addr \<Rightarrow> nat \<Rightarrow> mem \<times> addr \<times> nat" where
  "memset_16 bo val m cp len =
     (if 16 \<le> len then
        memset_16 bo val
          (store_word bo (store_word bo (store_word bo (store_word bo m cp val) (cp + 4) val)
             (cp + 8) val) (cp + 12) val) (cp + 16) (len - 16)
      else (m, cp, len))"

fun memset_4 :: "byte_order \<Rightarrow> u32 \<Rightarrow> mem \<Rightarrow> addr \<Rightarrow> nat \<Rightarrow> mem \<times> addr \<times> nat" where
  "memset_4 bo val m cp len =
     (if 4 \<le> len then memset_4 bo val (store_word bo m cp val) (cp + 4) (len - 4)
      else (m, cp, len))"

fun memset_tail :: "u8 \<Rightarrow> mem \<Rightarrow> addr \<Rightarrow> nat \<Rightarrow> mem" where
  "memset_tail v m cp 0 = m"
| "memset_tail v m cp (Suc len) = memset_tail v (m(cp := v)) (cp + 1) len"

declare memset_head.simps [simp del] memset_16.simps [simp del] memset_4.simps [simp del]

definition memset_val :: "u32 \<Rightarrow> u32" where
  "memset_val c =
     (let v0 = c AND 0xff; v1 = v0 OR push_bit 8 v0 in v1 OR push_bit 16 v1)"

definition memset :: "byte_order \<Rightarrow> mem \<Rightarrow> addr \<Rightarrow> u32 \<Rightarrow> u32 \<Rightarrow> mem \<times> addr" where
  "memset bo m dest c len =
     (let val = memset_val c;
          (m1, cp1, len1) = memset_head (ucast val) m dest (unat len);
          (m2, cp2, len2) = memset_16 bo val m1 cp1 len1;
          (m3, cp3, len3) = memset_4 bo val m2 cp2 len2
      in (memset_tail (ucast val) m3 cp3 len3, dest))"

text \<open>\<^verbatim>\<open>bzero\<close> of string.h: \<^verbatim>\<open>while (len--) *cp++ = 0\<close>.\<close>

definition bzero :: "mem \<Rightarrow> addr \<Rightarrow> u32 \<Rightarrow> mem" where
  "bzero m dst len = memset_tail 0 m dst (unat len)"

text \<open>What filling \<open>n\<close> bytes is to do.\<close>

definition filled :: "mem \<Rightarrow> addr \<Rightarrow> nat \<Rightarrow> u8 \<Rightarrow> mem" where
  "filled m a n v = (\<lambda>x. if unat (x - a) < n then v else m x)"

lemma filled_0 [simp]: "filled m a 0 v = m"
  by (simp add: filled_def)

lemma filled_Suc: "filled m a (Suc n) v = filled (m(a := v)) (a + 1) n v"
  by (auto simp: filled_def region_Suc)

lemma filled_add: "filled m a (n + k) v = filled (filled m a n v) (a + of_nat n) k v"
  by (induction n arbitrary: m a) (auto simp: filled_Suc algebra_simps)

lemma memset_val_bytes: "ucast (memset_val c) = (ucast c :: u8)"
  "word_byte bo (memset_val c) 0 = ucast c" "word_byte bo (memset_val c) 1 = ucast c"
  "word_byte bo (memset_val c) 2 = ucast c" "word_byte bo (memset_val c) 3 = ucast c"
proof -
  have ff: "(0xff :: u32) = mask 8" by (simp add: mask_eq_exp_minus_1)
  show "ucast (memset_val c) = (ucast c :: u8)"
  "word_byte bo (memset_val c) 0 = ucast c" "word_byte bo (memset_val c) 1 = ucast c"
  "word_byte bo (memset_val c) 2 = ucast c" "word_byte bo (memset_val c) 3 = ucast c"
    unfolding memset_val_def ff
    by (cases bo; rule bit_word_eqI; auto simp: word_byte_def bit_simps)+
qed

lemma store_memset_val: "store_word bo m a (memset_val c) = filled m a 4 (ucast c)"
  by (simp only: store_word_def memset_val_bytes) (simp add: eval_nat_numeral filled_Suc add.assoc)

lemma memset_tail_filled: "memset_tail v m cp n = filled m cp n v"
  by (induction n arbitrary: m cp) (simp_all add: filled_Suc)

text \<open>
  The first three loops leave a state from which filling the rest completes
  the fill of the whole range.
\<close>

lemma memset_head_filled:
  "memset_head v m cp n = (m', cp', n') \<Longrightarrow> filled m' cp' n' v = filled m cp n v"
proof (induction n arbitrary: m cp)
  case 0
  then show ?case by (simp add: memset_head.simps [of v m cp 0])
next
  case (Suc n)
  show ?case
  proof (cases "cp AND 3 = 0")
    case True
    then show ?thesis using Suc.prems by (simp add: memset_head.simps [of v m cp "Suc n"])
  next
    case False
    then have "memset_head v (m(cp := v)) (cp + 1) n = (m', cp', n')"
      using Suc.prems by (simp add: memset_head.simps [of v m cp "Suc n"])
    then show ?thesis using Suc.IH by (simp only: filled_Suc)
  qed
qed

lemma memset_16_filled:
  "memset_16 bo (memset_val c) m cp n = (m', cp', n') \<Longrightarrow>
   filled m' cp' n' (ucast c) = filled m cp n (ucast c)"
proof (induction n arbitrary: m cp rule: less_induct)
  case (less n)
  have "filled (filled (filled (filled m cp 4 v) (cp + 4) 4 v) (cp + 8) 4 v) (cp + 12) 4 v
      = filled m cp 16 v" for v
    using filled_add [of m cp 4 4 v] filled_add [of m cp 8 4 v] filled_add [of m cp 12 4 v] by simp
  then have "16 \<le> n \<Longrightarrow> filled (filled (filled (filled (filled m cp 4 v) (cp + 4) 4 v) (cp + 8) 4 v) (cp + 12) 4 v)
      (cp + 16) (n - 16) v = filled m cp n v" for v
    using filled_add [of m cp 16 "n - 16" v] by simp
  then show ?case using less(2) less(1) [of "n - 16"]
    by (cases "16 \<le> n") (simp_all add: memset_16.simps [of bo _ m cp n] store_memset_val)
qed

lemma memset_4_filled:
  "memset_4 bo (memset_val c) m cp n = (m', cp', n') \<Longrightarrow>
   filled m' cp' n' (ucast c) = filled m cp n (ucast c)"
proof (induction n arbitrary: m cp rule: less_induct)
  case (less n)
  have "4 \<le> n \<Longrightarrow> filled (filled m cp 4 v) (cp + 4) (n - 4) v = filled m cp n v" for v
    using filled_add [of m cp 4 "n - 4" v] by simp
  then show ?case using less(2) less(1) [of "n - 4"]
    by (cases "4 \<le> n") (simp_all add: memset_4.simps [of bo _ m cp n] store_memset_val)
qed

lemma memset_fills: "memset bo m dest c len = (filled m dest (unat len) (ucast c), dest)"
  by (simp add: memset_def Let_def memset_val_bytes memset_tail_filled memset_4_filled
      memset_16_filled memset_head_filled split: prod.splits)

lemma bzero_fills: "bzero m dst len = filled m dst (unat len) 0"
  by (simp add: bzero_def memset_tail_filled)

fun memcmp_loop :: "nat \<Rightarrow> mem \<Rightarrow> addr \<Rightarrow> addr \<Rightarrow> int" where
  "memcmp_loop 0 m p1 p2 = 0"
| "memcmp_loop (Suc n) m p1 p2 =
     (if m p1 \<noteq> m p2 then uint (m p1) - uint (m p2) else memcmp_loop n m (p1 + 1) (p2 + 1))"

definition memcmp :: "mem \<Rightarrow> addr \<Rightarrow> addr \<Rightarrow> u32 \<Rightarrow> int" where
  "memcmp m s1 s2 n = memcmp_loop (unat n) m s1 s2"

definition bytes_at :: "mem \<Rightarrow> addr \<Rightarrow> nat \<Rightarrow> u8 list" where
  "bytes_at m a n = map (\<lambda>k. m (a + of_nat k)) [0..<n]"

lemma bytes_at_simps [simp]:
  "bytes_at m a 0 = []" "bytes_at m a (Suc n) = m a # bytes_at m (a + 1) n" "length (bytes_at m a n) = n"
proof -
  have "[0..<Suc n] = 0 # map Suc [0..<n]" by (simp add: map_Suc_upt upt_conv_Cons del: upt_Suc)
  then show "bytes_at m a (Suc n) = m a # bytes_at m (a + 1) n"
    by (simp add: bytes_at_def add.assoc del: upt_Suc)
qed (simp_all add: bytes_at_def)

lemma memcmp_loop_sign:
  "memcmp_loop n m p q = 0 \<longleftrightarrow> bytes_at m p n = bytes_at m q n"
  "memcmp_loop n m p q < 0 \<longleftrightarrow> (bytes_at m p n, bytes_at m q n) \<in> lexord {(x, y). x < y}"
  by (induction n arbitrary: p q) (auto simp: word_less_def dest: unsigned_word_eqI)

text \<open>memset fills exactly the requested bytes with the low byte of its argument, for
  every alignment, length and byte order.\<close>
theorem memset_correct:
  "memset bo m dest c len = (\<lambda>x. if unat (x - dest) < unat len then ucast c else m x, dest)"
  by (simp add: memset_fills filled_def)

section \<open>NUL-terminated strings\<close>

partial_function (option) scan_nul :: "mem \<Rightarrow> addr \<Rightarrow> addr option" where
  "scan_nul m cp = (if m cp = 0 then Some cp else scan_nul m (cp + 1))"

definition strlen :: "mem \<Rightarrow> addr \<Rightarrow> u32 option" where
  "strlen m str = map_option (\<lambda>cp. cp - str) (scan_nul m str)"

fun strnlen_loop :: "nat \<Rightarrow> mem \<Rightarrow> addr \<Rightarrow> u32 \<Rightarrow> u32" where
  "strnlen_loop 0 m s len = len"
| "strnlen_loop (Suc n) m s len = (if m s = 0 then len else strnlen_loop n m (s + 1) (len + 1))"

definition strnlen :: "mem \<Rightarrow> addr \<Rightarrow> u32 \<Rightarrow> u32" where
  "strnlen m s maxlen = strnlen_loop (unat maxlen) m s 0"

partial_function (option) strcpy_loop :: "mem \<Rightarrow> addr \<Rightarrow> addr \<Rightarrow> mem option" where
  "strcpy_loop m dst src =
     (let m' = m(dst := m src) in
      if m' dst = 0 then Some m' else strcpy_loop m' (dst + 1) (src + 1))"

definition strcpy :: "mem \<Rightarrow> addr \<Rightarrow> addr \<Rightarrow> (mem \<times> addr) option" where
  "strcpy m dst src = map_option (\<lambda>m'. (m', dst)) (strcpy_loop m dst src)"

definition strcat :: "mem \<Rightarrow> addr \<Rightarrow> addr \<Rightarrow> (mem \<times> addr) option" where
  "strcat m s append0 =
     (case scan_nul m s of None \<Rightarrow> None
      | Some e \<Rightarrow> map_option (\<lambda>m'. (m', s)) (strcpy_loop m e append0))"

fun strncpy_loop :: "nat \<Rightarrow> mem \<Rightarrow> addr \<Rightarrow> addr \<Rightarrow> mem" where
  "strncpy_loop 0 m d s = m"
| "strncpy_loop (Suc n) m d s =
     (let m' = m(d := m s) in
      if m' d = 0 then memset_tail 0 m' (d + 1) n else strncpy_loop n m' (d + 1) (s + 1))"

definition strncpy :: "mem \<Rightarrow> addr \<Rightarrow> addr \<Rightarrow> u32 \<Rightarrow> mem \<times> addr" where
  "strncpy m dst src n = (strncpy_loop (unat n) m dst src, dst)"

fun strncat_loop :: "nat \<Rightarrow> mem \<Rightarrow> addr \<Rightarrow> addr \<Rightarrow> mem" where
  "strncat_loop 0 m d s = m(d := 0)"
| "strncat_loop (Suc n) m d s =
     (let m' = m(d := m s) in
      if m' d = 0 then m'(d := 0) else strncat_loop n m' (d + 1) (s + 1))"

definition strncat :: "mem \<Rightarrow> addr \<Rightarrow> addr \<Rightarrow> u32 \<Rightarrow> (mem \<times> addr) option" where
  "strncat m dst src n =
     (if n \<noteq> 0 then
        (case scan_nul m dst of None \<Rightarrow> None
         | Some d \<Rightarrow> Some (strncat_loop (unat n) m d src, dst))
      else Some (m, dst))"

fun strlcpy_loop :: "nat \<Rightarrow> mem \<Rightarrow> addr \<Rightarrow> addr \<Rightarrow> mem \<times> addr \<times> addr \<times> nat" where
  "strlcpy_loop 0 m dst src = (m, dst, src, 0)"
| "strlcpy_loop (Suc nleft) m dst src =
     (let m' = m(dst := m src) in
      if m' dst = 0 then (m', dst + 1, src + 1, Suc nleft)
      else strlcpy_loop nleft m' (dst + 1) (src + 1))"

definition strlcpy :: "mem \<Rightarrow> addr \<Rightarrow> addr \<Rightarrow> u32 \<Rightarrow> (mem \<times> u32) option" where
  "strlcpy m dst0 osrc dsize =
     (let (m, dst, src, nleft) =
            (if dsize \<noteq> 0 then strlcpy_loop (unat dsize - 1) m dst0 osrc else (m, dst0, osrc, 0))
      in if nleft = 0 then
           (let m' = (if dsize \<noteq> 0 then m(dst := 0) else m)
            in map_option (\<lambda>cp. (m', (cp + 1) - osrc - 1)) (scan_nul m' src))
         else Some (m, src - osrc - 1))"

partial_function (option) strlcat_loop :: "mem \<Rightarrow> addr \<Rightarrow> addr \<Rightarrow> u32 \<Rightarrow> (mem \<times> addr \<times> addr) option" where
  "strlcat_loop m dst src n =
     (if m src \<noteq> 0 then
        (if n \<noteq> 0 then strlcat_loop (m(dst := m src)) (dst + 1) (src + 1) (n - 1)
         else strlcat_loop m dst (src + 1) n)
      else Some (m, dst, src))"

fun strlcat_find :: "nat \<Rightarrow> mem \<Rightarrow> addr \<Rightarrow> addr" where
  "strlcat_find 0 m dst = dst"
| "strlcat_find (Suc n) m dst = (if m dst \<noteq> 0 then strlcat_find n m (dst + 1) else dst)"

definition strlcat :: "mem \<Rightarrow> addr \<Rightarrow> addr \<Rightarrow> u32 \<Rightarrow> (mem \<times> u32) option" where
  "strlcat m odst osrc dsize =
     (let dst = strlcat_find (unat dsize) m odst;
          dlen = dst - odst;
          n = dsize - dlen
      in if n = 0 then map_option (\<lambda>l. (m, dlen + l)) (strlen m osrc)
         else map_option (\<lambda>(m', d, src). (m'(d := 0), dlen + (src - osrc)))
                (strlcat_loop m dst osrc (n - 1)))"

section \<open>Strings in memory\<close>

fun cstr :: "mem \<Rightarrow> addr \<Rightarrow> u8 list \<Rightarrow> bool" where
  "cstr m a [] \<longleftrightarrow> m a = 0"
| "cstr m a (c # cs) \<longleftrightarrow> c \<noteq> 0 \<and> m a = c \<and> cstr m (a + 1) cs"

lemma cstr_bytes_at:
  "cstr m a s \<longleftrightarrow> 0 \<notin> set s \<and> bytes_at m a (length s) = s \<and> m (a + of_nat (length s)) = 0"
  by (induction s arbitrary: a) (auto simp: add.assoc)

lemma cstr_unique: "cstr m a s \<Longrightarrow> cstr m a t \<Longrightarrow> s = t"
proof (induction s arbitrary: a t)
  case Nil
  then show ?case by (cases t) auto
next
  case (Cons c s)
  then show ?case by (cases t) auto
qed

lemma cstr_tail: "cstr m a s \<Longrightarrow> k \<le> length s \<Longrightarrow> cstr m (a + of_nat k) (drop k s)"
proof (induction k arbitrary: a s)
  case (Suc k)
  then show ?case by (cases s) (auto simp flip: add.assoc)
qed simp

lemma scan_nul_cstr: "cstr m a s \<Longrightarrow> scan_nul m a = Some (a + of_nat (length s))"
proof (induction s arbitrary: a)
  case Nil
  then show ?case by (simp add: scan_nul.simps [of m a])
next
  case (Cons c s)
  then show ?case by (simp add: scan_nul.simps [of m a] add.assoc)
qed

lemma strlen_cstr: "cstr m a s \<Longrightarrow> strlen m a = Some (of_nat (length s))"
  by (simp add: strlen_def scan_nul_cstr)

lemma strnlen_loop_cstr:
  "cstr m a s \<Longrightarrow> strnlen_loop n m a len = len + of_nat (min n (length s))"
proof (induction n arbitrary: a s len)
  case (Suc n)
  then show ?case by (cases s) (auto simp: add.assoc)
qed simp

lemma strnlen_cstr: "cstr m a s \<Longrightarrow> strnlen m a n = of_nat (min (unat n) (length s))"
  by (simp add: strnlen_def strnlen_loop_cstr)

text \<open>The copying loops, as long as the destination does not run into the unread source.\<close>

lemma cstr_upd: "cstr m a s \<Longrightarrow> length s < unat (x - a) \<Longrightarrow> cstr (m(x := v)) a s"
proof (induction s arbitrary: a)
  case (Cons c s)
  have "x \<noteq> a" using Cons.prems by auto
  then show ?case using Cons by (auto simp: unat_offset_Suc)
qed auto

lemma strcpy_loop_copied:
  "cstr m s str \<Longrightarrow> length str < unat (d - s) \<Longrightarrow>
   strcpy_loop m d s = Some (copied m d s (Suc (length str)))"
proof (induction str arbitrary: m d s)
  case Nil
  then have "copied m d s (Suc 0) = m(d := 0)" using copied_Suc [of d s 0 m] by simp
  then show ?case using Nil by (simp add: strcpy_loop.simps [of m d s])
next
  case (Cons c str)
  have "d \<noteq> s" using Cons.prems by auto
  have "cstr (m(d := c)) (s + 1) str"
    using Cons.prems unat_offset_Suc [OF \<open>d \<noteq> s\<close>] by (intro cstr_upd) auto
  then have "strcpy_loop (m(d := c)) (d + 1) (s + 1) = Some (copied (m(d := c)) (d + 1) (s + 1) (Suc (length str)))"
    using Cons.prems by (intro Cons.IH) auto
  then show ?case using Cons.prems copied_Suc [of d s "Suc (length str)" m]
    by (simp add: strcpy_loop.simps [of m d s])
qed

lemma bytes_at_copied:
  "n \<le> N \<Longrightarrow> N \<le> 2 ^ 32 \<Longrightarrow> bytes_at (copied m d s N) d n = bytes_at m s n"
  by (auto simp: bytes_at_def copied_def unat_of_nat_lt)

lemma copied_byte: "k < N \<Longrightarrow> N \<le> 2 ^ 32 \<Longrightarrow> copied m d s N (d + of_nat k) = m (s + of_nat k)"
  by (simp add: copied_def unat_of_nat_lt)

lemma cstr_copied:
  "cstr m s str \<Longrightarrow> Suc (length str) \<le> 2 ^ 32 \<Longrightarrow> cstr (copied m d s (Suc (length str))) d str"
  by (simp add: cstr_bytes_at bytes_at_copied copied_byte)

lemma copied_frame: "N \<le> unat (x - d) \<Longrightarrow> copied m d s N x = m x"
  by (simp add: copied_def)


lemma strcpy_ok:
  "cstr m s str \<Longrightarrow> length str < unat (d - s) \<Longrightarrow>
   strcpy m d s = Some (copied m d s (Suc (length str)), d)"
  by (simp add: strcpy_def strcpy_loop_copied)

lemma strlcpy_loop_copied:
  "cstr m s str \<Longrightarrow> length str < unat (d - s) \<Longrightarrow>
   strlcpy_loop n m d s =
     (if length str < n
      then (copied m d s (Suc (length str)), d + of_nat (Suc (length str)), s + of_nat (Suc (length str)), n - length str)
      else (copied m d s n, d + of_nat n, s + of_nat n, 0))"
proof (induction n arbitrary: m d s str)
  case (Suc n)
  have "d \<noteq> s" using Suc.prems by auto
  show ?case
  proof (cases str)
    case Nil
    then have "copied m d s (Suc 0) = m(d := 0)" using copied_Suc [of d s 0 m] Suc.prems by simp
    then show ?thesis using Suc.prems Nil by simp
  next
    case (Cons c str')
    have "cstr (m(d := c)) (s + 1) str'"
      using Suc.prems Cons unat_offset_Suc [OF \<open>d \<noteq> s\<close>] by (intro cstr_upd) auto
    moreover have "length str' < unat (d + 1 - (s + 1))" using Suc.prems Cons by simp
    ultimately show ?thesis
      using Suc.IH [of "m(d := c)" "s + 1" str' "d + 1"] Suc.prems Cons
        copied_Suc [of d s "Suc (length str')" m] copied_Suc [of d s n m]
      by (simp add: add.assoc)
  qed
qed simp

lemma cstr_copied_prefix:
  assumes "cstr m s str" "k \<le> length str" "k < 2 ^ 32"
  shows "cstr ((copied m d s k)(d + of_nat k := 0)) d (take k str)"
proof -
  have "bytes_at ((copied m d s k)(d + of_nat k := 0)) d k = bytes_at (copied m d s k) d k"
    using assms(3) by (auto simp: bytes_at_def of_nat_eq_u32)
  also have "\<dots> = bytes_at m s k" using assms(3) by (simp add: bytes_at_copied)
  also have "\<dots> = take k (bytes_at m s (length str))"
    using assms(2) by (simp add: bytes_at_def take_map)
  finally show ?thesis using assms(1,2) by (auto simp: cstr_bytes_at min_absorb2 dest: in_set_takeD)
qed

lemma cstr_cong:
  "(\<And>k. k \<le> length s \<Longrightarrow> m' (a + of_nat k) = m (a + of_nat k)) \<Longrightarrow> cstr m' a s = cstr m a s"
proof -
  assume "\<And>k. k \<le> length s \<Longrightarrow> m' (a + of_nat k) = m (a + of_nat k)"
  then have "bytes_at m' a (length s) = bytes_at m a (length s)"
    "m' (a + of_nat (length s)) = m (a + of_nat (length s))" by (simp_all add: bytes_at_def)
  then show ?thesis by (simp add: cstr_bytes_at)
qed

lemma copied_snoc:
  assumes "n < 2 ^ 32"
  shows "copied m d s (Suc n) = (copied m d s n)(d + of_nat n := m (s + of_nat n))"
proof
  fix x
  show "copied m d s (Suc n) x = ((copied m d s n)(d + of_nat n := m (s + of_nat n))) x"
    by (auto simp: copied_def less_Suc_eq offset_eq [OF assms])
qed

lemma copied_source:
  assumes "length str < unat (d - s)" "k \<le> j" "j \<le> length str"
  shows "((copied m d s k)(d + of_nat k := v)) (s + of_nat j) = m (s + of_nat j)"
proof -
  have j: "j < 2 ^ 32" "k < 2 ^ 32" using assms unat_u32_lt [of "d - s"] by auto
  have ne: "s + of_nat j \<noteq> d + of_nat i" if "i \<le> k" for i
  proof
    assume "s + of_nat j = d + of_nat i"
    then have "d - s = of_nat j - of_nat i" by (simp add: algebra_simps)
    then have "d - s = of_nat (j - i)" using that assms by (simp add: of_nat_diff)
    then have "unat (d - s) = j - i" using j by (simp add: unat_of_nat_lt)
    then show False using assms by simp
  qed
  have "\<not> unat (s + of_nat j - d) < k"
  proof
    assume l: "unat (s + of_nat j - d) < k"
    show False using ne [of "unat (s + of_nat j - d)"] l by (simp add: word_unat_inverse)
  qed
  then show ?thesis using ne [of k] by (simp add: copied_def)
qed

lemma cstr_source_tail:
  assumes "cstr m s str" "length str < unat (d - s)" "k \<le> length str"
  shows "cstr ((copied m d s k)(d + of_nat k := v)) (s + of_nat k) (drop k str)"
proof -
  have "cstr ((copied m d s k)(d + of_nat k := v)) (s + of_nat k) (drop k str)
      = cstr m (s + of_nat k) (drop k str)"
  proof (rule cstr_cong)
    fix i assume "i \<le> length (drop k str)"
    then show "((copied m d s k)(d + of_nat k := v)) (s + of_nat k + of_nat i) = m (s + of_nat k + of_nat i)"
      using copied_source [OF assms(2), of k "k + i" m v] assms(3) by (simp add: add.assoc)
  qed
  then show ?thesis using cstr_tail [OF assms(1,3)] by simp
qed

lemma strlcpy_ok:
  assumes "cstr m src str" "length str < unat (dst - src)" "k = min (length str) (unat dsize - 1)"
  shows "strlcpy m dst src dsize = Some
    (if dsize = 0 then m else (copied m dst src k)(dst + of_nat k := 0), of_nat (length str))"
proof (cases "dsize = 0")
  case True
  then show ?thesis using assms by (simp add: strlcpy_def scan_nul_cstr)
next
  case False
  then have pos: "0 < unat dsize" by (simp add: unat_gt_0)
  show ?thesis
  proof (cases "length str < unat dsize - 1")
    case True
    have "copied m dst src (Suc (length str)) = (copied m dst src (length str))(dst + of_nat (length str) := 0)"
      using assms copied_snoc [of "length str" m dst src] unat_u32_lt [of "dst - src"]
      by (simp add: cstr_bytes_at)
    moreover have "\<not> unat dsize \<le> Suc (length str)" using True by linarith
    ultimately show ?thesis using True False assms
      by (simp add: strlcpy_def strlcpy_loop_copied Let_def)
  next
    case f: False
    then have k: "k = unat dsize - 1" "k \<le> length str" using assms by auto
    then have "scan_nul ((copied m dst src k)(dst + of_nat k := 0)) (src + of_nat k) = Some (src + of_nat (length str))"
      using scan_nul_cstr [OF cstr_source_tail [OF assms(1,2), of k 0]]
      by (simp add: of_nat_diff add.assoc)
    then show ?thesis using f False assms(1,2) k
      by (simp add: strlcpy_def strlcpy_loop_copied Let_def)
  qed
qed


lemma strlcat_loop_copied:
  "cstr m s str \<Longrightarrow> length str < unat (d - s) \<Longrightarrow>
   strlcat_loop m d s n = Some (copied m d s (min (length str) (unat n)),
     d + of_nat (min (length str) (unat n)), s + of_nat (length str))"
proof (induction str arbitrary: m d s n)
  case Nil
  then show ?case by (simp add: strlcat_loop.simps [of m d s n])
next
  case (Cons c str)
  have ne: "d \<noteq> s" using Cons.prems by auto
  have l: "length str < unat (d + 1 - (s + 1))" "length str < unat (d - (s + 1))"
    using Cons.prems unat_offset_Suc [OF ne] by auto
  show ?case
  proof (cases "n = 0")
    case True
    then show ?thesis using Cons.IH [of m "s + 1" d 0] Cons.prems l
      by (simp add: strlcat_loop.simps [of m d s 0] add.assoc)
  next
    case False
    then obtain k where k: "unat n = Suc k" "unat (n - 1) = k"
      by (metis unat_minus_one not0_implies_Suc diff_Suc_1 unat_0_iff)
    have "cstr (m(d := c)) (s + 1) str" using Cons.prems l(2) by (intro cstr_upd) auto
    then show ?thesis using Cons.IH [of "m(d := c)" "s + 1" "d + 1" "n - 1"] Cons.prems l(1) False k
        copied_Suc [of d s "min (length str) k" m, OF disjI2]
      by (simp add: strlcat_loop.simps [of m d s n] add.assoc)
  qed
qed

lemma strlcat_find_cstr:
  "cstr m a s \<Longrightarrow> strlcat_find n m a = a + of_nat (min n (length s))"
proof (induction n arbitrary: a s)
  case (Suc n)
  then show ?case by (cases s) (auto simp: add.assoc)
qed simp

lemma cstr_append:
  "bytes_at m a (length s) = s \<Longrightarrow> 0 \<notin> set s \<Longrightarrow> cstr m (a + of_nat (length s)) t \<Longrightarrow> cstr m a (s @ t)"
  by (induction s arbitrary: a) (auto simp: add.assoc)

lemma strlcat_ok:
  assumes "cstr m src s" "cstr m dst d" "length s < unat (dst + of_nat (length d) - src)"
    "length d < unat dsize" "k = min (length s) (unat dsize - length d - 1)"
  shows "strlcat m dst src dsize = Some
     ((copied m (dst + of_nat (length d)) src k)(dst + of_nat (length d) + of_nat k := 0),
      of_nat (length d + length s))"
proof -
  have ld: "unat (of_nat (length d) :: u32) = length d"
    using assms(4) unat_u32_lt [of dsize] by (simp add: unat_of_nat_lt)
  then have le: "(of_nat (length d) :: u32) \<le> dsize" using assms(4) by (simp add: word_le_nat_alt)
  have "unat (dsize - of_nat (length d)) = unat dsize - length d"
    using unat_sub [OF le] ld by simp
  moreover have "dsize - of_nat (length d) \<noteq> 0" using ld assms(4) by auto
  ultimately have n: "dsize - of_nat (length d) \<noteq> 0" "unat (dsize - of_nat (length d) - 1) = unat dsize - length d - 1"
    by (simp_all add: unat_minus_one)
  show ?thesis using assms n
    by (simp add: strlcat_def Let_def strlcat_find_cstr strlcat_loop_copied)
qed

lemma strlcat_full:
  assumes "cstr m src s" "cstr m dst d" "unat dsize \<le> length d"
  shows "strlcat m dst src dsize = Some (m, dsize + of_nat (length s))"
  using assms by (simp add: strlcat_def Let_def strlcat_find_cstr strlen_cstr word_unat_inverse min_absorb1)

text \<open>strlcpy on any NUL-terminated source returns the length of the source, leaves a
  NUL-terminated prefix of at most dsize - 1 characters at the destination (nothing
  when dsize is 0) and writes no byte beyond it.\<close>
theorem strlcpy_correct:
  assumes "cstr m src s" "length s < unat (dst - src)"
  shows "\<exists>m'. strlcpy m dst src dsize = Some (m', of_nat (length s)) \<and>
     (dsize \<noteq> 0 \<longrightarrow> cstr m' dst (take (unat dsize - 1) s)) \<and>
     (\<forall>x. min (unat dsize) (Suc (length s)) \<le> unat (x - dst) \<longrightarrow> m' x = m x)"
proof -
  define k where "k = min (length s) (unat dsize - 1)"
  have k32: "k < 2 ^ 32" using assms(2) unat_u32_lt [of "dst - src"] by (simp add: k_def)
  have "take k s = take (unat dsize - 1) s" by (simp add: k_def min_def)
  then have 1: "cstr ((copied m dst src k)(dst + of_nat k := 0)) dst (take (unat dsize - 1) s)"
    using cstr_copied_prefix [OF assms(1) _ k32, of dst] by (simp add: k_def)
  have "((copied m dst src k)(dst + of_nat k := 0)) x = m x"
    if "dsize \<noteq> 0" "min (unat dsize) (Suc (length s)) \<le> unat (x - dst)" for x
  proof -
    have "0 < unat dsize" using that(1) by (simp add: unat_gt_0)
    then have "k < unat (x - dst)" using that(2) by (auto simp: k_def)
    then show ?thesis using offset_eq [OF k32, of x dst] by (auto simp: copied_def)
  qed
  with 1 strlcpy_ok [OF assms k_def] show ?thesis by auto
qed

theorem strlcpy_correct_witness:
  "\<exists>m'. strlcpy ((\<lambda>_. 0)(10 := 97, 11 := 98)) 20 10 2 = Some (m', 2) \<and> cstr m' 20 [97]"
  using strlcpy_correct [of "(\<lambda>_. 0)(10 := 97, 11 := 98)" 10 "[97, 98]" 20 2]
  by fastforce

section \<open>String comparison\<close>

partial_function (option) strcmp_bytes :: "mem \<Rightarrow> addr \<Rightarrow> addr \<Rightarrow> int option" where
  "strcmp_bytes m s1 s2 =
     (let c1 = uint (m s1); c2 = uint (m s2)
      in if c1 \<noteq> 0 \<and> c1 = c2 then strcmp_bytes m (s1 + 1) (s2 + 1) else Some (c1 - c2))"

text \<open>Comparison of the bytes of two words that differ, in address order.\<close>

definition strcmp_word_le :: "u32 \<Rightarrow> u32 \<Rightarrow> int" where
  "strcmp_word_le c1 c2 =
     (let b1 = c1 AND 0xff; b2 = c2 AND 0xff in
      if b1 = 0 \<or> b1 \<noteq> b2 then sint b1 - sint b2 else
      let b1 = c1 AND 0xff00; b2 = c2 AND 0xff00 in
      if b1 = 0 \<or> b1 \<noteq> b2 then sint b1 - sint b2 else
      let c1 = signed_drop_bit 16 c1; c2 = signed_drop_bit 16 c2;
          b1 = c1 AND 0xff; b2 = c2 AND 0xff in
      if b1 = 0 \<or> b1 \<noteq> b2 then sint b1 - sint b2 else
      let b1 = c1 AND 0xff00; b2 = c2 AND 0xff00 in sint b1 - sint b2)"

definition strcmp_word_be :: "u32 \<Rightarrow> u32 \<Rightarrow> int" where
  "strcmp_word_be c1 c2 =
     (let b1 = signed_drop_bit 24 c1 AND 0xff; b2 = signed_drop_bit 24 c2 AND 0xff in
      if b1 = 0 \<or> b1 \<noteq> b2 then sint b1 - sint b2 else
      let b1 = signed_drop_bit 16 c1 AND 0xff; b2 = signed_drop_bit 16 c2 AND 0xff in
      if b1 = 0 \<or> b1 \<noteq> b2 then sint b1 - sint b2 else
      let b1 = c1 AND 0xff00; b2 = c2 AND 0xff00 in
      if b1 = 0 \<or> b1 \<noteq> b2 then sint b1 - sint b2 else
      let b1 = c1 AND 0xff; b2 = c2 AND 0xff in sint b1 - sint b2)"

definition strcmp_word :: "byte_order \<Rightarrow> u32 \<Rightarrow> u32 \<Rightarrow> int" where
  "strcmp_word bo c1 c2 = (case bo of LITTLE_ENDIAN \<Rightarrow> strcmp_word_le c1 c2
     | BIG_ENDIAN \<Rightarrow> strcmp_word_be c1 c2)"

partial_function (option) strcmp_words :: "byte_order \<Rightarrow> mem \<Rightarrow> addr \<Rightarrow> addr \<Rightarrow> int option" where
  "strcmp_words bo m s1 s2 =
     (let c1 = load_word bo m s1; c2 = load_word bo m s2;
          v0 = c1 - 0x01010101
      in if c1 \<noteq> c2 then Some (strcmp_word bo c1 c2)
         else if v0 AND 0x80808080 \<noteq> 0 \<and> v0 AND 0x80808080 AND NOT c1 \<noteq> 0 then Some 0
         else strcmp_words bo m (s1 + 4) (s2 + 4))"

definition strcmp :: "byte_order \<Rightarrow> mem \<Rightarrow> addr \<Rightarrow> addr \<Rightarrow> int option" where
  "strcmp bo m s1 s2 =
     (if (s1 OR s2) AND 3 \<noteq> 0 then strcmp_bytes m s1 s2 else strcmp_words bo m s1 s2)"

text \<open>The reference: the difference at the first position where the strings differ.\<close>

fun str_diff :: "u8 list \<Rightarrow> u8 list \<Rightarrow> int" where
  "str_diff [] [] = 0"
| "str_diff [] (d # ds) = - uint d"
| "str_diff (c # cs) [] = uint c"
| "str_diff (c # cs) (d # ds) = (if c = d then str_diff cs ds else uint c - uint d)"

lemma uint_eq_iff: "uint x = uint y \<longleftrightarrow> x = (y :: 'a::len word)"
  by (auto dest: unsigned_word_eqI)

lemma strcmp_bytes_diff:
  "cstr m a s \<Longrightarrow> cstr m b t \<Longrightarrow> strcmp_bytes m a b = Some (str_diff s t)"
proof (induction s t arbitrary: a b rule: str_diff.induct)
  case (4 c cs d ds)
  then show ?case by (auto simp: strcmp_bytes.simps [of m a b] Let_def uint_0_iff uint_eq_iff)
qed (auto simp: strcmp_bytes.simps [of m _ _] uint_0_iff)

lemma bytes_of_load:
  fixes m :: mem and a :: addr and bo
  defines "w \<equiv> load_word bo m a"
  shows "bo = LITTLE_ENDIAN \<Longrightarrow> w AND 0xff = ucast (m a)"
    "bo = LITTLE_ENDIAN \<Longrightarrow> w AND 0xff00 = push_bit 8 (ucast (m (a + 1)))"
    "bo = LITTLE_ENDIAN \<Longrightarrow> signed_drop_bit 16 w AND 0xff = ucast (m (a + 2))"
    "bo = LITTLE_ENDIAN \<Longrightarrow> signed_drop_bit 16 w AND 0xff00 = push_bit 8 (ucast (m (a + 3)))"
    "bo = BIG_ENDIAN \<Longrightarrow> signed_drop_bit 24 w AND 0xff = ucast (m a)"
    "bo = BIG_ENDIAN \<Longrightarrow> signed_drop_bit 16 w AND 0xff = ucast (m (a + 1))"
    "bo = BIG_ENDIAN \<Longrightarrow> w AND 0xff00 = push_bit 8 (ucast (m (a + 2)))"
    "bo = BIG_ENDIAN \<Longrightarrow> w AND 0xff = ucast (m (a + 3))"
proof -
  have ff: "(0xff :: u32) = mask 8" "(0xff00 :: u32) = push_bit 8 (mask 8)"
    by (simp_all add: mask_eq_exp_minus_1)
  show "bo = LITTLE_ENDIAN \<Longrightarrow> w AND 0xff = ucast (m a)"
    "bo = LITTLE_ENDIAN \<Longrightarrow> w AND 0xff00 = push_bit 8 (ucast (m (a + 1)))"
    "bo = LITTLE_ENDIAN \<Longrightarrow> signed_drop_bit 16 w AND 0xff = ucast (m (a + 2))"
    "bo = LITTLE_ENDIAN \<Longrightarrow> signed_drop_bit 16 w AND 0xff00 = push_bit 8 (ucast (m (a + 3)))"
    "bo = BIG_ENDIAN \<Longrightarrow> signed_drop_bit 24 w AND 0xff = ucast (m a)"
    "bo = BIG_ENDIAN \<Longrightarrow> signed_drop_bit 16 w AND 0xff = ucast (m (a + 1))"
    "bo = BIG_ENDIAN \<Longrightarrow> w AND 0xff00 = push_bit 8 (ucast (m (a + 2)))"
    "bo = BIG_ENDIAN \<Longrightarrow> w AND 0xff = ucast (m (a + 3))"
    unfolding w_def ff
    by (rule bit_word_eqI; auto simp: load_word_def bit_simps bit_signed_drop_bit_iff dest: bit_imp_le_length)+
qed

lemma load_word_eq_iff:
  "load_word bo m a = load_word bo m b \<longleftrightarrow>
   m a = m b \<and> m (a + 1) = m (b + 1) \<and> m (a + 2) = m (b + 2) \<and> m (a + 3) = m (b + 3)"
proof
  assume "load_word bo m a = load_word bo m b"
  then have "word_byte bo (load_word bo m a) k = word_byte bo (load_word bo m b) k" for k by simp
  moreover have "word_byte bo (load_word bo m x) 0 = m x" "word_byte bo (load_word bo m x) 1 = m (x + 1)"
    "word_byte bo (load_word bo m x) 2 = m (x + 2)" "word_byte bo (load_word bo m x) 3 = m (x + 3)" for x
    by (rule word_byte_load)+
  ultimately show "m a = m b \<and> m (a + 1) = m (b + 1) \<and> m (a + 2) = m (b + 2) \<and> m (a + 3) = m (b + 3)"
    by metis
qed (cases bo; simp add: load_word_def)


text \<open>The test for a zero byte in a word.\<close>

lemma byte_top_bit:
  fixes b h r :: int
  assumes "0 \<le> r" "r < 2 ^ n" "0 \<le> b" "b < 256"
  shows "bit (r + 2 ^ n * (b + 256 * h)) (n + 7) \<longleftrightarrow> 128 \<le> b"
proof -
  have "(r + 2 ^ n * (b + 256 * h)) div 2 ^ n = b + 256 * h" using assms by simp
  then have "(r + 2 ^ n * (b + 256 * h)) div 2 ^ (n + 7) = (b + 256 * h) div 128"
    by (simp add: power_add zdiv_zmult2_eq)
  also have "\<dots> = b div 128 + 2 * h"
    using div_mult_self2 [of 128 b "2 * h"] by simp
  finally have "(r + 2 ^ n * (b + 256 * h)) div 2 ^ (n + 7) = b div 128 + 2 * h" .
  moreover have "b div 128 = (if 128 \<le> b then 1 else 0)"
    using assms(3,4) by (auto intro: div_pos_pos_trivial int_div_pos_eq [of _ _ _ "b - 128"])
  ultimately show ?thesis by (simp add: bit_iff_odd)
qed

definition zero_byte_test :: "u32 \<Rightarrow> bool" where
  "zero_byte_test c \<longleftrightarrow> (let v0 = c - 0x01010101 in
     v0 AND 0x80808080 \<noteq> 0 \<and> v0 AND 0x80808080 AND NOT c \<noteq> 0)"

lemma nonzero_iff_bit: "x \<noteq> 0 \<longleftrightarrow> (\<exists>n. bit (x :: u32) n)"
  using bit_word_eqI [of x 0] by auto

lemma bit_0x80808080: "bit (0x80808080 :: u32) n \<longleftrightarrow> n \<in> {7, 15, 23, 31}"
proof -
  have m: "(0x80808080 :: u32) = 2 ^ 7 OR 2 ^ 15 OR 2 ^ 23 OR 2 ^ 31" by simp
  show ?thesis unfolding m by (simp only: bit_or_iff bit_exp_iff) auto
qed

lemma and_not_nonzero: "v AND M AND NOT c \<noteq> 0 \<longleftrightarrow> (\<exists>n. bit M n \<and> bit v n \<and> \<not> bit (c :: u32) n)"
proof -
  have "bit (v AND M AND NOT c) n \<longleftrightarrow> bit M n \<and> bit v n \<and> \<not> bit c n" for n
    by (auto simp: bit_and_iff bit_not_iff dest: bit_imp_le_length)
  then show ?thesis by (simp only: nonzero_iff_bit)
qed

lemma and_nonzero_absorb: "a AND b \<noteq> 0 \<and> a AND b AND d \<noteq> 0 \<longleftrightarrow> a AND b AND d \<noteq> (0 :: u32)"
  by (auto simp flip: and.assoc)

lemma zero_byte_test_bits:
  "zero_byte_test c \<longleftrightarrow> (\<exists>n\<in>{7, 15, 23, 31}. bit (c - 0x01010101) n \<and> \<not> bit c n)"
  unfolding zero_byte_test_def Let_def
  by (simp only: and_nonzero_absorb) (simp only: and_not_nonzero bit_0x80808080 Bex_def)

lemma zero_byte_test_iff:
  assumes c: "uint c = b0 + 256 * b1 + 65536 * b2 + 16777216 * b3"
    and r: "0 \<le> b0" "b0 < 256" "0 \<le> b1" "b1 < 256" "0 \<le> b2" "b2 < 256" "0 \<le> b3" "b3 < 256"
  shows "zero_byte_test c \<longleftrightarrow> b0 = 0 \<or> b1 = 0 \<or> b2 = 0 \<or> b3 = 0"
proof -
  define k where "k = uint c - 0x01010101"
  have "c - 0x01010101 = word_of_int k" by (simp add: k_def)
  then have V: "bit (c - 0x01010101) n \<longleftrightarrow> n < 32 \<and> bit k n" for n
    by (simp only: bit_word_of_int_iff) simp
  have C: "bit (uint c) n = bit c n" if "n < 32" for n using that by (simp add: bit_uint_iff)
  have bit_c: "bit c 7 \<longleftrightarrow> 128 \<le> b0" "bit c 15 \<longleftrightarrow> 128 \<le> b1" "bit c 23 \<longleftrightarrow> 128 \<le> b2" "bit c 31 \<longleftrightarrow> 128 \<le> b3"
    using r byte_top_bit [of 0 0 b0 "b1 + 256 * b2 + 65536 * b3"]
      byte_top_bit [of b0 8 b1 "b2 + 256 * b3"] byte_top_bit [of "b0 + 256 * b1" 16 b2 b3]
      byte_top_bit [of "b0 + 256 * b1 + 65536 * b2" 24 b3 0] C [of 7] C [of 15] C [of 23] C [of 31]
    by (simp_all add: c algebra_simps)
  have k: "k = b0 - 1 + 256 * (b1 - 1) + 65536 * (b2 - 1) + 16777216 * (b3 - 1)"
    by (simp add: k_def c)
  consider (z0) "b0 = 0" | (z1) "b0 \<ge> 1" "b1 = 0" | (z2) "b0 \<ge> 1" "b1 \<ge> 1" "b2 = 0"
    | (z3) "b0 \<ge> 1" "b1 \<ge> 1" "b2 \<ge> 1" "b3 = 0" | (nz) "b0 \<ge> 1" "b1 \<ge> 1" "b2 \<ge> 1" "b3 \<ge> 1"
    using r by linarith
  then show ?thesis
  proof cases
    case z0
    then have "bit k 7" using byte_top_bit [of 0 0 255 "b1 - 2 + 256 * (b2 - 1) + 65536 * (b3 - 1)"]
      by (simp add: k algebra_simps)
    then show ?thesis using z0 bit_c V [of 7] by (simp add: zero_byte_test_bits)
  next
    case z1
    then have "bit k 15" using byte_top_bit [of "b0 - 1" 8 255 "b2 - 2 + 256 * (b3 - 1)"] r
      by (simp add: k algebra_simps)
    then show ?thesis using z1 bit_c V [of 15] by (simp add: zero_byte_test_bits)
  next
    case z2
    then have "bit k 23" using byte_top_bit [of "b0 - 1 + 256 * (b1 - 1)" 16 255 "b3 - 2"] r
      by (simp add: k algebra_simps)
    then show ?thesis using z2 bit_c V [of 23] by (simp add: zero_byte_test_bits)
  next
    case z3
    then have "bit k 31" using byte_top_bit [of "b0 - 1 + 256 * (b1 - 1) + 65536 * (b2 - 1)" 24 255 "- 1"] r
      by (simp add: k algebra_simps)
    then show ?thesis using z3 bit_c V [of 31] by (simp add: zero_byte_test_bits)
  next
    case nz
    then have "bit k 7 \<longleftrightarrow> 128 \<le> b0 - 1" "bit k 15 \<longleftrightarrow> 128 \<le> b1 - 1"
        "bit k 23 \<longleftrightarrow> 128 \<le> b2 - 1" "bit k 31 \<longleftrightarrow> 128 \<le> b3 - 1"
      using byte_top_bit [of 0 0 "b0 - 1" "b1 - 1 + 256 * (b2 - 1) + 65536 * (b3 - 1)"] r
        byte_top_bit [of "b0 - 1" 8 "b1 - 1" "b2 - 1 + 256 * (b3 - 1)"]
        byte_top_bit [of "b0 - 1 + 256 * (b1 - 1)" 16 "b2 - 1" "b3 - 1"]
        byte_top_bit [of "b0 - 1 + 256 * (b1 - 1) + 65536 * (b2 - 1)" 24 "b3 - 1" 0]
      by (simp_all add: k algebra_simps)
    then show ?thesis using nz bit_c V by (auto simp: zero_byte_test_bits)
  qed
qed


lemma or_push_bit_add:
  "(\<And>k. bit x k \<Longrightarrow> k < n) \<Longrightarrow> x OR push_bit n y = x + push_bit n (y :: u32)"
  by (rule disjunctive_add [symmetric]) (auto simp: bit_push_bit_iff not_le [symmetric])

lemma load_word_sum:
  "load_word LITTLE_ENDIAN m a = word_of_int (uint (m a) + 256 * uint (m (a + 1))
     + 65536 * uint (m (a + 2)) + 16777216 * uint (m (a + 3)))"
  "load_word BIG_ENDIAN m a = word_of_int (uint (m (a + 3)) + 256 * uint (m (a + 2))
     + 65536 * uint (m (a + 1)) + 16777216 * uint (m a))"
proof -
  have u: "(ucast b :: u32) = word_of_int (uint b)" for b :: u8 by simp
  have p: "push_bit k (word_of_int i :: u32) = word_of_int (2 ^ k * i)" for k i
    by (simp add: push_bit_eq_mult mult.commute)
  have e: "ucast b0 OR push_bit 8 (ucast b1) OR push_bit 16 (ucast b2) OR push_bit 24 (ucast b3)
      = (word_of_int (uint b0 + 256 * uint b1 + 65536 * uint b2 + 16777216 * uint b3) :: u32)"
    for b0 b1 b2 b3 :: u8
  proof -
    have "ucast b0 OR push_bit 8 (ucast b1) OR push_bit 16 (ucast b2) OR push_bit 24 (ucast b3)
       = ((ucast b0 + push_bit 8 (ucast b1)) + push_bit 16 (ucast b2)) + push_bit 24 (ucast b3 :: u32)"
      by (subst or_push_bit_add [symmetric], auto simp: bit_simps or.assoc dest: bit_imp_le_length)+
    then show ?thesis unfolding u p by simp
  qed
  show "load_word LITTLE_ENDIAN m a = word_of_int (uint (m a) + 256 * uint (m (a + 1))
     + 65536 * uint (m (a + 2)) + 16777216 * uint (m (a + 3)))"
  "load_word BIG_ENDIAN m a = word_of_int (uint (m (a + 3)) + 256 * uint (m (a + 2))
     + 65536 * uint (m (a + 1)) + 16777216 * uint (m a))"
    by (simp_all add: load_word_def e)
qed

lemma uint_u8: "0 \<le> uint (b :: u8)" "uint (b :: u8) < 256"
  using uint_lt2p [of b] by simp_all

lemma uint_bytes:
  "uint (word_of_int (uint b0 + 256 * uint b1 + 65536 * uint b2 + 16777216 * uint b3) :: u32)
     = uint (b0 :: u8) + 256 * uint (b1 :: u8) + 65536 * uint (b2 :: u8) + 16777216 * uint (b3 :: u8)"
  using uint_u8 [of b0] uint_u8 [of b1] uint_u8 [of b2] uint_u8 [of b3]
  by (simp only: uint_word_of_int) simp

lemma zero_byte_test_load:
  "zero_byte_test (load_word bo m a) \<longleftrightarrow> m a = 0 \<or> m (a + 1) = 0 \<or> m (a + 2) = 0 \<or> m (a + 3) = 0"
proof (cases bo)
  case LITTLE_ENDIAN
  show ?thesis
    unfolding LITTLE_ENDIAN load_word_sum zero_byte_test_iff [OF uint_bytes uint_u8 uint_u8 uint_u8 uint_u8]
    by (simp add: uint_0_iff)
next
  case BIG_ENDIAN
  show ?thesis
    unfolding BIG_ENDIAN load_word_sum zero_byte_test_iff [OF uint_bytes uint_u8 uint_u8 uint_u8 uint_u8]
    by (auto simp: uint_0_iff)
qed

text \<open>One byte of the comparison.\<close>

lemma str_diff_step:
  assumes "cstr m a s" "cstr m b t"
  shows "m a = 0 \<or> m a \<noteq> m b \<Longrightarrow> str_diff s t = uint (m a) - uint (m b)"
    "m a \<noteq> 0 \<Longrightarrow> m a = m b \<Longrightarrow> str_diff s t = str_diff (tl s) (tl t) \<and>
       cstr m (a + 1) (tl s) \<and> cstr m (b + 1) (tl t) \<and> length (tl s) < length s"
  using assms by (cases s; cases t; auto)+

lemma sint_ucast_u8: "sint (ucast (b :: u8) :: u32) = uint b"
  "sint (push_bit 8 (ucast (b :: u8)) :: u32) = 256 * uint b"
proof -
  have p: "push_bit 8 (ucast b) = (word_of_int (256 * uint b) :: u32)"
    by (simp add: push_bit_eq_mult mult.commute)
  show "sint (push_bit 8 (ucast b) :: u32) = 256 * uint b"
    unfolding p using uint_u8 [of b] by (intro sint_word_of_int_32) (auto intro: order_trans [of _ 0])
  have u: "(ucast b :: u32) = word_of_int (uint b)" by simp
  show "sint (ucast b :: u32) = uint b"
    unfolding u using uint_u8 [of b] by (intro sint_word_of_int_32) (auto intro: order_trans [of _ 0])
qed

lemma ucast_u8_inj:
  "(ucast (b :: u8) :: u32) = ucast c \<longleftrightarrow> b = c" "(ucast (b :: u8) :: u32) = 0 \<longleftrightarrow> b = 0"
  "push_bit 8 (ucast (b :: u8) :: u32) = push_bit 8 (ucast c) \<longleftrightarrow> b = c"
  "push_bit 8 (ucast (b :: u8) :: u32) = 0 \<longleftrightarrow> b = 0"
proof -
  have s: "x = y \<longleftrightarrow> sint x = sint y" for x y :: u32 by (auto dest: signed_word_eqI)
  show "(ucast b :: u32) = ucast c \<longleftrightarrow> b = c" "(ucast b :: u32) = 0 \<longleftrightarrow> b = 0"
    "push_bit 8 (ucast b :: u32) = push_bit 8 (ucast c) \<longleftrightarrow> b = c"
    "push_bit 8 (ucast b :: u32) = 0 \<longleftrightarrow> b = 0"
    by (simp_all only: s sint_ucast_u8 uint_eq_iff mult_cancel_left signed_0 uint_0_iff mult_eq_0_iff) simp_all
qed

lemma sgn_scale: "sgn (256 * x - 256 * y) = sgn (x - y :: int)"
  by (simp add: sgn_if)

text \<open>Four bytes of the comparison, as the word loop takes them.\<close>

lemma str_diff_4:
  assumes s: "cstr m a s" "cstr m b t"
  defines "e \<equiv> \<lambda>k. m (a + k) \<noteq> 0 \<and> m (a + k) = m (b + k)"
    and "d \<equiv> \<lambda>k. uint (m (a + k)) - uint (m (b + k))"
  shows "\<not> e 0 \<Longrightarrow> str_diff s t = d 0" "e 0 \<Longrightarrow> \<not> e 1 \<Longrightarrow> str_diff s t = d 1"
    "e 0 \<Longrightarrow> e 1 \<Longrightarrow> \<not> e 2 \<Longrightarrow> str_diff s t = d 2"
    "e 0 \<Longrightarrow> e 1 \<Longrightarrow> e 2 \<Longrightarrow> \<not> e 3 \<Longrightarrow> str_diff s t = d 3"
    "e 0 \<Longrightarrow> e 1 \<Longrightarrow> e 2 \<Longrightarrow> e 3 \<Longrightarrow> \<exists>s' t'. str_diff s t = str_diff s' t' \<and> length s' < length s \<and>
       cstr m (a + 4) s' \<and> cstr m (b + 4) t'"
proof -
  note 0 = str_diff_step [OF s]
  show "\<not> e 0 \<Longrightarrow> str_diff s t = d 0" using 0(1) by (auto simp: e_def d_def)
  have 1: "e 0 \<Longrightarrow> str_diff s t = str_diff (tl s) (tl t) \<and>
      cstr m (a + 1) (tl s) \<and> cstr m (b + 1) (tl t) \<and> length (tl s) < length s"
    using 0(2) by (auto simp: e_def)
  show "e 0 \<Longrightarrow> \<not> e 1 \<Longrightarrow> str_diff s t = d 1"
    using 1 str_diff_step(1) [of m "a + 1" "tl s" "b + 1" "tl t"] by (auto simp: e_def d_def)
  have 2: "e 0 \<Longrightarrow> e 1 \<Longrightarrow> str_diff s t = str_diff (tl (tl s)) (tl (tl t)) \<and>
      cstr m (a + 2) (tl (tl s)) \<and> cstr m (b + 2) (tl (tl t)) \<and> length (tl (tl s)) < length s"
    using 1 str_diff_step(2) [of m "a + 1" "tl s" "b + 1" "tl t"] by (auto simp: e_def add.assoc)
  show "e 0 \<Longrightarrow> e 1 \<Longrightarrow> \<not> e 2 \<Longrightarrow> str_diff s t = d 2"
    using 2 str_diff_step(1) [of m "a + 2" "tl (tl s)" "b + 2" "tl (tl t)"] by (auto simp: e_def d_def)
  have 3: "e 0 \<Longrightarrow> e 1 \<Longrightarrow> e 2 \<Longrightarrow> str_diff s t = str_diff (tl (tl (tl s))) (tl (tl (tl t))) \<and>
      cstr m (a + 3) (tl (tl (tl s))) \<and> cstr m (b + 3) (tl (tl (tl t))) \<and> length (tl (tl (tl s))) < length s"
    using 2 str_diff_step(2) [of m "a + 2" "tl (tl s)" "b + 2" "tl (tl t)"] by (auto simp: e_def add.assoc)
  show "e 0 \<Longrightarrow> e 1 \<Longrightarrow> e 2 \<Longrightarrow> \<not> e 3 \<Longrightarrow> str_diff s t = d 3"
    using 3 str_diff_step(1) [of m "a + 3" "tl (tl (tl s))" "b + 3" "tl (tl (tl t))"] by (auto simp: e_def d_def)
  show "e 0 \<Longrightarrow> e 1 \<Longrightarrow> e 2 \<Longrightarrow> e 3 \<Longrightarrow> \<exists>s' t'. str_diff s t = str_diff s' t' \<and> length s' < length s \<and>
       cstr m (a + 4) s' \<and> cstr m (b + 4) t'"
    using 3 str_diff_step(2) [of m "a + 3" "tl (tl (tl s))" "b + 3" "tl (tl (tl t))"]
    by (intro exI [of _ "tl (tl (tl (tl s)))"] exI [of _ "tl (tl (tl (tl t)))"]) (auto simp: e_def add.assoc)
qed

lemma strcmp_word_sgn:
  assumes s: "cstr m a s" "cstr m b t" and ne: "load_word bo m a \<noteq> load_word bo m b"
  shows "sgn (strcmp_word bo (load_word bo m a) (load_word bo m b)) = sgn (str_diff s t)"
proof -
  have d: "\<not> (m a = m b \<and> m (a + 1) = m (b + 1) \<and> m (a + 2) = m (b + 2) \<and> m (a + 3) = m (b + 3))"
    using ne unfolding load_word_eq_iff .
  note bytes = bytes_of_load ucast_u8_inj sint_ucast_u8 sgn_scale
  show ?thesis
    using d str_diff_4 [OF s]
    by (cases bo) (auto simp: strcmp_word_def strcmp_word_le_def strcmp_word_be_def Let_def bytes)
qed

lemma strcmp_words_sgn:
  "cstr m a s \<Longrightarrow> cstr m b t \<Longrightarrow>
   \<exists>r. strcmp_words bo m a b = Some r \<and> sgn r = sgn (str_diff s t)"
proof (induction "length s" arbitrary: a b s t rule: less_induct)
  case less
  note step = strcmp_words.simps [of bo m a b, unfolded Let_def, folded zero_byte_test_def [unfolded Let_def]]
  show ?case
  proof (cases "load_word bo m a = load_word bo m b")
    case False
    then show ?thesis using strcmp_word_sgn [OF less.prems False] by (simp add: step)
  next
    case True
    then have eq: "m a = m b" "m (a + 1) = m (b + 1)" "m (a + 2) = m (b + 2)" "m (a + 3) = m (b + 3)"
      by (simp_all add: load_word_eq_iff)
    show ?thesis
    proof (cases "zero_byte_test (load_word bo m a)")
      case z: True
      then have "str_diff s t = 0"
        using eq str_diff_4 [OF less.prems] unfolding zero_byte_test_load by auto
      then show ?thesis using True z by (simp add: step)
    next
      case nz: False
      then obtain s' t' where "str_diff s t = str_diff s' t'" "length s' < length s"
          "cstr m (a + 4) s'" "cstr m (b + 4) t'"
        using eq str_diff_4(5) [OF less.prems] unfolding zero_byte_test_load by auto
      then show ?thesis using less.hyps [of s' "a + 4" "b + 4" t'] True nz by (simp add: step)
    qed
  qed
qed

lemma str_diff_sign:
  "0 \<notin> set s \<Longrightarrow> 0 \<notin> set t \<Longrightarrow> str_diff s t = 0 \<longleftrightarrow> s = t"
  "0 \<notin> set s \<Longrightarrow> 0 \<notin> set t \<Longrightarrow> str_diff s t < 0 \<longleftrightarrow> (s, t) \<in> lexord {(x, y). x < y}"
  by (induction s t rule: str_diff.induct)
    (auto simp: word_less_def uint_eq_iff uint_0_iff not_less less_le)

text \<open>strcmp, whether it compares bytes or, for aligned operands, whole words in
  either byte order, returns on any two strings; the result is 0 exactly for equal
  strings and negative exactly when the first string precedes the second in
  lexicographic order of unsigned bytes.\<close>
theorem strcmp_correct:
  assumes "cstr m a s" "cstr m b t"
  shows "\<exists>r. strcmp bo m a b = Some r \<and> (r = 0 \<longleftrightarrow> s = t) \<and>
    (r < 0 \<longleftrightarrow> (s, t) \<in> lexord {(x, y). x < y})"
proof -
  have "0 \<notin> set s" "0 \<notin> set t" using assms by (auto simp: cstr_bytes_at)
  note sg = str_diff_sign [OF this]
  obtain r where r: "strcmp bo m a b = Some r" "sgn r = sgn (str_diff s t)"
    using strcmp_words_sgn [OF assms, of bo] strcmp_bytes_diff [OF assms] by (cases "(a OR b) AND 3 = 0") (auto simp: strcmp_def)
  then have "r = 0 \<longleftrightarrow> str_diff s t = 0" "r < 0 \<longleftrightarrow> str_diff s t < 0"
    by (metis sgn_0_0, metis sgn_less)
  then show ?thesis using r sg by auto
qed

theorem strcmp_correct_witness:
  "\<exists>r. strcmp BIG_ENDIAN ((\<lambda>_. 0)(12 := 97, 20 := 98)) 12 20 = Some r \<and> r < 0"
  using strcmp_correct [of "(\<lambda>_. 0)(12 := 97, 20 := 98)" 12 "[97]" 20 "[98]" BIG_ENDIAN]
  by fastforce

fun strncmp_loop :: "nat \<Rightarrow> mem \<Rightarrow> addr \<Rightarrow> addr \<Rightarrow> int" where
  "strncmp_loop 0 m s1 s2 = 0"
| "strncmp_loop (Suc n) m s1 s2 =
     (if m s1 \<noteq> m s2 then uint (m s1) - uint (m s2)
      else if m s1 = 0 then 0 else strncmp_loop n m (s1 + 1) (s2 + 1))"

definition strncmp :: "mem \<Rightarrow> addr \<Rightarrow> addr \<Rightarrow> u32 \<Rightarrow> int" where
  "strncmp m s1 s2 n = (if n = 0 then 0 else strncmp_loop (unat n) m s1 s2)"

definition tolower :: "int \<Rightarrow> int" where
  "tolower c = c + 0x20 * (if 65 \<le> c \<and> c \<le> 90 then 1 else 0)"

partial_function (option) strcasecmp :: "mem \<Rightarrow> addr \<Rightarrow> addr \<Rightarrow> int option" where
  "strcasecmp m us1 us2 =
     (if tolower (uint (m us1)) = tolower (uint (m us2)) then
        (if m us1 = 0 then Some 0 else strcasecmp m (us1 + 1) (us2 + 1))
      else Some (tolower (uint (m us1)) - tolower (uint (m us2))))"

fun strncasecmp_loop :: "nat \<Rightarrow> mem \<Rightarrow> addr \<Rightarrow> addr \<Rightarrow> int" where
  "strncasecmp_loop 0 m us1 us2 = 0"
| "strncasecmp_loop (Suc n) m us1 us2 =
     (if tolower (uint (m us1)) \<noteq> tolower (uint (m us2))
      then tolower (uint (m us1)) - tolower (uint (m us2))
      else if m us1 = 0 then 0 else strncasecmp_loop n m (us1 + 1) (us2 + 1))"

definition strncasecmp :: "mem \<Rightarrow> addr \<Rightarrow> addr \<Rightarrow> u32 \<Rightarrow> int" where
  "strncasecmp m s1 s2 n = strncasecmp_loop (unat n) m s1 s2"

text \<open>
  \<^verbatim>\<open>strstr\<close>: the inner loop looks for the first character of the
  needle (NULL is returned at the end of the haystack), the outer one compares
  the rest.
\<close>

partial_function (option) strstr_inner :: "mem \<Rightarrow> u8 \<Rightarrow> addr \<Rightarrow> addr option option" where
  "strstr_inner m c s =
     (if m s = 0 then Some None
      else if m s \<noteq> c then strstr_inner m c (s + 1) else Some (Some (s + 1)))"

partial_function (option) strstr_outer :: "mem \<Rightarrow> u8 \<Rightarrow> addr \<Rightarrow> u32 \<Rightarrow> addr \<Rightarrow> addr option" where
  "strstr_outer m c fnd len s =
     (case strstr_inner m c s of
        None \<Rightarrow> None
      | Some None \<Rightarrow> Some 0
      | Some (Some s') \<Rightarrow>
          (if strncmp m s' fnd len \<noteq> 0 then strstr_outer m c fnd len s' else Some (s' - 1)))"

definition strstr :: "mem \<Rightarrow> addr \<Rightarrow> addr \<Rightarrow> addr option" where
  "strstr m s fnd =
     (if m fnd \<noteq> 0 then
        (case strlen m (fnd + 1) of None \<Rightarrow> None
         | Some len \<Rightarrow> strstr_outer m (m fnd) (fnd + 1) len s)
      else Some s)"

partial_function (option) in_delim :: "mem \<Rightarrow> u8 \<Rightarrow> addr \<Rightarrow> bool option" where
  "in_delim m c spanp =
     (if m spanp = 0 then Some False
      else if c = m spanp then Some True else in_delim m c (spanp + 1))"

partial_function (option) in_delim_or_nul :: "mem \<Rightarrow> u8 \<Rightarrow> addr \<Rightarrow> bool option" where
  "in_delim_or_nul m c spanp =
     (if m spanp = c then Some True
      else if m spanp \<noteq> 0 then in_delim_or_nul m c (spanp + 1) else Some False)"

partial_function (option) strtok_skip :: "mem \<Rightarrow> addr \<Rightarrow> addr \<Rightarrow> addr option" where
  "strtok_skip m delim s =
     (case in_delim m (m s) delim of None \<Rightarrow> None
      | Some found \<Rightarrow> if found then strtok_skip m delim (s + 1) else Some s)"

partial_function (option) strtok_scan :: "mem \<Rightarrow> addr \<Rightarrow> addr \<Rightarrow> addr option" where
  "strtok_scan m delim s =
     (case in_delim_or_nul m (m s) delim of None \<Rightarrow> None
      | Some found \<Rightarrow> if found then Some s else strtok_scan m delim (s + 1))"

text \<open>The result is the new memory, the token and the new value of \<^verbatim>\<open>*last\<close>.\<close>

definition strtok_r :: "mem \<Rightarrow> addr \<Rightarrow> addr \<Rightarrow> addr \<Rightarrow> (mem \<times> addr \<times> addr) option" where
  "strtok_r m s0 delim last0 =
     (let s = (if s0 = 0 then last0 else s0) in
      if s = 0 then Some (m, 0, last0) else
      (case strtok_skip m delim s of None \<Rightarrow> None
       | Some p \<Rightarrow>
           if m p = 0 then Some (m, 0, 0)
           else (case strtok_scan m delim (p + 1) of None \<Rightarrow> None
                 | Some q \<Rightarrow>
                     if m q = 0 then Some (m, p, 0)
                     else Some (m(q := 0), p, q + 1))))"

lemma strncmp_loop_prefix:
  "cstr m a s \<Longrightarrow> cstr m b t \<Longrightarrow> strncmp_loop (length t) m a b = 0 \<longleftrightarrow> (\<exists>u. s = t @ u)"
proof (induction t arbitrary: a b s)
  case (Cons d t)
  then show ?case by (cases s) (auto simp: uint_eq_iff uint_0_iff)
qed simp

text \<open>Characters up to the first one that satisfies a test; the C loops over delimiters.\<close>

lemma in_delim_cstr: "cstr m d ds \<Longrightarrow> in_delim m c d = Some (c \<in> set ds)"
proof (induction ds arbitrary: d)
  case Nil
  then show ?case by (simp add: in_delim.simps [of m c d])
next
  case (Cons x ds)
  then show ?case by (simp add: in_delim.simps [of m c d])
qed

lemma in_delim_or_nul_cstr: "cstr m d ds \<Longrightarrow> in_delim_or_nul m c d = Some (c \<in> set ds \<or> c = 0)"
proof (induction ds arbitrary: d)
  case Nil
  then show ?case by (auto simp: in_delim_or_nul.simps [of m c d])
next
  case (Cons x ds)
  then show ?case by (auto simp: in_delim_or_nul.simps [of m c d])
qed

lemma strtok_skip_cstr:
  assumes d: "cstr m d ds"
  shows "cstr m a s \<Longrightarrow> strtok_skip m d a = Some (a + of_nat (length (takeWhile (\<lambda>c. c \<in> set ds) s)))"
proof (induction s arbitrary: a)
  case Nil
  have "0 \<notin> set ds" using d by (simp add: cstr_bytes_at)
  then show ?case using Nil by (simp add: strtok_skip.simps [of m d a] in_delim_cstr [OF d])
next
  case (Cons c s)
  then show ?case by (simp add: strtok_skip.simps [of m d a] in_delim_cstr [OF d] add.assoc)
qed

lemma strtok_scan_cstr:
  assumes d: "cstr m d ds"
  shows "cstr m a s \<Longrightarrow> strtok_scan m d a = Some (a + of_nat (length (takeWhile (\<lambda>c. c \<notin> set ds) s)))"
proof (induction s arbitrary: a)
  case Nil
  then show ?case by (simp add: strtok_scan.simps [of m d a] in_delim_or_nul_cstr [OF d])
next
  case (Cons c s)
  then show ?case by (simp add: strtok_scan.simps [of m d a] in_delim_or_nul_cstr [OF d] add.assoc)
qed


lemma cstr_length: "cstr m a s \<Longrightarrow> length s < 2 ^ 32"
proof (rule ccontr)
  assume c: "cstr m a s" and "\<not> length s < 2 ^ 32"
  then obtain j where j: "length s = j + 2 ^ 32" by (metis le_add_diff_inverse2 not_less)
  have "(of_nat (length s) :: u32) = of_nat j"
    unfolding j of_nat_add by simp
  then have "m (a + of_nat j) = 0" using c by (simp add: cstr_bytes_at)
  moreover have "m (a + of_nat j) = s ! j"
    using c j by (metis (no_types, lifting) cstr_bytes_at bytes_at_def add_0 less_add_same_cancel1
        nth_map_upt diff_zero zero_less_power zero_less_numeral)
  moreover have "s ! j \<in> set s" using j by simp
  ultimately show False using c by (auto simp: cstr_bytes_at)
qed

fun first_occ :: "'a list \<Rightarrow> 'a list \<Rightarrow> nat option" where
  "first_occ t [] = (if t = [] then Some 0 else None)"
| "first_occ t (c # s) =
     (if take (length t) (c # s) = t then Some 0 else map_option Suc (first_occ t s))"

lemma first_occ_None: "first_occ t s = None \<longleftrightarrow> (\<forall>u v. s \<noteq> u @ t @ v)"
proof (induction s)
  case (Cons c s)
  have "take (length t) (c # s) = t \<longleftrightarrow> (\<exists>v. c # s = t @ v)"
    by (metis append_eq_conv_conj append_take_drop_id)
  then show ?case using Cons by (auto simp: Cons_eq_append_conv)
qed auto

lemma first_occ_Some:
  "first_occ t s = Some k \<Longrightarrow> (\<exists>u v. s = u @ t @ v \<and> length u = k) \<and>
     (\<forall>u v. s = u @ t @ v \<longrightarrow> k \<le> length u)"
proof (induction s arbitrary: k)
  case (Cons c s)
  have p: "take (length t) (c # s) = t \<longleftrightarrow> (\<exists>v. c # s = t @ v)"
    by (metis append_eq_conv_conj append_take_drop_id)
  show ?case
  proof (cases "take (length t) (c # s) = t")
    case True
    then show ?thesis using Cons.prems p by auto
  next
    case False
    then obtain j where j: "first_occ t s = Some j" "k = Suc j" using Cons.prems by auto
    then obtain u v where uv: "s = u @ t @ v" "length u = j" using Cons.IH by blast
    have "c # s = (c # u) @ t @ v" "length (c # u) = k" using uv j by simp_all
    moreover have "k \<le> length w" if "c # s = w @ t @ x" for w x
      using that False p j Cons.IH [OF j(1)] by (cases w) auto
    ultimately show ?thesis by blast
  qed
qed (auto split: if_splits)

lemma strstr_outer_cstr:
  assumes t: "cstr m b t" and c: "c \<noteq> 0"
  shows "cstr m a s \<Longrightarrow> strstr_outer m c b (of_nat (length t)) a =
     Some (case first_occ (c # t) s of None \<Rightarrow> 0 | Some k \<Rightarrow> a + of_nat k)"
proof (induction s arbitrary: a)
  case Nil
  then show ?case by (simp add: strstr_outer.simps [of m c b _ a] strstr_inner.simps [of m c a])
next
  case (Cons x s)
  then have x: "m a = x" "x \<noteq> 0" "cstr m (a + 1) s" by auto
  have len: "unat (of_nat (length t) :: u32) = length t"
    using cstr_length [OF t] by (simp add: unat_of_nat_lt)
  have IH: "strstr_outer m c b (of_nat (length t)) (a + 1) =
     Some (case first_occ (c # t) s of None \<Rightarrow> 0 | Some k \<Rightarrow> a + 1 + of_nat k)"
    by (rule Cons.IH) (rule x)
  show ?case
  proof (cases "x = c")
    case False
    then have "strstr_inner m c a = strstr_inner m c (a + 1)"
      using x by (simp add: strstr_inner.simps [of m c a])
    then have "strstr_outer m c b (of_nat (length t)) a = strstr_outer m c b (of_nat (length t)) (a + 1)"
      by (simp add: strstr_outer.simps [of m c b _ a] strstr_outer.simps [of m c b _ "a + 1"])
    then show ?thesis using IH False by (auto split: option.splits simp: add.assoc)
  next
    case True
    then have i: "strstr_inner m c a = Some (Some (a + 1))"
      using x by (simp add: strstr_inner.simps [of m c a])
    have e: "strncmp m (a + 1) b (of_nat (length t)) = 0 \<longleftrightarrow> take (length t) s = t"
      using strncmp_loop_prefix [OF x(3) t] len
      by (auto simp: strncmp_def append_eq_conv_conj) (metis append_take_drop_id)
    show ?thesis using IH True i e
      by (auto split: option.splits simp: strstr_outer.simps [of m c b _ a] add.assoc)
  qed
qed

text \<open>C31: strstr returns the address of the first occurrence of the second string in the
  first one, and NULL when there is none.\<close>
theorem strstr_first:
  assumes "cstr m a s" "cstr m b t"
  shows "strstr m a b = Some (case first_occ t s of None \<Rightarrow> 0 | Some k \<Rightarrow> a + of_nat k)"
proof (cases t)
  case Nil
  then show ?thesis using assms by (cases s) (simp_all add: strstr_def)
next
  case (Cons c t')
  then show ?thesis
    using assms strstr_outer_cstr [of m "b + 1" t' c a s] strlen_cstr [of m "b + 1" t']
    by (simp add: strstr_def)
qed

theorem strstr_first_witness:
  "strstr ((\<lambda>_. 0)(12 := 97, 13 := 98, 20 := 98)) 12 20 = Some 13"
  using strstr_first [of "(\<lambda>_. 0)(12 := 97, 13 := 98, 20 := 98)" 12 "[97, 98]" 20 "[98]"]
  by simp

text \<open>A call of \<^verbatim>\<open>strtok_r\<close> on a string.\<close>

lemma cstr_prefix_upd:
  assumes "cstr m a s" "k < length s"
  shows "cstr (m(a + of_nat k := 0)) a (take k s)"
proof -
  have k32: "k < 2 ^ 32" using assms cstr_length [OF assms(1)] by simp
  have "bytes_at (m(a + of_nat k := 0)) a k = bytes_at m a k"
    using k32 by (auto simp: bytes_at_def of_nat_eq_u32)
  also have "\<dots> = take k (bytes_at m a (length s))" using assms(2) by (simp add: bytes_at_def take_map)
  finally show ?thesis using assms by (auto simp: cstr_bytes_at dest: in_set_takeD)
qed


lemma cstr_upd_before:
  assumes "cstr m q (x # xs)"
  shows "cstr (m(q := v)) (q + 1) xs"
proof (rule cstr_upd)
  show "cstr m (q + 1) xs" using assms by simp
  have "length xs < 2 ^ 32 - 1" using cstr_length [OF assms] by simp
  moreover have "unat (q - (q + 1)) = 2 ^ 32 - 1"
    by (simp add: unsigned_minus_1_eq_mask mask_eq_exp_minus_1)
  ultimately show "length xs < unat (q - (q + 1))" by simp
qed

text \<open>C32: One call of strtok_r on a string: it skips the leading delimiters; if nothing
  is left it returns NULL and stores NULL; otherwise it returns the maximal run of
  non-delimiters as a string of its own, storing NULL if that run ends the string and
  else cutting the string at the delimiter and storing the address of the rest.\<close>
theorem strtok_r_step:
  assumes s: "cstr m s str" and d: "cstr m d ds" and s0: "s \<noteq> 0"
    and rest: "rest = dropWhile (\<lambda>c. c \<in> set ds) str"
    and tok: "tok = takeWhile (\<lambda>c. c \<notin> set ds) rest"
    and p: "p = s + of_nat (length str - length rest)" and q: "q = p + of_nat (length tok)"
  shows "(rest = [] \<longrightarrow> strtok_r m s d l = Some (m, 0, 0)) \<and>
    (rest \<noteq> [] \<and> tok = rest \<longrightarrow> strtok_r m s d l = Some (m, p, 0) \<and> cstr m p tok) \<and>
    (rest \<noteq> [] \<and> tok \<noteq> rest \<longrightarrow> strtok_r m s d l = Some (m(q := 0), p, q + 1) \<and>
       tok \<noteq> [] \<and> cstr (m(q := 0)) p tok \<and> cstr (m(q := 0)) (q + 1) (drop (Suc (length tok)) rest))"
proof -
  define k where "k = length (takeWhile (\<lambda>c. c \<in> set ds) str)"
  have k: "rest = drop k str" "k \<le> length str"
    unfolding k_def rest by (simp_all add: dropWhile_eq_drop length_takeWhile_le)
  have r: "cstr m p rest" using cstr_tail [OF s, of k] k p by simp
  have skip: "strtok_skip m d s = Some p" using strtok_skip_cstr [OF d s] k p by (simp add: k_def)
  have e: "m p = 0 \<longleftrightarrow> rest = []" using r by (cases rest) auto
  show ?thesis
  proof (cases rest)
    case Nil
    then show ?thesis using skip e s0 by (simp add: strtok_r_def Let_def)
  next
    case (Cons c cs)
    have c: "c \<notin> set ds" using Cons rest by (metis hd_dropWhile list.sel(1) list.distinct(1))
    then have t: "tok = c # takeWhile (\<lambda>c. c \<notin> set ds) cs" using tok Cons by simp
    have "strtok_scan m d (p + 1) = Some q"
      using strtok_scan_cstr [OF d, of "p + 1" cs] r Cons t q by (simp add: add.assoc)
    then have call: "strtok_r m s d l = (if m q = 0 then Some (m, p, 0) else Some (m(q := 0), p, q + 1))"
      using skip e s0 Cons by (simp add: strtok_r_def Let_def)
    have le: "length tok \<le> length rest" using tok by (simp add: length_takeWhile_le)
    then have tail: "cstr m q (drop (length tok) rest)" using cstr_tail [OF r le] q by simp
    have pre: "tok = take (length tok) rest" using tok by (metis takeWhile_eq_take)
    show ?thesis
    proof (cases "tok = rest")
      case True
      then show ?thesis using call tail r Cons by simp
    next
      case False
      then have lt: "length tok < length rest" using pre le by (metis take_all not_le)
      then obtain x xs where x: "drop (length tok) rest = x # xs" by (metis Cons_nth_drop_Suc)
      then have xs: "xs = drop (Suc (length tok)) rest" by (metis tl_drop drop_Suc list.sel(3))
      have mq: "m q \<noteq> 0" using tail x by auto
      have "cstr (m(q := 0)) (q + 1) xs" using tail x by (intro cstr_upd_before [of _ _ x]) simp
      moreover have "cstr (m(q := 0)) p tok" using cstr_prefix_upd [OF r lt] pre q by simp
      moreover have "tok \<noteq> []" using t by simp
      ultimately show ?thesis using call mq False Cons unfolding xs by simp
    qed
  qed
qed

theorem strtok_r_step_witness:
  "\<exists>m'. strtok_r ((\<lambda>_. 0)(11 := 58, 12 := 97, 13 := 58, 14 := 97, 20 := 58)) 11 20 0 =
     Some (m', 12, 14) \<and> cstr m' 12 [97] \<and> cstr m' 14 [97]"
proof -
  let ?m = "(\<lambda>_. 0)(11 := 58, 12 := 97, 13 := 58, 14 := 97, 20 := 58) :: mem"
  have "cstr ?m 11 [58, 97, 58, 97]" "cstr ?m 20 [58]" by simp_all
  from strtok_r_step [OF this, of "[97, 58, 97]" "[97]" 12 13 0]
  have "strtok_r ?m 11 20 0 = Some (?m(13 := 0), 12, 13 + 1) \<and> cstr (?m(13 := 0)) 12 [97] \<and>
      cstr (?m(13 := 0)) (13 + 1) [97]" by (simp del: cstr.simps fun_upd_apply)
  then show ?thesis by (intro exI [of _ "?m(13 := 0)"]) (simp del: cstr.simps)
qed

end
