(* ===== verification/Spi.thy ===== *)
theory Spi
  imports Strings "HOL-Library.Monad_Syntax"
begin

text \<open>
  The SPI controller driver, dev/spi.c and the inline functions of
  include/dev/spi.h.  The bus is given by its word loads and byte stores; a
  poll that never sees the ready bit gives None.
\<close>

record 'd spi_bus =
  bus_lw :: "u32 \<Rightarrow> 'd \<Rightarrow> u32 \<times> 'd"
  bus_sb :: "u32 \<Rightarrow> u8 \<Rightarrow> 'd \<Rightarrow> 'd"

abbreviation "SPI_DATA \<equiv> 0 :: u32"
abbreviation "SPI_CTRL1 \<equiv> 1 :: u32"
abbreviation "SPI_CTRL2 \<equiv> 2 :: u32"

definition SPI_READY_MASK :: "byte_order \<Rightarrow> u32" where
  "SPI_READY_MASK bo = (case bo of LITTLE_ENDIAN \<Rightarrow> push_bit 8 1 | BIG_ENDIAN \<Rightarrow> push_bit 16 1)"

definition spi_slave_select :: "'d spi_bus \<Rightarrow> u32 \<Rightarrow> u8 \<Rightarrow> 'd \<Rightarrow> 'd" where
  "spi_slave_select bus port unt d = bus_sb bus (port + SPI_CTRL2) unt d"

definition spi_start_transaction :: "'d spi_bus \<Rightarrow> u32 \<Rightarrow> 'd \<Rightarrow> 'd" where
  "spi_start_transaction bus port d = bus_sb bus (port + SPI_CTRL1) 0 d"

partial_function (option) spi_wait :: "byte_order \<Rightarrow> 'd spi_bus \<Rightarrow> u32 \<Rightarrow> 'd \<Rightarrow> (u32 \<times> 'd) option" where
  "spi_wait bo bus port d =
     (let (c, d') = bus_lw bus (port + SPI_DATA) d
      in if c AND SPI_READY_MASK bo = 0 then spi_wait bo bus port d' else Some (c, d'))"

text \<open>One received byte is shifted into the word that is being assembled.\<close>

definition spi_shift :: "byte_order \<Rightarrow> u32 \<Rightarrow> u32 \<Rightarrow> u32" where
  "spi_shift bo w c = (case bo of
     LITTLE_ENDIAN \<Rightarrow> drop_bit 8 w OR push_bit 24 c
   | BIG_ENDIAN \<Rightarrow> push_bit 8 w OR drop_bit 24 c)"

fun spi_in_loop :: "byte_order \<Rightarrow> 'd spi_bus \<Rightarrow> u32 \<Rightarrow> nat \<Rightarrow> addr \<Rightarrow> u32 \<Rightarrow> mem \<Rightarrow> 'd \<Rightarrow> (mem \<times> 'd) option" where
  "spi_in_loop bo bus port 0 wp w m d =
     do {
       (c, d) \<leftarrow> spi_wait bo bus port d;
       Some (store_word bo m wp (spi_shift bo w c), d)
     }"
| "spi_in_loop bo bus port (Suc n) wp w m d =
     do {
       (c, d) \<leftarrow> spi_wait bo bus port d;
       let d = bus_sb bus (port + SPI_DATA) 0xff d;
       let w = spi_shift bo w c;
       if Suc n mod 4 = 0 then spi_in_loop bo bus port n (wp + 4) w (store_word bo m wp w) d
       else spi_in_loop bo bus port n wp w m d
     }"

definition spi_block_in :: "byte_order \<Rightarrow> 'd spi_bus \<Rightarrow> u32 \<Rightarrow> addr \<Rightarrow> nat \<Rightarrow> mem \<Rightarrow> 'd \<Rightarrow> (mem \<times> 'd) option" where
  "spi_block_in bo bus port buf len m d =
     (if len = 0 then Some (m, d)
      else spi_in_loop bo bus port (len - 1) buf 0 m (bus_sb bus (port + SPI_DATA) 0xff d))"

fun spi_out_loop :: "byte_order \<Rightarrow> 'd spi_bus \<Rightarrow> u32 \<Rightarrow> mem \<Rightarrow> addr \<Rightarrow> nat \<Rightarrow> 'd \<Rightarrow> 'd option" where
  "spi_out_loop bo bus port m cp 0 d = do { (_, d) \<leftarrow> spi_wait bo bus port d; Some d }"
| "spi_out_loop bo bus port m cp (Suc n) d =
     do {
       let outb = m cp;
       (_, d) \<leftarrow> spi_wait bo bus port d;
       spi_out_loop bo bus port m (cp + 1) n (bus_sb bus (port + SPI_DATA) outb d)
     }"

text \<open>The length is an int: a negative one sends nothing.\<close>

definition spi_block_out :: "byte_order \<Rightarrow> 'd spi_bus \<Rightarrow> u32 \<Rightarrow> mem \<Rightarrow> addr \<Rightarrow> u32 \<Rightarrow> 'd \<Rightarrow> 'd option" where
  "spi_block_out bo bus port m buf len d = spi_out_loop bo bus port m buf (nat (sint len)) d"

text \<open>At most 2047 polls, then the result is -1.\<close>

fun spi_poll :: "byte_order \<Rightarrow> 'd spi_bus \<Rightarrow> u32 \<Rightarrow> nat \<Rightarrow> 'd \<Rightarrow> int \<times> 'd" where
  "spi_poll bo bus port 0 d = (- 1, d)"
| "spi_poll bo bus port (Suc lim) d =
     (let (c, d) = bus_lw bus (port + SPI_DATA) d
      in if c AND SPI_READY_MASK bo = 0 then spi_poll bo bus port lim d
         else (case bo of LITTLE_ENDIAN \<Rightarrow> uint (c AND 0xff) | BIG_ENDIAN \<Rightarrow> uint (drop_bit 24 c), d))"

definition spi_byte :: "byte_order \<Rightarrow> 'd spi_bus \<Rightarrow> u32 \<Rightarrow> u8 \<Rightarrow> 'd \<Rightarrow> int \<times> 'd" where
  "spi_byte bo bus port out d = spi_poll bo bus port 2047 (bus_sb bus (port + SPI_DATA) out d)"

text \<open>Several bytes sent, their answers ignored.\<close>

definition spi_send :: "byte_order \<Rightarrow> 'd spi_bus \<Rightarrow> u32 \<Rightarrow> u8 list \<Rightarrow> 'd \<Rightarrow> 'd" where
  "spi_send bo bus port bs d = fold (\<lambda>b d. snd (spi_byte bo bus port b d)) bs d"

section \<open>A controller that works\<close>

text \<open>
  \<open>sl\<close> is the state of the slaves, \<open>rx\<close> the byte received last and \<open>dly\<close> the number of
  loads until the controller reports ready; \<open>slave\<close> is the exchange of one byte, \<open>start\<close> the
  effect of a new transaction and \<open>select\<close> that of the slave select register.  A store to the data register exchanges one byte and the
  controller is ready again within 2046 loads.
\<close>

definition spi_rx :: "byte_order \<Rightarrow> u32 \<Rightarrow> u8" where
  "spi_rx bo c = (case bo of LITTLE_ENDIAN \<Rightarrow> ucast c | BIG_ENDIAN \<Rightarrow> ucast (drop_bit 24 c))"

definition spi_ctl :: "byte_order \<Rightarrow> 'd spi_bus \<Rightarrow> u32 \<Rightarrow> (u8 \<Rightarrow> 's \<Rightarrow> u8 \<times> 's) \<Rightarrow> ('s \<Rightarrow> 's) \<Rightarrow> (u8 \<Rightarrow> 's \<Rightarrow> 's) \<Rightarrow> ('d \<Rightarrow> 's) \<Rightarrow> ('d \<Rightarrow> u8) \<Rightarrow> ('d \<Rightarrow> nat) \<Rightarrow> bool" where
  "spi_ctl bo bus port slave start select sl rx dly \<longleftrightarrow>
     (\<forall>d x. (rx (bus_sb bus (port + SPI_DATA) x d), sl (bus_sb bus (port + SPI_DATA) x d)) = slave x (sl d) \<and>
            dly (bus_sb bus (port + SPI_DATA) x d) < 2047) \<and>
     (\<forall>d. sl (bus_sb bus (port + SPI_CTRL1) 0 d) = start (sl d)) \<and>
     (\<forall>d u. sl (bus_sb bus (port + SPI_CTRL2) u d) = select u (sl d)) \<and>
     (\<forall>d c d'. bus_lw bus (port + SPI_DATA) d = (c, d') \<longrightarrow> sl d' = sl d \<and> rx d' = rx d \<and> dly d' = dly d - 1 \<and>
            (if dly d = 0 then c AND SPI_READY_MASK bo \<noteq> 0 \<and> spi_rx bo c = rx d else c AND SPI_READY_MASK bo = 0))"

text \<open>A run of exchanges: the bytes received.\<close>

fun xchg :: "(u8 \<Rightarrow> 's \<Rightarrow> u8 \<times> 's) \<Rightarrow> u8 list \<Rightarrow> 's \<Rightarrow> u8 list \<times> 's" where
  "xchg slave [] s = ([], s)"
| "xchg slave (b # bs) s = (let (r, s) = slave b s; (rs, s) = xchg slave bs s in (r # rs, s))"

lemma xchg_length [simp]: "length (fst (xchg slave bs s)) = length bs"
  by (induction bs arbitrary: s) (simp_all add: case_prod_beta Let_def)

lemma xchg_append:
  "xchg slave (as @ bs) s = (fst (xchg slave as s) @ fst (xchg slave bs (snd (xchg slave as s))),
     snd (xchg slave bs (snd (xchg slave as s))))"
  by (induction as arbitrary: s) (simp_all add: case_prod_beta Let_def)

section \<open>Single bytes\<close>

lemma spi_ctlD:
  assumes "spi_ctl bo bus port slave start select sl rx dly"
  shows "rx (bus_sb bus (port + SPI_DATA) x d) = fst (slave x (sl d))"
    "sl (bus_sb bus (port + SPI_DATA) x d) = snd (slave x (sl d))"
    "dly (bus_sb bus (port + SPI_DATA) x d) < 2047"
    "sl (spi_start_transaction bus port d) = start (sl d)" "sl (spi_slave_select bus port u d) = select u (sl d)"
    "bus_lw bus (port + SPI_DATA) d = (c, d') \<Longrightarrow> sl d' = sl d \<and> rx d' = rx d \<and> dly d' = dly d - 1 \<and>
      (if dly d = 0 then c AND SPI_READY_MASK bo \<noteq> 0 \<and> spi_rx bo c = rx d else c AND SPI_READY_MASK bo = 0)"
  using assms unfolding spi_ctl_def spi_start_transaction_def spi_slave_select_def by (metis fst_conv, metis snd_conv, blast+)

lemma spi_wait_ready:
  assumes ctl: "spi_ctl bo bus port slave start select sl rx dly"
  shows "\<exists>c d'. spi_wait bo bus port d = Some (c, d') \<and> spi_rx bo c = rx d \<and> sl d' = sl d \<and> rx d' = rx d \<and> dly d' = 0"
proof (induction "dly d" arbitrary: d)
  case 0
  obtain c d' where l: "bus_lw bus (port + SPI_DATA) d = (c, d')" by force
  then show ?case using spi_ctlD(6) [OF ctl l] 0 spi_wait.simps [of bo bus port d] by simp
next
  case (Suc n)
  obtain c d' where l: "bus_lw bus (port + SPI_DATA) d = (c, d')" by force
  note D = spi_ctlD(6) [OF ctl l]
  then have "n = dly d'" using Suc(2) by simp
  from Suc(1) [OF this] show ?case using D l Suc(2) spi_wait.simps [of bo bus port d] by auto
qed

lemma and_mask_lemma: "uint (ucast c :: u8) = uint (c AND 0xff :: u32)"
proof -
  have "c AND 0xff = take_bit 8 c" by (simp add: take_bit_eq_mask mask_eq_exp_minus_1)
  then show ?thesis by (simp add: unsigned_take_bit_eq unsigned_ucast_eq)
qed

lemma drop_byte_lemma: "uint (ucast (drop_bit 24 c) :: u8) = uint (drop_bit 24 c :: u32)"
proof -
  have "drop_bit 24 c = take_bit 8 (drop_bit 24 c)" for c :: u32
    by (rule bit_word_eqI) (auto simp: bit_simps dest: bit_imp_le_length)
  then have "drop_bit 24 c = take_bit 8 (drop_bit 24 c)" .
  then have "uint (drop_bit 24 c) = take_bit 8 (uint (drop_bit 24 c))" by (metis unsigned_take_bit_eq)
  then show ?thesis by (simp add: unsigned_ucast_eq)
qed

lemma spi_poll_ready:
  assumes ctl: "spi_ctl bo bus port slave start select sl rx dly"
  shows "dly d < lim \<Longrightarrow> \<exists>d'. spi_poll bo bus port lim d = (uint (rx d), d') \<and> sl d' = sl d \<and> rx d' = rx d \<and> dly d' = 0"
proof (induction lim arbitrary: d)
  case (Suc lim)
  obtain c d' where l: "bus_lw bus (port + SPI_DATA) d = (c, d')" by force
  note D = spi_ctlD(6) [OF ctl l]
  show ?case
  proof (cases "dly d")
    case 0
    have "uint (spi_rx bo c) = (case bo of LITTLE_ENDIAN \<Rightarrow> uint (c AND 0xff) | BIG_ENDIAN \<Rightarrow> uint (drop_bit 24 c))"
      using and_mask_lemma [of c] drop_byte_lemma [of c] by (simp add: spi_rx_def split: byte_order.split)
    then show ?thesis using D l 0 by simp
  next
    case (Suc k)
    then show ?thesis using D l Suc.IH [of d'] Suc.prems by auto
  qed
qed simp

lemma spi_byte_ctl:
  assumes ctl: "spi_ctl bo bus port slave start select sl rx dly"
  obtains d' where "spi_byte bo bus port b d = (uint (fst (slave b (sl d))), d')" "sl d' = snd (slave b (sl d))" "dly d' = 0"
  using spi_poll_ready [OF ctl spi_ctlD(3) [OF ctl], of b d] spi_ctlD(1,2) [OF ctl, of b d] that
  by (auto simp: spi_byte_def)

lemma spi_send_ctl:
  assumes ctl: "spi_ctl bo bus port slave start select sl rx dly"
  shows "sl (spi_send bo bus port bs d) = snd (xchg slave bs (sl d)) \<and> (bs \<noteq> [] \<longrightarrow> dly (spi_send bo bus port bs d) = 0)"
proof (induction bs arbitrary: d)
  case (Cons b bs)
  obtain d' where "spi_byte bo bus port b d = (uint (fst (slave b (sl d))), d')" "sl d' = snd (slave b (sl d))" "dly d' = 0"
    by (rule spi_byte_ctl [OF ctl])
  then show ?case using Cons [of d'] by (cases bs) (simp_all add: spi_send_def case_prod_beta Let_def)
qed (simp add: spi_send_def)

section \<open>Blocks\<close>

fun put_bytes :: "mem \<Rightarrow> addr \<Rightarrow> u8 list \<Rightarrow> mem" where
  "put_bytes m a [] = m"
| "put_bytes m a (b # bs) = put_bytes (m(a := b)) (a + 1) bs"

lemma put_bytes_append: "put_bytes m a (xs @ ys) = put_bytes (put_bytes m a xs) (a + of_nat (length xs)) ys"
  by (induction xs arbitrary: m a) (simp_all add: add.assoc)

lemma put_bytes_other: "length bs \<le> unat (x - a) \<Longrightarrow> put_bytes m a bs x = m x"
proof (induction bs arbitrary: m a)
  case (Cons b bs)
  have "x \<noteq> a" using Cons.prems by auto
  moreover have "length bs \<le> unat (x - (a + 1))"
    using Cons.prems unat_minus_one [of "x - a"] \<open>x \<noteq> a\<close> by (simp add: diff_diff_add)
  ultimately show ?case using Cons.IH by simp
qed simp

lemma bytes_at_put_bytes: "length bs \<le> 2 ^ 32 \<Longrightarrow> bytes_at (put_bytes m a bs) a (length bs) = bs"
proof (induction bs arbitrary: m a)
  case (Cons b bs)
  have "a - (a + 1) = (- 1 :: u32)" by simp
  then have "unat (a - (a + 1) :: u32) = 2 ^ 32 - 1" by (simp add: unsigned_minus_1_eq_mask mask_eq_exp_minus_1)
  then have "put_bytes (m(a := b)) (a + 1) bs a = b" using Cons.prems by (subst put_bytes_other) simp_all
  then show ?case using Cons by simp
qed simp

lemma spi_shift_4:
  "word_byte bo (spi_shift bo (spi_shift bo (spi_shift bo (spi_shift bo w c0) c1) c2) c3) 0 = spi_rx bo c0"
  "word_byte bo (spi_shift bo (spi_shift bo (spi_shift bo (spi_shift bo w c0) c1) c2) c3) 1 = spi_rx bo c1"
  "word_byte bo (spi_shift bo (spi_shift bo (spi_shift bo (spi_shift bo w c0) c1) c2) c3) 2 = spi_rx bo c2"
  "word_byte bo (spi_shift bo (spi_shift bo (spi_shift bo (spi_shift bo w c0) c1) c2) c3) 3 = spi_rx bo c3"
  by (cases bo; rule bit_word_eqI; auto simp: spi_shift_def word_byte_def spi_rx_def bit_simps dest: bit_imp_le_length)+

lemma store_word_put:
  "store_word bo m a (spi_shift bo (spi_shift bo (spi_shift bo (spi_shift bo w c0) c1) c2) c3) =
     put_bytes m a [spi_rx bo c0, spi_rx bo c1, spi_rx bo c2, spi_rx bo c3]"
  unfolding store_word_def spi_shift_4 by (simp add: add.assoc)

text \<open>The bytes still to come: the one received already and one for each further exchange.\<close>

lemma spi_in_step:
  assumes ctl: "spi_ctl bo bus port slave start select sl rx dly"
  obtains c d' where "spi_wait bo bus port d = Some (c, d')" "spi_rx bo c = rx d"
    "rx (bus_sb bus (port + SPI_DATA) 0xff d') = fst (slave 0xff (sl d))"
    "sl (bus_sb bus (port + SPI_DATA) 0xff d') = snd (slave 0xff (sl d))"
  using spi_wait_ready [OF ctl, of d] spi_ctlD(1,2) [OF ctl] by auto

lemma spi_in_three:
  assumes ctl: "spi_ctl bo bus port slave start select sl rx dly" and n: "n mod 4 = 0"
  obtains c0 c1 c2 d' where "spi_in_loop bo bus port (n + 3) wp w m d =
      spi_in_loop bo bus port n wp (spi_shift bo (spi_shift bo (spi_shift bo w c0) c1) c2) m d'"
    "[spi_rx bo c0, spi_rx bo c1, spi_rx bo c2, rx d'] = rx d # fst (xchg slave [0xff, 0xff, 0xff] (sl d))"
    "sl d' = snd (xchg slave [0xff, 0xff, 0xff] (sl d))"
proof -
  obtain c0 d0 where 0: "spi_wait bo bus port d = Some (c0, d0)" "spi_rx bo c0 = rx d"
    "rx (bus_sb bus (port + SPI_DATA) 0xff d0) = fst (slave 0xff (sl d))"
    "sl (bus_sb bus (port + SPI_DATA) 0xff d0) = snd (slave 0xff (sl d))" by (rule spi_in_step [OF ctl])
  define e0 where "e0 = bus_sb bus (port + SPI_DATA) 0xff d0"
  obtain c1 d1 where 1: "spi_wait bo bus port e0 = Some (c1, d1)" "spi_rx bo c1 = rx e0"
    "rx (bus_sb bus (port + SPI_DATA) 0xff d1) = fst (slave 0xff (sl e0))"
    "sl (bus_sb bus (port + SPI_DATA) 0xff d1) = snd (slave 0xff (sl e0))" by (rule spi_in_step [OF ctl])
  define e1 where "e1 = bus_sb bus (port + SPI_DATA) 0xff d1"
  obtain c2 d2 where 2: "spi_wait bo bus port e1 = Some (c2, d2)" "spi_rx bo c2 = rx e1"
    "rx (bus_sb bus (port + SPI_DATA) 0xff d2) = fst (slave 0xff (sl e1))"
    "sl (bus_sb bus (port + SPI_DATA) 0xff d2) = snd (slave 0xff (sl e1))" by (rule spi_in_step [OF ctl])
  define e2 where "e2 = bus_sb bus (port + SPI_DATA) 0xff d2"
  have k: "n + 3 = Suc (Suc (Suc n))" by simp
  have md: "Suc (Suc (Suc n)) mod 4 \<noteq> 0" "Suc (Suc n) mod 4 \<noteq> 0" "Suc n mod 4 \<noteq> 0"
    using n by (simp_all add: mod_Suc)
  show ?thesis
  proof (rule that)
    show "spi_in_loop bo bus port (n + 3) wp w m d =
        spi_in_loop bo bus port n wp (spi_shift bo (spi_shift bo (spi_shift bo w c0) c1) c2) m e2"
      unfolding k using 0(1) 1(1) [unfolded e0_def] 2(1) [unfolded e1_def] md by (simp add: e2_def)
    show "[spi_rx bo c0, spi_rx bo c1, spi_rx bo c2, rx e2] = rx d # fst (xchg slave [0xff, 0xff, 0xff] (sl d))"
      "sl e2 = snd (xchg slave [0xff, 0xff, 0xff] (sl d))"
      using 0(2-4) 1(2-4) 2(2-4) by (simp_all add: case_prod_beta Let_def e0_def e1_def e2_def)
  qed
qed

lemma spi_in_loop_ctl:
  assumes ctl: "spi_ctl bo bus port slave start select sl rx dly"
  shows "\<exists>d'. spi_in_loop bo bus port (4 * q + 3) wp w m d =
      Some (put_bytes m wp (rx d # fst (xchg slave (replicate (4 * q + 3) 0xff) (sl d))), d') \<and>
    sl d' = snd (xchg slave (replicate (4 * q + 3) 0xff) (sl d)) \<and> dly d' = 0"
proof (induction q arbitrary: wp w m d)
  case 0
  obtain c0 c1 c2 e where a: "spi_in_loop bo bus port (0 + 3) wp w m d =
      spi_in_loop bo bus port 0 wp (spi_shift bo (spi_shift bo (spi_shift bo w c0) c1) c2) m e"
    "[spi_rx bo c0, spi_rx bo c1, spi_rx bo c2, rx e] = rx d # fst (xchg slave [0xff, 0xff, 0xff] (sl d))"
    "sl e = snd (xchg slave [0xff, 0xff, 0xff] (sl d))"
    by (rule spi_in_three [OF ctl, of 0 wp w m d]) simp_all
  obtain c d' where w: "spi_wait bo bus port e = Some (c, d')" "spi_rx bo c = rx e" "sl d' = sl e" "dly d' = 0"
    using spi_wait_ready [OF ctl, of e] by blast
  have r: "replicate (4 * 0 + 3) (0xff :: u8) = [0xff, 0xff, 0xff]" by (simp add: numeral_3_eq_3)
  have "spi_in_loop bo bus port (0 + 3) wp w m d =
      Some (put_bytes m wp (rx d # fst (xchg slave [0xff, 0xff, 0xff] (sl d))), d')"
    unfolding a(1) a(2) [symmetric] using w(1,2) by (simp add: store_word_put del: put_bytes.simps)
  then show ?case unfolding r using a(3) w(3,4) by simp
next
  case (Suc q)
  let ?n = "4 * q + 3"
  obtain c0 c1 c2 e where a: "spi_in_loop bo bus port (Suc ?n + 3) wp w m d =
      spi_in_loop bo bus port (Suc ?n) wp (spi_shift bo (spi_shift bo (spi_shift bo w c0) c1) c2) m e"
    "[spi_rx bo c0, spi_rx bo c1, spi_rx bo c2, rx e] = rx d # fst (xchg slave [0xff, 0xff, 0xff] (sl d))"
    "sl e = snd (xchg slave [0xff, 0xff, 0xff] (sl d))"
    by (rule spi_in_three [OF ctl, of "Suc ?n" wp w m d]) simp_all
  obtain c d' where w: "spi_wait bo bus port e = Some (c, d')" "spi_rx bo c = rx e"
    "rx (bus_sb bus (port + SPI_DATA) 0xff d') = fst (slave 0xff (sl e))"
    "sl (bus_sb bus (port + SPI_DATA) 0xff d') = snd (slave 0xff (sl e))" by (rule spi_in_step [OF ctl])
  let ?e = "bus_sb bus (port + SPI_DATA) 0xff d'"
  let ?m = "put_bytes m wp [spi_rx bo c0, spi_rx bo c1, spi_rx bo c2, rx e]"
  let ?w = "spi_shift bo (spi_shift bo (spi_shift bo (spi_shift bo w c0) c1) c2) c"
  have s: "spi_in_loop bo bus port (Suc ?n + 3) wp w m d = spi_in_loop bo bus port ?n (wp + 4) ?w ?m ?e"
    unfolding a(1) spi_in_loop.simps(2) using w(1,2) by (simp add: store_word_put del: put_bytes.simps)
  obtain d'' where d: "spi_in_loop bo bus port ?n (wp + 4) ?w ?m ?e =
      Some (put_bytes ?m (wp + 4) (rx ?e # fst (xchg slave (replicate ?n 0xff) (sl ?e))), d'')"
    "sl d'' = snd (xchg slave (replicate ?n 0xff) (sl ?e))" "dly d'' = 0"
    using Suc [of "wp + 4" ?w ?m ?e] by blast
  have k: "4 * Suc q + 3 = Suc ?n + 3" and k': "4 * Suc q + 3 = 3 + Suc ?n" by simp_all
  have "replicate 3 (0xff :: u8) = [0xff, 0xff, 0xff]" by (simp add: numeral_3_eq_3)
  then have r: "replicate (4 * Suc q + 3) (0xff :: u8) = [0xff, 0xff, 0xff] @ 0xff # replicate ?n 0xff"
    unfolding k' replicate_add replicate_Suc by (simp only:)
  have "put_bytes ?m (wp + 4) (rx ?e # fst (xchg slave (replicate ?n 0xff) (sl ?e))) =
      put_bytes m wp (rx d # fst (xchg slave ([0xff, 0xff, 0xff] @ 0xff # replicate ?n 0xff) (sl d)))"
    unfolding xchg_append fst_conv append_Cons [symmetric] a(2) [symmetric] put_bytes_append w(3,4) a(3)
    by (simp add: case_prod_beta Let_def)
  moreover have "snd (xchg slave (replicate ?n 0xff) (sl ?e)) = snd (xchg slave ([0xff, 0xff, 0xff] @ 0xff # replicate ?n 0xff) (sl d))"
    unfolding xchg_append snd_conv w(4) a(3) by (simp add: case_prod_beta Let_def)
  ultimately show ?case unfolding k [symmetric] s [symmetric] r using s d k by simp
qed

lemma spi_block_in_ctl:
  assumes ctl: "spi_ctl bo bus port slave start select sl rx dly" and n: "0 < n"
  shows "\<exists>d'. spi_block_in bo bus port buf (4 * n) m d =
      Some (put_bytes m buf (fst (xchg slave (replicate (4 * n) 0xff) (sl d))), d') \<and>
    sl d' = snd (xchg slave (replicate (4 * n) 0xff) (sl d)) \<and> dly d' = 0"
proof -
  obtain q where q: "n = Suc q" using n by (cases n) auto
  define l where "l = 4 * q + 3"
  have k: "4 * n = Suc l" by (simp add: q l_def)
  let ?e = "bus_sb bus (port + SPI_DATA) 0xff d"
  obtain d' where "spi_in_loop bo bus port l buf 0 m ?e =
      Some (put_bytes m buf (rx ?e # fst (xchg slave (replicate l 0xff) (sl ?e))), d')"
    "sl d' = snd (xchg slave (replicate l 0xff) (sl ?e))" "dly d' = 0"
    using spi_in_loop_ctl [OF ctl, of q buf 0 m ?e] unfolding l_def by blast
  then show ?thesis unfolding spi_block_in_def k spi_ctlD(1,2) [OF ctl] replicate_Suc
    by (simp add: case_prod_beta Let_def del: put_bytes.simps)
qed

lemma spi_out_loop_ctl:
  assumes ctl: "spi_ctl bo bus port slave start select sl rx dly"
  shows "\<exists>d'. spi_out_loop bo bus port m cp n d = Some d' \<and> sl d' = snd (xchg slave (bytes_at m cp n) (sl d)) \<and> dly d' = 0"
proof (induction n arbitrary: cp d)
  case 0
  then show ?case using spi_wait_ready [OF ctl, of d] by auto
next
  case (Suc n)
  obtain c d1 where w: "spi_wait bo bus port d = Some (c, d1)" "sl d1 = sl d" using spi_wait_ready [OF ctl, of d] by blast
  then show ?case
    using Suc [of "cp + 1" "bus_sb bus (port + SPI_DATA) (m cp) d1"] spi_ctlD(2) [OF ctl, of "m cp" d1]
    by (simp add: case_prod_beta Let_def)
qed

lemma spi_block_out_ctl:
  assumes ctl: "spi_ctl bo bus port slave start select sl rx dly" and n: "unat len = n" "n < 2 ^ 31"
  shows "\<exists>d'. spi_block_out bo bus port m cp len d = Some d' \<and> sl d' = snd (xchg slave (bytes_at m cp n) (sl d)) \<and> dly d' = 0"
proof -
  have "uint len = int n" by (simp flip: n(1))
  then have "sint len = int n" using n(2) by (simp add: sint_eq_if)
  then show ?thesis using spi_out_loop_ctl [OF ctl] by (simp add: spi_block_out_def)
qed

end
