(* ===== verification/Convert.thy ===== *)
theory Convert
  imports Prelude
begin

text \<open>
  Numbers and messages as text: the decimal numerals and error messages of
  string/strerror.c and gen/errlst.c, and the conversions of stdlib/strtol.c,
  stdlib/strtoll.c, stdlib/strtoull.c, stdlib/atoi.c, stdlib/abs.c and
  stdlib/labs.c.  A C string is the list of its characters without the
  terminator, a pointer into it an index.
\<close>

section \<open>Error numbers\<close>

type_synonym errno = nat

abbreviation "EINTR \<equiv> 4 :: errno"
abbreviation "EBADF \<equiv> 9 :: errno"
abbreviation "ENOMEM \<equiv> 12 :: errno"
abbreviation "EINVAL \<equiv> 22 :: errno"
abbreviation "ENFILE \<equiv> 23 :: errno"
abbreviation "ENOTTY \<equiv> 25 :: errno"
abbreviation "EPIPE \<equiv> 32 :: errno"
abbreviation "ERANGE \<equiv> 34 :: errno"
abbreviation "EAGAIN \<equiv> 35 :: errno"
abbreviation "ELAST \<equiv> 97 :: errno"

definition sys_errlist :: "string list" where
  "sys_errlist =
    [''No error: 0'',
     ''Operation not permitted'',
     ''No such file or directory'',
     ''No such process'',
     ''Interrupted system call'',
     ''Input/output error'',
     ''Device not configured'',
     ''Argument list too long'',
     ''Exec format error'',
     ''Bad file descriptor'',
     ''No child processes'',
     ''Resource deadlock avoided'',
     ''Cannot allocate memory'',
     ''Permission denied'',
     ''Bad address'',
     ''Block device required'',
     ''Device busy'',
     ''File exists'',
     ''Cross-device link'',
     ''Operation not supported by device'',
     ''Not a directory'',
     ''Is a directory'',
     ''Invalid argument'',
     ''Too many open files in system'',
     ''Too many open files'',
     ''Inappropriate ioctl for device'',
     ''Text file busy'',
     ''File too large'',
     ''No space left on device'',
     ''Illegal seek'',
     ''Read-only file system'',
     ''Too many links'',
     ''Broken pipe'',
     ''Numerical argument out of domain'',
     ''Result too large'',
     ''Resource temporarily unavailable'',
     ''Operation now in progress'',
     ''Operation already in progress'',
     ''Socket operation on non-socket'',
     ''Destination address required'',
     ''Message too long'',
     ''Protocol wrong type for socket'',
     ''Protocol not available'',
     ''Protocol not supported'',
     ''Socket type not supported'',
     ''Operation not supported'',
     ''Protocol family not supported'',
     ''Address family not supported by protocol family'',
     ''Address already in use'',
     ''Can'' @ CHR 0x27 # ''t assign requested address'',
     ''Network is down'',
     ''Network is unreachable'',
     ''Network dropped connection on reset'',
     ''Software caused connection abort'',
     ''Connection reset by peer'',
     ''No buffer space available'',
     ''Socket is already connected'',
     ''Socket is not connected'',
     ''Can'' @ CHR 0x27 # ''t send after socket shutdown'',
     ''Too many references: can'' @ CHR 0x27 # ''t splice'',
     ''Operation timed out'',
     ''Connection refused'',
     ''Too many levels of symbolic links'',
     ''File name too long'',
     ''Host is down'',
     ''No route to host'',
     ''Directory not empty'',
     ''Too many processes'',
     ''Too many users'',
     ''Disc quota exceeded'',
     ''Stale NFS file handle'',
     ''Too many levels of remote in path'',
     ''RPC struct is bad'',
     ''RPC version wrong'',
     ''RPC prog. not avail'',
     ''Program version wrong'',
     ''Bad procedure for program'',
     ''No locks available'',
     ''Function not implemented'',
     ''Inappropriate file type or format'',
     ''Authentication error'',
     ''Need authenticator'',
     ''Identifier removed'',
     ''No message of desired type'',
     ''Value too large to be stored in data type'',
     ''Operation canceled'',
     ''Illegal byte sequence'',
     ''Attribute not found'',
     ''Programming error'',
     ''Bad message'',
     ''Multihop attempted'',
     ''Link has been severed'',
     ''Protocol error'',
     ''Capabilities insufficient'',
     ''Not permitted in capability mode'',
     ''State not recoverable'',
     ''Previous owner died'',
     ''Integrity check failed'']"

definition sys_nerr :: int where
  "sys_nerr = int ELAST + 1"

definition uprefix :: string where
  "uprefix = ''Unknown error''"

definition str :: "string \<Rightarrow> u8 list" where
  "str s = map of_char s"

text \<open>The contents of a buffer of \<open>len\<close> bytes after strlcpy and after strlcat.\<close>

definition strlcpy_text :: "u8 list \<Rightarrow> u8 list \<Rightarrow> nat \<Rightarrow> u8 list" where
  "strlcpy_text old s len = (if len = 0 then old else take (len - 1) s)"

definition strlcat_text :: "u8 list \<Rightarrow> u8 list \<Rightarrow> nat \<Rightarrow> u8 list" where
  "strlcat_text d s len = (if len \<le> length d then d else d @ take (len - 1 - length d) s)"

text \<open>The loop that writes the digits of \<open>uerr\<close> before what has been written, \<open>t\<close>.\<close>

function errstr_digits :: "u32 \<Rightarrow> u8 list \<Rightarrow> u8 list" where
  "errstr_digits uerr t =
     (let t = (str ''0123456789'' ! unat (uerr mod 10)) # t; uerr = uerr div 10
      in if uerr \<noteq> 0 then errstr_digits uerr t else t)"
  by pat_completeness auto
termination
proof (relation "measure (\<lambda>(u, _). unat u)", goal_cases)
  case (2 u t t' u')
  then have "0 < unat u" by (metis div_0 unat_gt_0)
  then show ?case using 2 by (simp add: unat_div)
qed simp

definition errstr :: "int \<Rightarrow> u8 list \<Rightarrow> u8 list \<Rightarrow> nat \<Rightarrow> u8 list" where
  "errstr num pre buf len =
     (let uerr = (if num \<ge> 0 then word_of_int num else word_of_int (- num));
          t = errstr_digits uerr [];
          t = (if num < 0 then 0x2d # t else t);
          t = 0x3a # 0x20 # t
      in strlcat_text (strlcpy_text buf pre len) t len)"

text \<open>The buffer and the result.\<close>

definition strerror_r :: "int \<Rightarrow> u8 list \<Rightarrow> nat \<Rightarrow> u8 list \<times> errno" where
  "strerror_r errnum buf buflen =
     (if errnum < 0 \<or> errnum \<ge> sys_nerr then (errstr errnum (str uprefix) buf buflen, EINVAL)
      else (let m = str (sys_errlist ! nat errnum)
            in (strlcpy_text buf m buflen, if length m \<ge> buflen then ERANGE else 0)))"

text \<open>\<^verbatim>\<open>strerror\<close>: the static buffer, and the error number if one is set.\<close>

definition strerror :: "int \<Rightarrow> u8 list \<Rightarrow> u8 list \<times> errno option" where
  "strerror num ebuf = (let (s, r) = strerror_r num ebuf 2048 in (s, if r \<noteq> 0 then Some EINVAL else None))"

text \<open>What \<^verbatim>\<open>perror\<close> writes to stderr.\<close>

definition perror :: "u8 list option \<Rightarrow> int \<Rightarrow> u8 list" where
  "perror s num =
     (case s of Some (c # cs) \<Rightarrow> (c # cs) @ str '': '' | _ \<Rightarrow> []) @ fst (strerror_r num [] 2048) @ [0xa]"

section \<open>Text to number\<close>

definition char_at :: "u8 list \<Rightarrow> nat \<Rightarrow> u8" where
  "char_at s i = (if i < length s then s ! i else 0)"

definition isspace :: "u8 \<Rightarrow> bool" where
  "isspace c \<longleftrightarrow> c = 0x20 \<or> 0x9 \<le> c \<and> c \<le> 0xd"

function skip_space :: "u8 list \<Rightarrow> nat \<Rightarrow> nat" where
  "skip_space s i = (if isspace (char_at s i) then skip_space s (Suc i) else i)"
  by pat_completeness auto
termination
  by (relation "measure (\<lambda>(s, i). length s - i)") (auto simp: char_at_def isspace_def split: if_splits)

text \<open>The value of a digit or letter; the tests of the three files agree.\<close>

definition digit_value :: "u8 \<Rightarrow> nat option" where
  "digit_value c =
     (if 0x30 \<le> c \<and> c \<le> 0x39 then Some (unat (c - 0x30))
      else if 0x41 \<le> c \<and> c \<le> 0x5a then Some (unat (c - (0x41 - 10)))
      else if 0x61 \<le> c \<and> c \<le> 0x7a then Some (unat (c - (0x61 - 10)))
      else None)"

lemma digit_value_at: "digit_value (char_at s i) = Some d \<Longrightarrow> i < length s"
  by (auto simp: char_at_def digit_value_def split: if_splits)

text \<open>The conversion loop, from the character at \<open>i\<close>; the result is \<^verbatim>\<open>acc\<close>, \<^verbatim>\<open>any\<close> and the
  position of the character that ended it.\<close>

function strtox_loop ::
  "int \<Rightarrow> 'w::len word \<Rightarrow> int \<Rightarrow> u8 list \<Rightarrow> nat \<Rightarrow> 'w word \<Rightarrow> int \<Rightarrow> 'w word \<times> int \<times> nat" where
  "strtox_loop base cutoff cutlim s i acc any =
     (case digit_value (char_at s i) of
        None \<Rightarrow> (acc, any, i)
      | Some d \<Rightarrow>
          if int d \<ge> base then (acc, any, i)
          else if any < 0 \<or> acc > cutoff \<or> (acc = cutoff \<and> int d > cutlim)
            then strtox_loop base cutoff cutlim s (Suc i) acc (- 1)
          else strtox_loop base cutoff cutlim s (Suc i) (acc * word_of_int base + of_nat d) 1)"
  by pat_completeness auto
termination
  by (relation "measure (\<lambda>(_, _, _, s, i, _). length s - i)") (auto dest: digit_value_at intro: diff_less_mono2)

definition sign_at :: "u8 list \<Rightarrow> nat \<Rightarrow> bool \<times> nat" where
  "sign_at s i =
     (if char_at s i = 0x2d then (True, Suc i) else if char_at s i = 0x2b then (False, Suc i) else (False, i))"

text \<open>\<^verbatim>\<open>_strtolx\<close>: the result as a 32-bit word and the position stored through \<^verbatim>\<open>endptr\<close>.\<close>

definition strtolx :: "u8 list \<Rightarrow> int \<Rightarrow> bool \<Rightarrow> u32 \<times> nat" where
  "strtolx s base sig =
     (let (neg, i) = sign_at s (skip_space s 0);
          (i, base) = (if (base = 0 \<or> base = 16) \<and> char_at s i = 0x30 \<and>
                          (char_at s (i + 1) = 0x78 \<or> char_at s (i + 1) = 0x58)
                       then (i + 2, 16) else (i, base));
          base = (if base = 0 then (if char_at s i = 0x30 then 8 else 10) else base);
          cutoff = (if sig then (if neg then 0x80000000 else 0x7fffffff) else 0xffffffff);
          cutlim = sint (cutoff mod word_of_int base);
          cutoff = cutoff div word_of_int base;
          (acc, any, i) = strtox_loop base cutoff cutlim s i 0 0;
          acc = (if any < 0 then (if sig then (if neg then 0x80000000 else 0x7fffffff) else 0xffffffff)
                 else if neg then - acc else acc)
      in (acc, if any \<noteq> 0 then i else 0))"

definition strtol :: "u8 list \<Rightarrow> int \<Rightarrow> int \<times> nat" where
  "strtol s base = (let (acc, e) = strtolx s base True in (sint acc, e))"

text \<open>\<^verbatim>\<open>strtoul\<close> is declared to return unsigned long, but defined to return long.\<close>

definition strtoul :: "u8 list \<Rightarrow> int \<Rightarrow> int \<times> nat" where
  "strtoul s base = (let (acc, e) = strtolx s base False in (sint acc, e))"

definition isxdigit :: "u8 \<Rightarrow> bool" where
  "isxdigit c \<longleftrightarrow> 0x30 \<le> c \<and> c \<le> 0x39 \<or> 0x41 \<le> c \<and> c \<le> 0x46 \<or> 0x61 \<le> c \<and> c \<le> 0x66"

text \<open>The prefix common to \<^verbatim>\<open>strtoll\<close> and \<^verbatim>\<open>strtoull\<close>: sign, position and base.\<close>

definition strtoll_prefix :: "u8 list \<Rightarrow> int \<Rightarrow> bool \<times> nat \<times> int" where
  "strtoll_prefix s base =
     (let (neg, i) = sign_at s (skip_space s 0);
          (i, base) = (if (base = 0 \<or> base = 16) \<and> char_at s i = 0x30 \<and>
                          (char_at s (i + 1) = 0x78 \<or> char_at s (i + 1) = 0x58) \<and> isxdigit (char_at s (i + 2))
                       then (i + 2, 16) else (i, base));
          base = (if base = 0 then (if char_at s i = 0x30 then 8 else 10) else base)
      in (neg, i, base))"

text \<open>The results: value, position stored through \<^verbatim>\<open>endptr\<close>, error number if one is set.\<close>

definition strtoll :: "u8 list \<Rightarrow> int \<Rightarrow> int \<times> nat \<times> errno option" where
  "strtoll s base0 =
     (let (neg, i, base) = strtoll_prefix s base0 in
      if base < 2 \<or> base > 36 then (0, 0, Some EINVAL)
      else
        (let cutoff = (if neg then 0x8000000000000000 else 0x7fffffffffffffff) :: u64;
             cutlim = sint (ucast (cutoff mod word_of_int base) :: u32);
             cutoff = cutoff div word_of_int base;
             (acc, any, i) = strtox_loop base cutoff cutlim s i 0 0
         in if any < 0 then (sint ((if neg then 0x8000000000000000 else 0x7fffffffffffffff) :: u64), i, Some ERANGE)
            else if any = 0 then (sint acc, 0, Some EINVAL)
            else (sint (if neg then - acc else acc), i, None)))"

definition strtoull :: "u8 list \<Rightarrow> int \<Rightarrow> nat \<times> nat \<times> errno option" where
  "strtoull s base0 =
     (let (neg, i, base) = strtoll_prefix s base0 in
      if base < 2 \<or> base > 36 then (0, 0, Some EINVAL)
      else
        (let cutoff = (0xffffffffffffffff :: u64) div word_of_int base;
             cutlim = sint (ucast ((0xffffffffffffffff :: u64) mod word_of_int base) :: u32);
             (acc, any, i) = strtox_loop base cutoff cutlim s i 0 0
         in if any < 0 then (unat (0xffffffffffffffff :: u64), i, Some ERANGE)
            else if any = 0 then (unat acc, 0, Some EINVAL)
            else (unat (if neg then - acc else acc), i, None)))"

text \<open>\<^verbatim>\<open>atoi\<close>; arithmetic wraps at 32 bits.\<close>

function atoi_loop :: "u8 list \<Rightarrow> nat \<Rightarrow> u32 \<Rightarrow> u32" where
  "atoi_loop s p i =
     (let c = char_at s p in
      if c \<noteq> 0 \<and> 0x30 \<le> c \<and> c \<le> 0x39 then atoi_loop s (Suc p) (i * 10 + ucast (c - 0x30)) else i)"
  by pat_completeness auto
termination
  by (relation "measure (\<lambda>(s, p, _). length s - p)") (auto simp: char_at_def split: if_splits)

definition atoi :: "u8 list \<Rightarrow> int" where
  "atoi c = (if char_at c 0 = 0x2d then sint (- atoi_loop c 1 0) else sint (atoi_loop c 0 0))"

definition abs_int :: "u32 \<Rightarrow> u32" where
  "abs_int j = (if sint j < 0 then - j else j)"

definition labs :: "u32 \<Rightarrow> u32" where
  "labs j = (if sint j < 0 then - j else j)"

declare errstr_digits.simps [simp del] skip_space.simps [simp del] strtox_loop.simps [simp del] atoi_loop.simps [simp del]

section \<open>Numerals\<close>

text \<open>Reference definitions: the digits of a number, most significant first, and the number
  digits stand for.\<close>

function digits :: "nat \<Rightarrow> nat \<Rightarrow> nat list" where
  "digits b n = (if b < 2 \<or> n < b then [n] else digits b (n div b) @ [n mod b])"
  by pat_completeness auto
termination by (relation "measure snd") (auto intro: div_less_dividend)

declare digits.simps [simp del]

definition digits_val :: "nat \<Rightarrow> nat \<Rightarrow> nat list \<Rightarrow> nat" where
  "digits_val b v ds = foldl (\<lambda>v d. v * b + d) v ds"

lemma digits_val_simps [simp]:
  "digits_val b v [] = v" "digits_val b v (d # ds) = digits_val b (v * b + d) ds"
  "digits_val b v (ds @ [d]) = digits_val b v ds * b + d"
  by (simp_all add: digits_val_def)

lemma digits_val_ge: "1 \<le> b \<Longrightarrow> v \<le> digits_val b v ds"
proof (induction ds arbitrary: v)
  case (Cons d ds)
  have "v \<le> v * b + d" using Cons.prems by (metis le_add1 le_trans mult.right_neutral mult_le_mono2)
  then show ?case using Cons.IH [of "v * b + d"] Cons.prems by simp
qed simp

lemma digits_val_digits: "digits_val b 0 (digits b n) = n"
  by (induction b n rule: digits.induct) (subst digits.simps, simp)

lemma digits_less: "2 \<le> b \<Longrightarrow> d \<in> set (digits b n) \<Longrightarrow> d < b"
proof (induction b n rule: digits.induct)
  case (1 b n)
  then show ?case by (subst (asm) (2) digits.simps) (auto split: if_splits)
qed

lemma digits_nonempty: "digits b n \<noteq> []"
  by (subst digits.simps) simp

definition decimal :: "int \<Rightarrow> u8 list" where
  "decimal n = (if n < 0 then [0x2d] else []) @ map (\<lambda>d. 0x30 + of_nat d) (digits 10 (nat \<bar>n\<bar>))"

text \<open>A run of digits in base \<open>b\<close>, as characters.\<close>

definition digit_chars :: "nat \<Rightarrow> u8 list \<Rightarrow> bool" where
  "digit_chars b cs \<longleftrightarrow> (\<forall>c\<in>set cs. \<exists>d. digit_value c = Some d \<and> d < b)"

definition chars_val :: "nat \<Rightarrow> u8 list \<Rightarrow> nat" where
  "chars_val b cs = digits_val b 0 (map (\<lambda>c. the (digit_value c)) cs)"

lemma strtox_loop_overflow:
  assumes "digit_chars b cs" "rest = [] \<or> digit_value (hd rest) = None"
  shows "strtox_loop (int b) cutoff cutlim (pre @ cs @ rest) (length pre) acc (- 1) = (acc, - 1, length (pre @ cs))"
  using assms(1)
proof (induction cs arbitrary: pre)
  case Nil
  have "digit_value (char_at (pre @ rest) (length pre)) = None"
    using assms(2) by (cases rest) (auto simp: char_at_def nth_append digit_value_def)
  then show ?case by (subst strtox_loop.simps) simp
next
  case (Cons c cs)
  obtain d where d: "digit_value c = Some d" "d < b" using Cons.prems by (auto simp: digit_chars_def)
  have "char_at (pre @ (c # cs) @ rest) (length pre) = c" by (simp add: char_at_def)
  then have "strtox_loop (int b) cutoff cutlim (pre @ (c # cs) @ rest) (length pre) acc (- 1) =
    strtox_loop (int b) cutoff cutlim (pre @ (c # cs) @ rest) (Suc (length pre)) acc (- 1)"
    using d by (subst strtox_loop.simps) simp
  then show ?case using Cons.IH [of "pre @ [c]"] Cons.prems by (simp add: digit_chars_def)
qed

text \<open>The loop computes the value of the digits as long as it does not exceed
  \<open>cutoff * b + cutlim\<close>, and otherwise reports the overflow.\<close>

lemma strtox_loop_value:
  fixes cutoff :: "'w::len word"
  assumes "digit_chars b cs" "rest = [] \<or> digit_value (hd rest) = None"
    and M: "M = unat cutoff * b + k" "k < b" "M < 2 ^ LENGTH('w)"
    and "v \<le> M" "any = 0 \<or> any = 1"
  shows "let r = strtox_loop (int b) cutoff (int k) (pre @ cs @ rest) (length pre) (of_nat v) any;
      V = digits_val b v (map (\<lambda>c. the (digit_value c)) cs)
    in if V \<le> M then r = (of_nat V, if cs = [] then any else 1, length (pre @ cs))
       else (\<exists>acc. r = (acc, - 1, length (pre @ cs)))"
  using assms(1,6,7)
proof (induction cs arbitrary: pre v any)
  case Nil
  have "digit_value (char_at (pre @ rest) (length pre)) = None"
    using assms(2) by (cases rest) (auto simp: char_at_def nth_append digit_value_def)
  then show ?case using Nil.prems by (subst strtox_loop.simps) (simp add: Let_def)
next
  case (Cons c cs)
  obtain d where d: "digit_value c = Some d" "d < b" using Cons.prems by (auto simp: digit_chars_def)
  have ds: "digit_chars b cs" using Cons.prems by (simp add: digit_chars_def)
  have c: "char_at (pre @ (c # cs) @ rest) (length pre) = c" by (simp add: char_at_def)
  have v: "unat (of_nat v :: 'w word) = v" using Cons.prems(2) M(3) by (simp add: unsigned_of_nat take_bit_nat_eq_self)
  have over: "(of_nat v :: 'w word) > cutoff \<or> ((of_nat v :: 'w word) = cutoff \<and> int d > int k) \<longleftrightarrow> v * b + d > M"
  proof -
    consider "v < unat cutoff" | "v = unat cutoff" | "unat cutoff < v" by linarith
    then show ?thesis
    proof cases
      case 1
      then have "v * b + b \<le> unat cutoff * b" by (metis Suc_leI mult_Suc add.commute mult_le_mono1)
      then show ?thesis using 1 v d M by (auto simp: word_less_nat_alt)
    next
      case 2
      then show ?thesis using v d M by (auto simp: word_less_nat_alt)
    next
      case 3
      then have "unat cutoff * b + b \<le> v * b" by (metis Suc_leI mult_Suc add.commute mult_le_mono1)
      then show ?thesis using 3 v d M by (auto simp: word_less_nat_alt)
    qed
  qed
  show ?case
  proof (cases "v * b + d > M")
    case True
    have "strtox_loop (int b) cutoff (int k) (pre @ (c # cs) @ rest) (length pre) (of_nat v) any =
      strtox_loop (int b) cutoff (int k) ((pre @ [c]) @ cs @ rest) (length (pre @ [c])) (of_nat v) (- 1)"
      using c d over True by (subst strtox_loop.simps) simp
    moreover have "\<not> digits_val b v (map (\<lambda>c. the (digit_value c)) (c # cs)) \<le> M"
      using d True digits_val_ge [of b "v * b + d" "map (\<lambda>c. the (digit_value c)) cs"] by simp
    ultimately show ?thesis using strtox_loop_overflow [OF ds assms(2), of cutoff "int k" "pre @ [c]" "of_nat v"]
      by (simp add: Let_def)
  next
    case False
    have "\<not> any < 0" using Cons.prems(3) by auto
    then have "strtox_loop (int b) cutoff (int k) (pre @ (c # cs) @ rest) (length pre) (of_nat v) any =
      strtox_loop (int b) cutoff (int k) ((pre @ [c]) @ cs @ rest) (length (pre @ [c])) (of_nat (v * b + d)) 1"
      using c d over False by (subst strtox_loop.simps) auto
    then show ?thesis
      using Cons.IH [OF ds, of "v * b + d" 1 "pre @ [c]"] False d by (auto simp: Let_def split: if_splits)
  qed
qed

section \<open>The whole conversions\<close>

lemma skip_space_spaces:
  "\<forall>c\<in>set sp. isspace c \<Longrightarrow> ys = [] \<or> \<not> isspace (hd ys) \<Longrightarrow>
   skip_space (pre @ sp @ ys) (length pre) = length (pre @ sp)"
proof (induction sp arbitrary: pre)
  case Nil
  have "\<not> isspace (char_at (pre @ ys) (length pre))"
    using Nil.prems by (cases ys) (auto simp: char_at_def nth_append isspace_def)
  then show ?case by (subst skip_space.simps) simp
next
  case (Cons c sp)
  then show ?case
    using Cons.IH [of "pre @ [c]"] by (subst skip_space.simps) (simp add: char_at_def)
qed

lemma digit_value_not_special: "digit_value c = Some d \<Longrightarrow> \<not> isspace c \<and> c \<noteq> 0x2d \<and> c \<noteq> 0x2b"
  by (auto simp: digit_value_def isspace_def word_le_nat_alt split: if_splits)

lemma sign_at_prefix:
  assumes "\<forall>c\<in>set sp. isspace c" "sg \<in> {[], [0x2b], [0x2d]}" "digit_chars b cs" "cs \<noteq> []"
  shows "sign_at (sp @ sg @ cs @ rest) (skip_space (sp @ sg @ cs @ rest) 0) = (sg = [0x2d], length (sp @ sg))"
proof -
  obtain c cs' d where c: "cs = c # cs'" "digit_value c = Some d"
    using assms(3,4) by (cases cs) (auto simp: digit_chars_def)
  have "\<not> isspace (hd (sg @ cs @ rest))" "sg @ cs @ rest \<noteq> []"
    using assms(2) c digit_value_not_special [OF c(2)] by (auto simp: isspace_def)
  then have "skip_space (sp @ sg @ cs @ rest) 0 = length sp"
    using skip_space_spaces [OF assms(1), of "sg @ cs @ rest" "[]"] by simp
  then show ?thesis
    using assms(2) c digit_value_not_special [OF c(2)] by (auto simp: sign_at_def char_at_def nth_append)
qed

text \<open>After a numeral there is no prefix \<open>0x\<close> left to be skipped.\<close>

lemma no_hex_prefix:
  assumes "digit_chars b cs" "cs \<noteq> []" "rest = [] \<or> digit_value (hd rest) = None" "b \<le> 33"
  shows "char_at (pre @ cs @ rest) (length pre + 1) \<noteq> 0x78 \<and> char_at (pre @ cs @ rest) (length pre + 1) \<noteq> 0x58"
proof (cases "length cs = 1")
  case True
  then have "char_at (pre @ cs @ rest) (length pre + 1) = (if rest = [] then 0 else hd rest)"
    by (auto simp: char_at_def nth_append hd_conv_nth)
  then show ?thesis using assms(3) by (auto simp: digit_value_def)
next
  case False
  then have l: "1 < length cs" using assms(2) by (cases cs) auto
  then have "char_at (pre @ cs @ rest) (length pre + 1) = cs ! 1" by (simp add: char_at_def nth_append)
  moreover obtain d where "digit_value (cs ! 1) = Some d" "d < b"
    using assms(1) nth_mem [OF l] unfolding digit_chars_def by blast
  ultimately show ?thesis using assms(4) by (auto simp: digit_value_def)
qed

lemma cutoff_limits:
  fixes L :: "'w::len word"
  assumes "2 \<le> b" "b \<le> 36" "8 \<le> LENGTH('w)"
  shows "unat L = unat (L div word_of_int (int b)) * b + unat L mod b"
    and "unat (L mod word_of_int (int b)) = unat L mod b"
proof -
  have "(36 :: nat) < 2 ^ 8" by simp
  also have "\<dots> \<le> 2 ^ LENGTH('w)" using assms(3) by (intro power_increasing) simp_all
  finally have "b < 2 ^ LENGTH('w)" using assms(2) by simp
  then have "unat (word_of_int (int b) :: 'w word) = b" by (simp add: unsigned_of_nat take_bit_nat_eq_self)
  then show "unat L = unat (L div word_of_int (int b)) * b + unat L mod b"
    "unat (L mod word_of_int (int b)) = unat L mod b"
    by (simp_all add: unat_div unat_mod)
qed

lemma sint_small_u32: "unat (w :: u32) < 2 ^ 31 \<Longrightarrow> sint w = int (unat w)"
proof -
  assume "unat w < 2 ^ 31"
  then have "uint w < 2 ^ 31" by (metis int_unat_less_exp uint_nat)
  then have "sint w = uint w" by (simp add: sint_eq_if)
  then show ?thesis by (simp only: uint_nat)
qed

lemma strtox_numeral:
  fixes L :: "'w::len word"
  assumes "digit_chars b cs" "cs \<noteq> []" "rest = [] \<or> digit_value (hd rest) = None"
    and b: "2 \<le> b" "b \<le> 36" "8 \<le> LENGTH('w)"
  shows "let r = strtox_loop (int b) (L div word_of_int (int b)) (int (unat L mod b)) (pre @ cs @ rest) (length pre) 0 0
    in if chars_val b cs \<le> unat L then r = (of_nat (chars_val b cs), 1, length (pre @ cs))
       else (\<exists>acc. r = (acc, - 1, length (pre @ cs)))"
  using strtox_loop_value [OF assms(1,3) cutoff_limits(1) [OF b, of L] _ _ _ disjI1 [OF refl], of 0 pre] b assms(2)
  by (auto simp: chars_val_def Let_def split: if_splits)

lemma strtolx_numeral:
  assumes "\<forall>c\<in>set sp. isspace c" "sg \<in> {[], [0x2b], [0x2d]}" "digit_chars b cs" "cs \<noteq> []"
    and "rest = [] \<or> digit_value (hd rest) = None" and b: "2 \<le> b" "b \<le> 36"
    and L: "L = (if sig then (if sg = [0x2d] then 0x80000000 else 0x7fffffff) else 0xffffffff)"
  shows "strtolx (sp @ sg @ cs @ rest) (int b) sig =
    (if chars_val b cs \<le> unat L then (if sg = [0x2d] then - of_nat (chars_val b cs) else of_nat (chars_val b cs)) else L,
     length (sp @ sg @ cs))"
proof -
  have l: "8 \<le> LENGTH(32)" by simp
  have small: "unat L mod b < 2 ^ 31" using b by (simp add: order.strict_trans [OF mod_less_divisor])
  then have lim: "sint (L mod word_of_int (int b)) = int (unat L mod b)"
    using cutoff_limits(2) [OF b l, of L] by (subst sint_small_u32) simp_all
  have hex: "\<not> ((int b = 0 \<or> int b = 16) \<and> char_at (sp @ sg @ cs @ rest) (length (sp @ sg)) = 0x30 \<and>
      (char_at (sp @ sg @ cs @ rest) (length (sp @ sg) + 1) = 0x78 \<or> char_at (sp @ sg @ cs @ rest) (length (sp @ sg) + 1) = 0x58))"
    using no_hex_prefix [OF assms(3,4,5), of "sp @ sg"] b by (cases "b = 16") auto
  define r where "r = strtox_loop (int b) (L div word_of_int (int b)) (int (unat L mod b)) (sp @ sg @ cs @ rest) (length (sp @ sg)) 0 0"
  have "(int b = 0) = False" using b by simp
  then have "strtolx (sp @ sg @ cs @ rest) (int b) sig =
      (case r of (acc, any, i) \<Rightarrow> (if any < 0 then L else if sg = [0x2d] then - acc else acc, if any \<noteq> 0 then i else 0))"
    unfolding strtolx_def sign_at_prefix [OF assms(1,2,3,4), of rest] Let_def prod.case if_not_P [OF hex]
    by (simp only: if_False L [symmetric] lim r_def [symmetric])
  moreover have "if chars_val b cs \<le> unat L then r = (of_nat (chars_val b cs), 1, length (sp @ sg @ cs))
      else (\<exists>acc. r = (acc, - 1, length (sp @ sg @ cs)))"
    using strtox_numeral [OF assms(3,4,5) b l, of L "sp @ sg"] unfolding Let_def append_assoc r_def [symmetric] .
  ultimately show ?thesis by (auto split: if_splits)
qed

lemma strtoll_prefix_numeral:
  assumes "\<forall>c\<in>set sp. isspace c" "sg \<in> {[], [0x2b], [0x2d]}" "digit_chars b cs" "cs \<noteq> []"
    and "rest = [] \<or> digit_value (hd rest) = None" and b: "2 \<le> b" "b \<le> 36"
  shows "strtoll_prefix (sp @ sg @ cs @ rest) (int b) = (sg = [0x2d], length (sp @ sg), int b)"
proof -
  have hex: "\<not> ((int b = 0 \<or> int b = 16) \<and> char_at (sp @ sg @ cs @ rest) (length (sp @ sg)) = 0x30 \<and>
      (char_at (sp @ sg @ cs @ rest) (length (sp @ sg) + 1) = 0x78 \<or> char_at (sp @ sg @ cs @ rest) (length (sp @ sg) + 1) = 0x58) \<and>
      isxdigit (char_at (sp @ sg @ cs @ rest) (length (sp @ sg) + 2)))"
    using no_hex_prefix [OF assms(3,4,5), of "sp @ sg"] b by (cases "b = 16") auto
  show ?thesis
    using b unfolding strtoll_prefix_def sign_at_prefix [OF assms(1,2,3,4), of rest] Let_def prod.case if_not_P [OF hex] by simp
qed

lemma limit_u64:
  assumes "2 \<le> b" "b \<le> 36"
  shows "sint (ucast ((L :: u64) mod word_of_int (int b)) :: u32) = int (unat L mod b)"
proof -
  have m: "unat L mod b < 36" using assms by (intro order.strict_trans2 [OF mod_less_divisor]) simp_all
  have l: "8 \<le> LENGTH(64)" by simp
  have "unat (ucast (L mod word_of_int (int b)) :: u32) = unat L mod b"
    using cutoff_limits(2) [OF assms l, of L] m by (simp add: unsigned_ucast_eq take_bit_nat_eq_self)
  then show ?thesis using m by (subst sint_small_u32) simp_all
qed

lemma strtoll_numeral:
  assumes "\<forall>c\<in>set sp. isspace c" "sg \<in> {[], [0x2b], [0x2d]}" "digit_chars b cs" "cs \<noteq> []"
    and "rest = [] \<or> digit_value (hd rest) = None" and b: "2 \<le> b" "b \<le> 36"
    and L: "L = (if sg = [0x2d] then 0x8000000000000000 else 0x7fffffffffffffff :: u64)"
  shows "strtoll (sp @ sg @ cs @ rest) (int b) =
    (sint (if chars_val b cs \<le> unat L then (if sg = [0x2d] then - of_nat (chars_val b cs) else of_nat (chars_val b cs)) else L),
     length (sp @ sg @ cs), if chars_val b cs \<le> unat L then None else Some ERANGE)"
proof -
  have l: "8 \<le> LENGTH(64)" by simp
  define r where "r = strtox_loop (int b) (L div word_of_int (int b)) (int (unat L mod b)) (sp @ sg @ cs @ rest) (length (sp @ sg)) 0 0"
  have "(int b < 2 \<or> int b > 36) = False" using b by simp
  then have "strtoll (sp @ sg @ cs @ rest) (int b) =
      (case r of (acc, any, i) \<Rightarrow> if any < 0 then (sint L, i, Some ERANGE)
         else if any = 0 then (sint acc, 0, Some EINVAL) else (sint (if sg = [0x2d] then - acc else acc), i, None))"
    unfolding strtoll_def strtoll_prefix_numeral [OF assms(1-5) b] Let_def prod.case
    by (simp only: if_False L [symmetric] limit_u64 [OF b] r_def [symmetric])
  moreover have "if chars_val b cs \<le> unat L then r = (of_nat (chars_val b cs), 1, length (sp @ sg @ cs))
      else (\<exists>acc. r = (acc, - 1, length (sp @ sg @ cs)))"
    using strtox_numeral [OF assms(3,4,5) b l, of L "sp @ sg"] unfolding Let_def append_assoc r_def [symmetric] .
  ultimately show ?thesis by (auto split: if_splits)
qed

lemma strtoull_numeral:
  assumes "\<forall>c\<in>set sp. isspace c" "sg \<in> {[], [0x2b], [0x2d]}" "digit_chars b cs" "cs \<noteq> []"
    and "rest = [] \<or> digit_value (hd rest) = None" and b: "2 \<le> b" "b \<le> 36"
  shows "strtoull (sp @ sg @ cs @ rest) (int b) =
    (if chars_val b cs < 2 ^ 64
     then unat (if sg = [0x2d] then - of_nat (chars_val b cs) else of_nat (chars_val b cs) :: u64) else 2 ^ 64 - 1,
     length (sp @ sg @ cs), if chars_val b cs < 2 ^ 64 then None else Some ERANGE)"
proof -
  have l: "8 \<le> LENGTH(64)" by simp
  let ?L = "0xffffffffffffffff :: u64"
  have L: "unat ?L = 2 ^ 64 - 1" "chars_val b cs \<le> unat ?L \<longleftrightarrow> chars_val b cs < 2 ^ 64"
    by (simp, simp, linarith)
  define r where "r = strtox_loop (int b) (?L div word_of_int (int b)) (int (unat ?L mod b)) (sp @ sg @ cs @ rest) (length (sp @ sg)) 0 0"
  have "(int b < 2 \<or> int b > 36) = False" using b by simp
  then have "strtoull (sp @ sg @ cs @ rest) (int b) =
      (case r of (acc, any, i) \<Rightarrow> if any < 0 then (unat ?L, i, Some ERANGE)
         else if any = 0 then (unat acc, 0, Some EINVAL) else (unat (if sg = [0x2d] then - acc else acc), i, None))"
    unfolding strtoull_def strtoll_prefix_numeral [OF assms(1-5) b] Let_def prod.case
    by (simp only: if_False limit_u64 [OF b] r_def [symmetric])
  moreover have "if chars_val b cs < 2 ^ 64 then r = (of_nat (chars_val b cs), 1, length (sp @ sg @ cs))
      else (\<exists>acc. r = (acc, - 1, length (sp @ sg @ cs)))"
    using strtox_numeral [OF assms(3,4,5) b l, of ?L "sp @ sg"] unfolding Let_def append_assoc r_def [symmetric] L(2) .
  ultimately show ?thesis unfolding L(1) by (auto split: if_splits)
qed

section \<open>Properties\<close>

lemma sint_of_nat_u32: "n < 2 ^ 31 \<Longrightarrow> sint (of_nat n :: u32) = int n"
  using sint_word_of_int_32 [of "int n"] by simp

lemma sint_minus_of_nat_u32: "n \<le> 2 ^ 31 \<Longrightarrow> sint (- of_nat n :: u32) = - int n"
  using sint_word_of_int_32 [of "- int n"] by simp

lemma sint_word_of_int_64: "- (2 ^ 63) \<le> k \<Longrightarrow> k < 2 ^ 63 \<Longrightarrow> sint (word_of_int k :: u64) = k"
  by (simp add: sint_sbintrunc' signed_take_bit_int_eq_self)

lemma sint_of_nat_u64: "n < 2 ^ 63 \<Longrightarrow> sint (of_nat n :: u64) = int n"
  using sint_word_of_int_64 [of "int n"] by simp

lemma sint_minus_of_nat_u64: "n \<le> 2 ^ 63 \<Longrightarrow> sint (- of_nat n :: u64) = - int n"
  using sint_word_of_int_64 [of "- int n"] by simp

text \<open>C28: strtol on white space, an optional sign, a numeral in base 2 to 36 and a character
  that is neither digit nor letter, or the end of the string: the result is the value of the
  numeral with its sign, clamped to the range of a 32-bit long, and endptr points behind the
  numeral.\<close>
theorem strtol_correct:
  assumes "\<forall>c\<in>set sp. isspace c" "sg \<in> {[], [0x2b], [0x2d]}" "digit_chars b cs" "cs \<noteq> []"
    and "rest = [] \<or> digit_value (hd rest) = None" "2 \<le> b" "b \<le> 36"
  shows "strtol (sp @ sg @ cs @ rest) (int b) =
    (if sg = [0x2d] then max (- (2 ^ 31)) (- int (chars_val b cs)) else min (2 ^ 31 - 1) (int (chars_val b cs)),
     length (sp @ sg @ cs))"
proof -
  have m: "sint (0x80000000 :: u32) = - (2 ^ 31)" "sint (0x7fffffff :: u32) = 2 ^ 31 - 1"
    "unat (0x80000000 :: u32) = 2 ^ 31" "unat (0x7fffffff :: u32) = 2 ^ 31 - 1" by simp_all
  show ?thesis
    unfolding strtol_def strtolx_numeral [OF assms refl] Let_def prod.case
    using m sint_of_nat_u32 [of "chars_val b cs"] sint_minus_of_nat_u32 [of "chars_val b cs"]
    by (auto simp: max_def min_def)
qed

theorem strtol_correct_witness:
  "strtol ([0x20] @ [0x2d] @ [0x37, 0x62, 0x32] @ [0x2c]) (int 16) = (- 1970, 5)"
  using strtol_correct [of "[0x20]" "[0x2d]" 16 "[0x37, 0x62, 0x32]" "[0x2c]"]
  by (simp add: isspace_def digit_chars_def digit_value_def chars_val_def)

lemma digit_value_decimal: "d < 10 \<Longrightarrow> digit_value (0x30 + of_nat d) = Some d"
proof -
  assume "d < 10"
  then have "d \<in> {0, 1, 2, 3, 4, 5, 6, 7, 8, 9}" by auto
  then show ?thesis by (auto simp: digit_value_def)
qed

lemma decimal_chars:
  "digit_chars 10 (map (\<lambda>d. 0x30 + of_nat d) (digits 10 n))"
  "chars_val 10 (map (\<lambda>d. 0x30 + of_nat d) (digits 10 n)) = n"
proof -
  have d: "\<forall>d\<in>set (digits 10 n). digit_value (0x30 + of_nat d) = Some d"
    using digits_less [of 10 _ n] digit_value_decimal by simp
  then show "digit_chars 10 (map (\<lambda>d. 0x30 + of_nat d) (digits 10 n))"
    using digits_less [of 10 _ n] by (auto simp: digit_chars_def)
  have "map (\<lambda>d. the (digit_value (0x30 + of_nat d))) (digits 10 n) = digits 10 n"
    using d by (simp add: map_idI)
  then show "chars_val 10 (map (\<lambda>d. 0x30 + of_nat d) (digits 10 n)) = n"
    using digits_val_digits [of 10 n] by (simp add: chars_val_def comp_def)
qed

text \<open>strtoll and strtoull on such a string: the value clamped to 64 bits, signed or
  unsigned, with ERANGE set exactly if the numeral is out of range; strtoull negates modulo
  2 to the 64 after a minus sign.\<close>
theorem strtoll_strtoull_correct:
  assumes "\<forall>c\<in>set sp. isspace c" "sg \<in> {[], [0x2b], [0x2d]}" "digit_chars b cs" "cs \<noteq> []"
    and "rest = [] \<or> digit_value (hd rest) = None" "2 \<le> b" "b \<le> 36"
  defines "v \<equiv> int (chars_val b cs)"
  shows "strtoll (sp @ sg @ cs @ rest) (int b) =
      (if sg = [0x2d] then max (- (2 ^ 63)) (- v) else min (2 ^ 63 - 1) v, length (sp @ sg @ cs),
       if v \<le> (if sg = [0x2d] then 2 ^ 63 else 2 ^ 63 - 1) then None else Some ERANGE) \<and>
    strtoull (sp @ sg @ cs @ rest) (int b) =
      (if v < 2 ^ 64 then nat ((if sg = [0x2d] then - v else v) mod 2 ^ 64) else 2 ^ 64 - 1, length (sp @ sg @ cs),
       if v < 2 ^ 64 then None else Some ERANGE)"
proof -
  have m: "sint (0x8000000000000000 :: u64) = - (2 ^ 63)" "sint (0x7fffffffffffffff :: u64) = 2 ^ 63 - 1"
    "unat (0x8000000000000000 :: u64) = 2 ^ 63" "unat (0x7fffffffffffffff :: u64) = 2 ^ 63 - 1" by simp_all
  have "strtoll (sp @ sg @ cs @ rest) (int b) =
      (if sg = [0x2d] then max (- (2 ^ 63)) (- v) else min (2 ^ 63 - 1) v, length (sp @ sg @ cs),
       if v \<le> (if sg = [0x2d] then 2 ^ 63 else 2 ^ 63 - 1) then None else Some ERANGE)"
    unfolding strtoll_numeral [OF assms(1-7) refl] v_def
    using m sint_of_nat_u64 [of "chars_val b cs"] sint_minus_of_nat_u64 [of "chars_val b cs"]
    by (auto simp: max_def min_def)
  moreover have "unat (word_of_int k :: u64) = nat (k mod 2 ^ 64)" for k
    unfolding unat_eq_nat_uint unsigned_of_int take_bit_eq_mod by simp
  from this [of "- int (chars_val b cs)"] this [of "int (chars_val b cs)"] have "strtoull (sp @ sg @ cs @ rest) (int b) =
      (if v < 2 ^ 64 then nat ((if sg = [0x2d] then - v else v) mod 2 ^ 64) else 2 ^ 64 - 1, length (sp @ sg @ cs),
       if v < 2 ^ 64 then None else Some ERANGE)"
    unfolding strtoull_numeral [OF assms(1-7)] v_def by auto
  ultimately show ?thesis ..
qed

theorem strtoll_strtoull_correct_witness:
  "strtoll ([] @ [] @ [0x31, 0x37] @ []) (int 8) = (15, 2, None) \<and>
   strtoull ([] @ [] @ [0x31, 0x37] @ []) (int 8) = (15, 2, None)"
  using strtoll_strtoull_correct [of "[]" "[]" 8 "[0x31, 0x37]" "[]"]
  by (simp add: digit_chars_def digit_value_def chars_val_def)

lemma str_digit: "d < 10 \<Longrightarrow> str ''0123456789'' ! d = 0x30 + of_nat d"
  by (simp add: str_def less_Suc_eq numeral_eq_Suc) auto

lemma errstr_digits_decimal:
  "errstr_digits u t = map (\<lambda>d. 0x30 + of_nat d) (digits 10 (unat u)) @ t"
proof (induction u t rule: errstr_digits.induct)
  case (1 u t)
  have c: "str ''0123456789'' ! unat (u mod 10) = 0x30 + of_nat (unat u mod 10)"
    by (simp add: unat_mod str_digit)
  have u: "unat (u div 10) = unat u div 10" by (simp add: unat_div)
  show ?case
  proof (cases "u div 10 = 0")
    case True
    then have "unat u div 10 = 0" using u by simp
    then have "unat u < 10" by simp
    then show ?thesis using True c by (subst errstr_digits.simps, subst digits.simps) (simp add: Let_def)
  next
    case False
    then have "unat u div 10 \<noteq> 0" using u by (metis unat_eq_zero)
    then have "10 \<le> unat u" by simp
    then show ?thesis using False c 1 [OF refl refl False] u
      by (subst errstr_digits.simps, subst digits.simps) (simp add: Let_def)
  qed
qed

lemma errlist_short: "\<forall>m\<in>set sys_errlist. length m < 64"
  by (simp add: sys_errlist_def)

lemma digits_length: "0 < k \<Longrightarrow> n < 10 ^ k \<Longrightarrow> length (digits 10 n) \<le> k"
proof (induction k arbitrary: n)
  case (Suc k)
  show ?case
  proof (cases "n < 10")
    case False
    then have "10 \<le> n" "n < 10 ^ k * 10" using Suc.prems by simp_all
    then have "n div 10 < 10 ^ k" "0 < k" by (auto simp: less_mult_imp_div_less intro: Nat.gr0I)
    then show ?thesis using Suc.IH [of "n div 10"] False by (subst digits.simps) simp
  qed (subst digits.simps, simp)
qed simp

text \<open>strerror_r with a buffer large enough gives the message of the table for a known
  error number and \<open>Unknown error: n\<close>, with \<open>n\<close> in decimal, together with EINVAL for any other
  32-bit number.\<close>
theorem strerror_r_message:
  assumes "- (2 ^ 31) \<le> n" "n < 2 ^ 31" "64 \<le> len"
  shows "strerror_r n buf len =
    (if 0 \<le> n \<and> n \<le> 97 then (str (sys_errlist ! nat n), 0)
     else (str ''Unknown error: '' @ decimal n, EINVAL))"
proof (cases "0 \<le> n \<and> n \<le> 97")
  case True
  moreover have "length sys_errlist = 98" by (simp add: sys_errlist_def)
  ultimately have "nat n < length sys_errlist" by linarith
  then have "sys_errlist ! nat n \<in> set sys_errlist" by simp
  then have "length (sys_errlist ! nat n) < 64" using errlist_short by blast
  then show ?thesis using True assms(3) by (simp add: strerror_r_def strlcpy_text_def sys_nerr_def str_def)
next
  case False
  let ?u = "if n \<ge> 0 then word_of_int n else word_of_int (- n) :: u32"
  have w: "unat (word_of_int k :: u32) = nat k" if "0 \<le> k" "k < 2 ^ 32" for k
    unfolding unat_eq_nat_uint unsigned_of_int take_bit_eq_mod using that by simp
  have "unat ?u = nat \<bar>n\<bar>"
    using w [of n] w [of "- n"] assms by (cases "n \<ge> 0") simp_all
  then have e: "errstr_digits ?u [] = map (\<lambda>d. 0x30 + of_nat d) (digits 10 (nat \<bar>n\<bar>))"
    using errstr_digits_decimal [of ?u "[]"] by (simp only: append_Nil2)
  have d: "(if n < 0 then 0x2d # errstr_digits ?u [] else errstr_digits ?u []) = decimal n"
    unfolding e decimal_def by simp
  have l: "length (decimal n) \<le> 12"
  proof -
    have "nat \<bar>n\<bar> < 10 ^ 10" using assms(1,2) by simp
    then show ?thesis using digits_length [of 10 "nat \<bar>n\<bar>"] by (cases "n < 0") (simp_all add: decimal_def)
  qed
  have "str uprefix @ 0x3a # 0x20 # decimal n = str ''Unknown error: '' @ decimal n"
    by (simp add: str_def uprefix_def)
  moreover have "length (str uprefix) = 13" by (simp add: str_def uprefix_def)
  ultimately show ?thesis
    using False assms(3) l unfolding strerror_r_def errstr_def Let_def d
    by (auto simp: strlcpy_text_def strlcat_text_def sys_nerr_def)
qed

theorem strerror_r_message_witness:
  "strerror_r (- 42) [] 64 = (str ''Unknown error: -42'', EINVAL)"
  using strerror_r_message [of "- 42" 64 "[]"] by (simp add: str_def decimal_def digits.simps)

end
