(* ===== verification/Printf.thy ===== *)
theory Printf
  imports Convert Strings
begin

text \<open>
  Formatted output: stdio/printf.c, stdio/sprintf.c and the line editor of
  stdio/gets.c.  The characters handed to the output function are the list
  \<open>out\<close>; the return value of the C function is its length.  A variable
  argument list is a list of typed arguments (int, unsigned int, long and
  size_t are 32 bits wide on both targets); taking an argument of another type
  than the caller passed, or reading the format string beyond its terminator,
  is undefined in C and gives None.  The printer of floating-point numbers is
  the argument \<open>pd\<close>.
\<close>

section \<open>Formatting\<close>

text \<open>\<^verbatim>\<open>pn\<close>: the characters in the order they are put into the buffer.  The test
  \<open>num' < num\<close> holds for every base from 2 on and makes the function total.\<close>

definition pn_char :: "u64 \<Rightarrow> bool \<Rightarrow> u8" where
  "pn_char d upper = (if d < 10 then ucast d + 0x30 else if upper then ucast d + (0x41 - 10) else ucast d + (0x61 - 10))"

function pn :: "u64 \<Rightarrow> u64 \<Rightarrow> bool \<Rightarrow> u8 list" where
  "pn num base upper =
     (let c = pn_char (num mod base) upper; num' = num div base
      in if num' \<noteq> 0 \<and> num' < num then c # pn num' base upper else [c])"
  by pat_completeness auto
termination by (relation "measure (\<lambda>(n, _). unat n)") (auto simp: word_less_nat_alt)

declare pn.simps [simp del]

datatype 'x va = VaInt u32 | VaQuad u64 | VaStr "u8 list option" | VaPtr u32 | VaDouble 'x

record spec =
  qflag :: bool
  lflag :: bool
  ladjust :: bool
  sharpflag :: bool
  sign :: bool
  dot :: bool
  cflag :: bool
  hflag :: bool
  jflag :: bool
  zflag :: bool
  width :: int
  dwidth :: int
  padc :: u8

definition spec0 :: spec where
  "spec0 = \<lparr>qflag = False, lflag = False, ladjust = False, sharpflag = False, sign = False, dot = False,
     cflag = False, hflag = False, jflag = False, zflag = False, width = 0, dwidth = 0, padc = 0x20\<rparr>"

fun va_int :: "'x va list \<Rightarrow> (u32 \<times> 'x va list) option" where
  "va_int (VaInt w # ap) = Some (w, ap)"
| "va_int _ = None"

fun va_quad :: "'x va list \<Rightarrow> (u64 \<times> 'x va list) option" where
  "va_quad (VaQuad w # ap) = Some (w, ap)"
| "va_quad _ = None"

fun va_str :: "'x va list \<Rightarrow> (u8 list option \<times> 'x va list) option" where
  "va_str (VaStr s # ap) = Some (s, ap)"
| "va_str _ = None"

fun va_ptr :: "'x va list \<Rightarrow> (u32 \<times> 'x va list) option" where
  "va_ptr (VaPtr a # ap) = Some (a, ap)"
| "va_ptr _ = None"

fun va_double :: "'x va list \<Rightarrow> ('x \<times> 'x va list) option" where
  "va_double (VaDouble x # ap) = Some (x, ap)"
| "va_double _ = None"

text \<open>The digits of a width: the value and the rest of the format.\<close>

fun width_digits :: "int \<Rightarrow> u8 list \<Rightarrow> int \<times> u8 list" where
  "width_digits n [] = (n, [])"
| "width_digits n (c # cs) =
     (if 0x30 \<le> c \<and> c \<le> 0x39 then width_digits (n * 10 + int (unat (c - 0x30))) cs else (n, c # cs))"

lemma width_digits_rest: "width_digits n cs = (a, b) \<Longrightarrow> length b \<le> length cs"
  by (induction n cs rule: width_digits.induct) (auto split: if_splits)

lemma width_digits_less: "(a, b) = width_digits n cs \<Longrightarrow> length b < Suc (length cs)"
  using width_digits_rest [of n cs a b] by (simp add: less_Suc_eq_le)

text \<open>The switch up to the character that ends the directive: flags, widths and size
  modifiers.  The result is that character (None at the terminator), the flags, and the rest
  of the format and of the arguments.\<close>

function reswitch :: "spec \<Rightarrow> u8 list \<Rightarrow> 'x va list \<Rightarrow> (u8 option \<times> spec \<times> u8 list \<times> 'x va list) option" where
  "reswitch sp [] ap = Some (None, sp, [], ap)"
| "reswitch sp (ch # fmt) ap =
     (if ch = 0x2e then reswitch (sp\<lparr>dot := True\<rparr>) fmt ap
      else if ch = 0x23 then reswitch (sp\<lparr>sharpflag := True\<rparr>) fmt ap
      else if ch = 0x2b then reswitch (sp\<lparr>sign := True\<rparr>) fmt ap
      else if ch = 0x2d then reswitch (sp\<lparr>ladjust := True\<rparr>) fmt ap
      else if ch = 0x2a then
        (case va_int ap of
           None \<Rightarrow> None
         | Some (w, ap) \<Rightarrow>
             if \<not> dot sp then
               (if sint w < 0 then reswitch (sp\<lparr>ladjust := \<not> ladjust sp, width := - sint w\<rparr>) fmt ap
                else reswitch (sp\<lparr>width := sint w\<rparr>) fmt ap)
             else reswitch (sp\<lparr>dwidth := sint w\<rparr>) fmt ap)
      else if ch = 0x30 \<and> \<not> dot sp then reswitch (sp\<lparr>padc := 0x30\<rparr>) fmt ap
      else if 0x30 \<le> ch \<and> ch \<le> 0x39 then
        (let (n, fmt') = width_digits (int (unat (ch - 0x30))) fmt
         in reswitch (if dot sp then sp\<lparr>dwidth := n\<rparr> else sp\<lparr>width := n\<rparr>) fmt' ap)
      else if ch = 0x68 then
        (if hflag sp then reswitch (sp\<lparr>hflag := False, cflag := True\<rparr>) fmt ap
         else reswitch (sp\<lparr>hflag := True\<rparr>) fmt ap)
      else if ch = 0x6a then reswitch (sp\<lparr>jflag := True\<rparr>) fmt ap
      else if ch = 0x6c then
        (if lflag sp then reswitch (sp\<lparr>lflag := False, qflag := True\<rparr>) fmt ap
         else reswitch (sp\<lparr>lflag := True\<rparr>) fmt ap)
      else if ch = 0x71 then reswitch (sp\<lparr>qflag := True\<rparr>) fmt ap
      else if ch = 0x7a then reswitch (sp\<lparr>zflag := True\<rparr>) fmt ap
      else Some (Some ch, sp, fmt, ap))"
  by pat_completeness auto
termination
  by (relation "measure (\<lambda>(_, fmt, _). length fmt)") (auto dest: width_digits_less)

text \<open>The argument of an unsigned and of a signed conversion.\<close>

definition nosign_arg :: "spec \<Rightarrow> 'x va list \<Rightarrow> (u64 \<times> 'x va list) option" where
  "nosign_arg sp ap =
     (if jflag sp \<or> qflag sp then va_quad ap
      else map_option (\<lambda>(w, ap).
        (if lflag sp \<or> zflag sp then ucast w
         else if hflag sp then ucast (ucast w :: u16)
         else if cflag sp then ucast (ucast w :: u8)
         else ucast w, ap)) (va_int ap))"

definition sign_arg :: "spec \<Rightarrow> 'x va list \<Rightarrow> (u64 \<times> 'x va list) option" where
  "sign_arg sp ap =
     (if jflag sp \<or> qflag sp then va_quad ap
      else map_option (\<lambda>(w, ap).
        (if lflag sp \<or> zflag sp then scast w
         else if hflag sp then scast (ucast w :: u16)
         else if cflag sp then scast (ucast w :: u8)
         else scast w, ap)) (va_int ap))"

definition pad :: "u8 \<Rightarrow> int \<Rightarrow> u8 list" where
  "pad c n = replicate (nat n) c"

text \<open>The code at the label \<^verbatim>\<open>number\<close>.\<close>

definition number :: "spec \<Rightarrow> u64 \<Rightarrow> u64 \<Rightarrow> bool \<Rightarrow> u8 list" where
  "number sp num base upper =
     (let neg = (sign sp \<and> sint num < 0);
          num = (if neg then - num else num);
          p = pn num base upper;
          n = int (length p);
          tmp = (if sharpflag sp \<and> num \<noteq> 0 then (if base = 8 then 1 else if base = 16 then 2 else 0) else 0);
          tmp = (if neg then tmp + 1 else tmp);
          dw = (if \<not> ladjust sp \<and> padc sp = 0x30 then width sp - tmp else dwidth sp);
          w = width sp - (tmp + max dw n);
          dw = dw - n
      in (if \<not> ladjust sp then pad 0x20 w else []) @ (if neg then [0x2d] else []) @
         (if sharpflag sp \<and> num \<noteq> 0 then (if base = 8 then [0x30] else if base = 16 then [0x30, 0x78] else []) else []) @
         pad 0x30 dw @ rev p @ (if ladjust sp then pad 0x20 w else []))"

text \<open>\<^verbatim>\<open>\%s\<close>.\<close>

definition format_string :: "spec \<Rightarrow> u8 list option \<Rightarrow> u8 list" where
  "format_string sp s =
     (let p = (case s of None \<Rightarrow> str ''(null)'' | Some p \<Rightarrow> p);
          n = (if \<not> dot sp then length p else min (nat (dwidth sp)) (length p));
          w = width sp - int n
      in (if \<not> ladjust sp then pad (padc sp) w else []) @ take n p @ (if ladjust sp then pad (padc sp) w else []))"

text \<open>The size of the object \<^verbatim>\<open>\%n\<close> stores to.\<close>

definition store_size :: "spec \<Rightarrow> nat" where
  "store_size sp = (if jflag sp \<or> qflag sp then 8 else if lflag sp \<or> zflag sp then 4
     else if hflag sp then 2 else if cflag sp then 1 else 4)"

text \<open>One conversion.  The result is what is printed, the stores of \<^verbatim>\<open>\%n\<close> (address, size,
  value) and the rest of the arguments; \<open>Inl\<close> stands for the default branch.\<close>

type_synonym 'x conv = "(unit + u8 list \<times> (u32 \<times> nat \<times> int) list \<times> 'x va list) option"

definition number_conv :: "spec \<Rightarrow> u64 \<Rightarrow> bool \<Rightarrow> (u64 \<times> 'x va list) option \<Rightarrow> 'x conv" where
  "number_conv sp base upper arg = map_option (\<lambda>(num, ap). Inr (number sp num base upper, [], ap)) arg"

definition convert ::
  "('x \<Rightarrow> int \<Rightarrow> int \<Rightarrow> u8 \<Rightarrow> u8 \<Rightarrow> u8 list) \<Rightarrow> u8 \<Rightarrow> spec \<Rightarrow> nat \<Rightarrow> 'x va list \<Rightarrow> 'x conv" where
  "convert pd ch sp retval ap =
     (if ch = 0x25 then Some (Inr ([ch], [], ap))
      else if ch = 0x63 then map_option (\<lambda>(w, ap). Inr ([ucast w], [], ap)) (va_int ap)
      else if ch = 0x64 \<or> ch = 0x69 then number_conv (sp\<lparr>sign := True\<rparr>) 10 False (sign_arg sp ap)
      else if ch = 0x6e then
        map_option (\<lambda>(a, ap). Inr ([], [(a, store_size sp, int retval)], ap)) (va_ptr ap)
      else if ch = 0x6f then number_conv (sp\<lparr>sign := False\<rparr>) 8 False (nosign_arg sp ap)
      else if ch = 0x70 then
        number_conv (sp\<lparr>sharpflag := width sp = 0, sign := False\<rparr>) 16 False
          (map_option (\<lambda>(a, ap). (ucast a, ap)) (va_ptr ap))
      else if ch = 0x73 then map_option (\<lambda>(s, ap). Inr (format_string sp s, [], ap)) (va_str ap)
      else if ch = 0x75 then number_conv (sp\<lparr>sign := False\<rparr>) 10 False (nosign_arg sp ap)
      else if ch = 0x58 then number_conv (sp\<lparr>sign := False\<rparr>) 16 True (nosign_arg sp ap)
      else if ch = 0x78 then number_conv (sp\<lparr>sign := False\<rparr>) 16 False (nosign_arg sp ap)
      else if ch = 0x79 then number_conv (sp\<lparr>sign := True\<rparr>) 16 False (sign_arg sp ap)
      else if ch = 0x46 \<or> ch = 0x66 then
        map_option (\<lambda>(x, ap). Inr (pd x (width sp) (if dwidth sp = 0 then 6 else dwidth sp) (padc sp) ch, [], ap))
          (va_double ap)
      else Some (Inl ()))"

lemma reswitch_length: "reswitch sp fmt ap = Some (ch, sp', fmt', ap') \<Longrightarrow> length fmt' \<le> length fmt"
proof (induction "length fmt" arbitrary: sp fmt ap rule: less_induct)
  case less
  show ?case
  proof (cases fmt)
    case Nil
    then show ?thesis using less.prems by simp
  next
    case (Cons c cs)
    have IH: "length fmt' \<le> Suc (length cs)" if "length cs' \<le> length cs" "reswitch sp1 cs' ap1 = Some (ch, sp', fmt', ap')"
      for sp1 cs' ap1
      using less.hyps [OF _ that(2)] that(1) Cons by simp
    show ?thesis
      using less.prems Cons
      by (auto split: if_splits option.splits prod.splits dest: IH [OF order_refl] IH [OF width_digits_rest])
  qed
qed

text \<open>The main loop.  A directive that runs into the terminator takes the default branch, which
  prints it with the terminator, and the loop then reads on behind the terminator: None.\<close>

type_synonym stores = "(u32 \<times> nat \<times> int) list"

function xvprintf ::
  "('x \<Rightarrow> int \<Rightarrow> int \<Rightarrow> u8 \<Rightarrow> u8 \<Rightarrow> u8 list) \<Rightarrow> bool \<Rightarrow> u8 list \<Rightarrow> 'x va list \<Rightarrow> u8 list \<Rightarrow> stores \<Rightarrow>
   (u8 list \<times> stores) option" where
  "xvprintf pd stop [] ap out st = Some (out, st)"
| "xvprintf pd stop (ch # fmt) ap out st =
     (if ch \<noteq> 0x25 \<or> stop then xvprintf pd stop fmt ap (out @ [ch]) st
      else (case reswitch spec0 fmt ap of
              None \<Rightarrow> None
            | Some (None, sp, rest, ap') \<Rightarrow> None
            | Some (Some c, sp, rest, ap') \<Rightarrow>
                (case convert pd c sp (length out) ap' of
                   None \<Rightarrow> None
                 | Some (Inr (cs, st', ap'')) \<Rightarrow> xvprintf pd stop rest ap'' (out @ cs) (st @ st')
                 | Some (Inl _) \<Rightarrow>
                     xvprintf pd True rest ap' (out @ ch # take (length fmt - length rest) fmt) st)))"
  by pat_completeness auto
termination
  by (relation "measure (\<lambda>(_, _, fmt, _). length fmt)") (auto dest: reswitch_length simp: less_Suc_eq_le)

definition xvprintf_fmt ::
  "('x \<Rightarrow> int \<Rightarrow> int \<Rightarrow> u8 \<Rightarrow> u8 \<Rightarrow> u8 list) \<Rightarrow> u8 list option \<Rightarrow> 'x va list \<Rightarrow> (u8 list \<times> stores) option" where
  "xvprintf_fmt pd fmt ap =
     xvprintf pd False (case fmt of None \<Rightarrow> str ''(fmt null)'' @ [0xa] | Some f \<Rightarrow> f) ap [] []"

text \<open>\<^verbatim>\<open>printf\<close> and \<^verbatim>\<open>fprintf\<close>: the bytes written to the stream one by one, the stores of
  \<^verbatim>\<open>\%n\<close>, and the result.\<close>

definition fprintf ::
  "('x \<Rightarrow> int \<Rightarrow> int \<Rightarrow> u8 \<Rightarrow> u8 \<Rightarrow> u8 list) \<Rightarrow> u8 list option \<Rightarrow> 'x va list \<Rightarrow> (u8 list \<times> stores \<times> int) option" where
  "fprintf pd fmt ap = map_option (\<lambda>(out, st). (out, st, int (length out))) (xvprintf_fmt pd fmt ap)"

section \<open>Output into memory\<close>

record snprintf_arg =
  sn_str :: addr
  sn_remain :: u32

definition snprintf_pchar :: "u8 \<Rightarrow> mem \<times> snprintf_arg \<Rightarrow> mem \<times> snprintf_arg" where
  "snprintf_pchar c = (\<lambda>(m, info).
     let (m, info) = (if sn_remain info \<noteq> 1 then (m(sn_str info := c), info\<lparr>sn_str := sn_str info + 1\<rparr>) else (m, info))
     in (m, if sn_remain info \<ge> 2 then info\<lparr>sn_remain := sn_remain info - 1\<rparr> else info))"

definition vsnprintf ::
  "('x \<Rightarrow> int \<Rightarrow> int \<Rightarrow> u8 \<Rightarrow> u8 \<Rightarrow> u8 list) \<Rightarrow> mem \<Rightarrow> addr \<Rightarrow> u32 \<Rightarrow> u8 list option \<Rightarrow> 'x va list \<Rightarrow>
   (mem \<times> stores \<times> int) option" where
  "vsnprintf pd m str0 size0 fmt ap =
     map_option (\<lambda>(out, st).
       let (m, info) = fold snprintf_pchar out (m, \<lparr>sn_str = str0, sn_remain = size0\<rparr>)
       in (if sn_remain info \<ge> 1 then m(sn_str info := 0) else m, st, int (length out))) (xvprintf_fmt pd fmt ap)"

definition sprintf ::
  "('x \<Rightarrow> int \<Rightarrow> int \<Rightarrow> u8 \<Rightarrow> u8 \<Rightarrow> u8 list) \<Rightarrow> mem \<Rightarrow> addr \<Rightarrow> u8 list option \<Rightarrow> 'x va list \<Rightarrow>
   (mem \<times> stores \<times> int) option" where
  "sprintf pd m str0 fmt ap =
     map_option (\<lambda>(out, st).
       let (m, info) = fold snprintf_pchar out (m, \<lparr>sn_str = str0, sn_remain = 0\<rparr>)
       in (m(sn_str info := 0), st, int (length out))) (xvprintf_fmt pd fmt ap)"

definition snprintf ::
  "('x \<Rightarrow> int \<Rightarrow> int \<Rightarrow> u8 \<Rightarrow> u8 \<Rightarrow> u8 list) \<Rightarrow> mem \<Rightarrow> addr \<Rightarrow> u32 \<Rightarrow> u8 list option \<Rightarrow> 'x va list \<Rightarrow>
   (mem \<times> stores \<times> int) option" where
  "snprintf pd m str0 size0 fmt ap = vsnprintf pd m str0 size0 fmt ap"

text \<open>\<^verbatim>\<open>gets_s\<close>: the characters getchar returns are the list, whose end is the end of input;
  \<open>buf\<close> is what lies between \<^verbatim>\<open>cp\<close> and \<^verbatim>\<open>lp\<close>, \<open>echo\<close> what has been printed.  The result is the line,
  or None for NULL, the echo and the unread input.\<close>

fun gets_s :: "int \<Rightarrow> u8 list \<Rightarrow> u8 list \<Rightarrow> u8 list \<Rightarrow> u8 list option \<times> u8 list \<times> u8 list" where
  "gets_s n buf echo [] = (None, echo, [])"
| "gets_s n buf echo (c # cs) =
     (if c = 3 then (None, echo, cs)
      else if c = 0xa \<or> c = 0xd then (Some buf, echo @ [0xa], cs)
      else if c = 0x8 \<or> c = 0x7f then
        (if buf \<noteq> [] then gets_s n (butlast buf) (echo @ [c, 0x20, 0x8]) cs else gets_s n buf echo cs)
      else if c = 0 then gets_s n buf echo cs
      else if int (length buf) < n - 1 then gets_s n (buf @ [c]) (echo @ [c]) cs
      else gets_s n buf echo cs)"

section \<open>Numbers\<close>

definition digit_char :: "bool \<Rightarrow> nat \<Rightarrow> u8" where
  "digit_char upper d = (if d < 10 then of_nat d + 0x30 else of_nat d + (if upper then 0x41 - 10 else 0x61 - 10))"

lemma pn_char_digit: "unat d < 36 \<Longrightarrow> pn_char d upper = digit_char upper (unat d)"
proof -
  assume d: "unat d < 36"
  have "(ucast d :: u8) = of_nat (unat d)" by simp
  moreover have "d < 10 \<longleftrightarrow> unat d < 10" by (simp add: word_less_nat_alt)
  ultimately show ?thesis by (simp add: pn_char_def digit_char_def)
qed

lemma rev_pn:
  assumes "2 \<le> b" "b \<le> 36"
  shows "rev (pn num (of_nat b) upper) = map (digit_char upper) (digits b (unat num))"
proof (induction num "of_nat b :: u64" upper rule: pn.induct)
  case (1 num upper)
  have ub: "unat (of_nat b :: u64) = b" using assms by (simp add: unsigned_of_nat take_bit_nat_eq_self)
  have m: "unat (num mod of_nat b) = unat num mod b" "unat (num div of_nat b) = unat num div b"
    by (simp_all add: unat_mod unat_div ub)
  have c: "pn_char (num mod of_nat b) upper = digit_char upper (unat num mod b)"
    using pn_char_digit [of "num mod of_nat b" upper] m(1) assms
    by (simp add: order.strict_trans2 [OF mod_less_divisor])
  have z: "num div of_nat b = 0 \<longleftrightarrow> unat num < b" using m(2) assms by (metis div_eq_0_iff not_numeral_le_zero unat_eq_zero)
  have l: "num div of_nat b < num" if "\<not> unat num < b"
    using that m(2) assms by (simp add: word_less_nat_alt)
  show ?case
  proof (cases "unat num < b")
    case True
    then show ?thesis using z c by (subst pn.simps, subst digits.simps) (simp add: Let_def)
  next
    case False
    then have "rev (pn (num div of_nat b) (of_nat b) upper) = map (digit_char upper) (digits b (unat num div b))"
      using 1 [OF refl refl] z l m(2) by simp
    then show ?thesis using False z l c assms by (subst pn.simps, subst digits.simps) (simp add: Let_def)
  qed
qed

lemma digit_char_decimal: "d < 10 \<Longrightarrow> digit_char upper d = 0x30 + of_nat d"
  by (simp add: digit_char_def)

lemma pn_decimal: "rev (pn num 10 upper) = map (\<lambda>d. 0x30 + of_nat d) (digits 10 (unat num))"
proof -
  have "map (digit_char upper) (digits 10 (unat num)) = map (\<lambda>d. 0x30 + of_nat d) (digits 10 (unat num))"
    using digits_less [of 10 _ "unat num"] by (intro map_cong) (simp_all add: digit_char_decimal)
  then show ?thesis using rev_pn [of 10 num upper] by simp
qed

text \<open>The conversion of an int as C promotes it: \<open>sint\<close> of the 64-bit value.\<close>

lemma number_decimal:
  assumes "- (2 ^ 63) < k" "k < 2 ^ 63"
  shows "number (spec0\<lparr>sign := True\<rparr>) (word_of_int k) 10 False = decimal k"
proof -
  have s: "sint (word_of_int k :: u64) = k" using assms by (intro sint_word_of_int_64) simp_all
  have u: "unat (if k < 0 then - word_of_int k else word_of_int k :: u64) = nat \<bar>k\<bar>"
  proof -
    have w: "unat (word_of_int j :: u64) = nat j" if "0 \<le> j" "j < 2 ^ 64" for j
      unfolding unat_eq_nat_uint unsigned_of_int take_bit_eq_mod using that by simp
    show ?thesis using w [of k] w [of "- k"] assms by (cases "k < 0") simp_all
  qed
  have p: "0 < length (pn (if k < 0 then - word_of_int k else word_of_int k) 10 False)"
    using pn_decimal [of "if k < 0 then - word_of_int k else word_of_int k" False] digits_nonempty
    by (metis length_greater_0_conv list.map_disc_iff rev_is_Nil_conv)
  show ?thesis
    using p unfolding number_def Let_def
    by (simp add: s spec0_def pad_def decimal_def pn_decimal u [simplified] cong: if_cong)
qed

section \<open>Strings in memory\<close>

definition written :: "mem \<Rightarrow> addr \<Rightarrow> u8 list \<Rightarrow> mem" where
  "written m a cs = (\<lambda>x. if unat (x - a) < length cs then cs ! unat (x - a) else m x)"

lemma written_Nil [simp]: "written m a [] = m"
  by (simp add: written_def)

lemma written_snoc:
  assumes "length cs < 2 ^ 32"
  shows "(written m a cs)(a + of_nat (length cs) := c) = written m a (cs @ [c])"
proof (rule ext)
  fix x
  have u: "unat (of_nat (length cs) :: u32) = length cs"
    using assms by (simp add: unsigned_of_nat take_bit_nat_eq_self)
  have "x = a + of_nat (length cs) \<longleftrightarrow> x - a = of_nat (length cs)" by (auto simp: algebra_simps)
  also have "\<dots> \<longleftrightarrow> unat (x - a) = length cs" using u by (metis word_unat_eq_iff)
  finally have "x = a + of_nat (length cs) \<longleftrightarrow> unat (x - a) = length cs" .
  then show "((written m a cs)(a + of_nat (length cs) := c)) x = written m a (cs @ [c]) x"
    by (auto simp: written_def nth_append less_Suc_eq)
qed

lemma snprintf_unbounded:
  assumes "length (pre @ out) < 2 ^ 32"
  shows "fold snprintf_pchar out (written m a pre, \<lparr>sn_str = a + of_nat (length pre), sn_remain = 0\<rparr>) =
    (written m a (pre @ out), \<lparr>sn_str = a + of_nat (length (pre @ out)), sn_remain = 0\<rparr>)"
  using assms
proof (induction out arbitrary: pre)
  case (Cons c out)
  then show ?case using Cons.IH [of "pre @ [c]"] by (simp add: snprintf_pchar_def written_snoc algebra_simps)
qed simp

lemma snprintf_full: "fold snprintf_pchar out (m, \<lparr>sn_str = a, sn_remain = 1\<rparr>) = (m, \<lparr>sn_str = a, sn_remain = 1\<rparr>)"
proof (induction out)
  case (Cons c out)
  have "\<not> (2 :: u32) \<le> 1" by (simp add: word_le_nat_alt)
  then have "snprintf_pchar c (m, \<lparr>sn_str = a, sn_remain = 1\<rparr>) = (m, \<lparr>sn_str = a, sn_remain = 1\<rparr>)"
    by (simp add: snprintf_pchar_def)
  then show ?case using Cons.IH by simp
qed simp

lemma snprintf_bounded:
  assumes "1 \<le> r" "length pre + r < 2 ^ 32"
  shows "\<exists>q. fold snprintf_pchar out (written m a pre, \<lparr>sn_str = a + of_nat (length pre), sn_remain = of_nat r\<rparr>) =
    (written m a (pre @ take (r - 1) out), \<lparr>sn_str = a + of_nat (length (pre @ take (r - 1) out)), sn_remain = q\<rparr>) \<and> 1 \<le> q"
  using assms
proof (induction out arbitrary: pre r)
  case Nil
  then have "(1 :: u32) \<le> of_nat r" by (simp add: word_le_nat_alt unsigned_of_nat take_bit_nat_eq_self)
  then show ?case by auto
next
  case (Cons c out)
  show ?case
  proof (cases "r = 1")
    case True
    then show ?thesis using snprintf_full [of "c # out"] by auto
  next
    case False
    then have "r = Suc (Suc (r - 2))" using Cons.prems(1) by linarith
    then obtain k where k: "r = Suc (Suc k)" by blast
    have u: "unat (of_nat r :: u32) = r" using Cons.prems by (simp add: unsigned_of_nat take_bit_nat_eq_self)
    have "(of_nat r :: u32) \<noteq> 1"
    proof
      assume "(of_nat r :: u32) = 1"
      then have "unat (of_nat r :: u32) = unat (1 :: u32)" by (rule arg_cong)
      then show False using False unfolding u unsigned_1 by simp
    qed
    moreover have "(2 :: u32) \<le> of_nat r" unfolding word_le_nat_alt u using k by simp
    ultimately have "snprintf_pchar c (written m a pre, \<lparr>sn_str = a + of_nat (length pre), sn_remain = of_nat r\<rparr>) =
      (written m a (pre @ [c]), \<lparr>sn_str = a + of_nat (length (pre @ [c])), sn_remain = of_nat (Suc k)\<rparr>)"
      using Cons.prems k by (simp add: snprintf_pchar_def written_snoc algebra_simps)
    then show ?thesis using Cons.IH [of "Suc k" "pre @ [c]"] Cons.prems k by auto
  qed
qed

section \<open>Properties\<close>

lemma xvprintf_decimal:
  assumes "- (2 ^ 31) \<le> n" "n < 2 ^ 31"
  shows "xvprintf_fmt pd (Some (str ''%d'')) [VaInt (word_of_int n)] = Some (decimal n, [])"
proof -
  have "(scast (word_of_int n :: u32) :: u64) = word_of_int n"
    using sint_word_of_int_32 [OF assms] by (simp add: scast_eq)
  then show ?thesis
    using number_decimal [of n] assms
    by (simp add: xvprintf_fmt_def str_def convert_def number_conv_def sign_arg_def) (simp add: spec0_def)
qed

text \<open>C7: Printing any int with the format \<open>%d\<close> and reading the text with strtol in base 10
  gives the number back, and endptr is at the end of the text.\<close>
theorem printf_strtol_roundtrip:
  assumes "- (2 ^ 31) \<le> n" "n < 2 ^ 31"
  shows "\<exists>out. fprintf pd (Some (str ''%d'')) [VaInt (word_of_int n)] = Some (out, [], int (length out)) \<and>
    strtol out 10 = (n, length out)"
proof -
  let ?ds = "map (\<lambda>d. 0x30 + of_nat d) (digits 10 (nat \<bar>n\<bar>)) :: u8 list"
  let ?sg = "if n < 0 then [0x2d] else [] :: u8 list"
  have d: "decimal n = [] @ ?sg @ ?ds @ []" by (simp add: decimal_def)
  have "strtolx ([] @ ?sg @ ?ds @ []) (int 10) True =
    (if chars_val 10 ?ds \<le> unat (if True then if ?sg = [0x2d] then 0x80000000 else 0x7fffffff else 0xffffffff :: u32)
     then if ?sg = [0x2d] then - of_nat (chars_val 10 ?ds) else of_nat (chars_val 10 ?ds)
     else if True then if ?sg = [0x2d] then 0x80000000 else 0x7fffffff else 0xffffffff, length ([] @ ?sg @ ?ds))"
    by (rule strtolx_numeral [OF _ _ decimal_chars(1) _ _ _ _ refl]) (auto simp: digits_nonempty)
  then have "strtol (decimal n) 10 = (n, length (decimal n))"
    unfolding d [symmetric] strtol_def decimal_chars(2)
    using assms sint_of_nat_u32 [of "nat n"] sint_minus_of_nat_u32 [of "nat (- n)"]
    by (cases "n < 0") (auto simp: decimal_def)
  then show ?thesis
    using xvprintf_decimal [OF assms, of pd] by (simp add: fprintf_def)
qed

theorem printf_strtol_roundtrip_witness:
  "\<exists>out. fprintf (\<lambda>_ _ _ _ _. []) (Some (str ''%d'')) [VaInt (word_of_int (- 2147483648)) :: unit va] =
     Some (out, [], int (length out)) \<and> strtol out 10 = (- 2147483648, length out)"
  using printf_strtol_roundtrip [of "- 2147483648" "\<lambda>_ _ _ _ _. []"] by simp

text \<open>C29: snprintf into a buffer of size at least 1 writes the first size - 1 characters of the
  text and a terminator, changes no byte behind the terminator and none elsewhere, and returns the length of
  the whole text.\<close>
theorem snprintf_truncates:
  assumes "xvprintf_fmt pd fmt ap = Some (out, [])" "1 \<le> unat n"
  shows "\<exists>m'. snprintf pd m a n fmt ap = Some (m', [], int (length out)) \<and>
    bytes_at m' a (Suc (min (unat n - 1) (length out))) = take (unat n - 1) out @ [0] \<and>
    (\<forall>x. Suc (min (unat n - 1) (length out)) \<le> unat (x - a) \<longrightarrow> m' x = m x)"
proof -
  let ?t = "take (unat n - 1) out"
  have n: "unat n < 2 ^ 32" by (rule unat_u32_lt)
  obtain q where q: "fold snprintf_pchar out (m, \<lparr>sn_str = a, sn_remain = n\<rparr>) =
      (written m a ?t, \<lparr>sn_str = a + of_nat (length ?t), sn_remain = q\<rparr>)" "1 \<le> q"
    using snprintf_bounded [of "unat n" "[]" out m a] assms(2) n by auto
  have l: "length ?t < 2 ^ 32" "length ?t < unat n" using n assms(2) by auto
  have "snprintf pd m a n fmt ap = Some (written m a (?t @ [0]), [], int (length out))"
    using q assms(1) written_snoc [OF l(1), of m a 0] by (simp add: snprintf_def vsnprintf_def)
  moreover have "bytes_at (written m a (?t @ [0])) a (length (?t @ [0])) = ?t @ [0]"
    by (rule nth_equalityI)
      (use l n in \<open>auto simp: bytes_at_def written_def unsigned_of_nat take_bit_nat_eq_self nth_append\<close>)
  moreover have "length (?t @ [0]) = Suc (min (unat n - 1) (length out))" by (simp add: min.commute)
  moreover have "\<forall>x. length (?t @ [0]) \<le> unat (x - a) \<longrightarrow> written m a (?t @ [0]) x = m x"
    using l by (auto simp: written_def)
  ultimately show ?thesis by metis
qed

theorem snprintf_truncates_witness:
  "\<exists>m'. snprintf (\<lambda>_ _ _ _ _. []) (\<lambda>_. 7) 100 4 (Some (str ''%d'')) [VaInt (word_of_int 12345) :: unit va] =
     Some (m', [], 5) \<and> bytes_at m' 100 4 = [0x31, 0x32, 0x33, 0] \<and> (\<forall>x. 4 \<le> unat (x - 100) \<longrightarrow> m' x = 7)"
proof -
  have "decimal 12345 = [0x31, 0x32, 0x33, 0x34, 0x35]" by (simp add: decimal_def digits.simps)
  then have d: "length (decimal 12345) = 5" "take 3 (decimal 12345) = [0x31, 0x32, 0x33]" by simp_all
  show ?thesis
    using snprintf_truncates [of "\<lambda>_ _ _ _ _. []" "Some (str ''%d'')" "[VaInt (word_of_int 12345) :: unit va]"
        "decimal 12345" 4 "\<lambda>_. 7" 100] xvprintf_decimal [of 12345 "\<lambda>_ _ _ _ _. []"]
    by (simp add: d del: bytes_at_simps)
qed

text \<open>With size 0 snprintf does not refrain from writing: it stores the whole text at str,
  as sprintf does, without a terminator.\<close>
theorem snprintf_size_zero:
  assumes "xvprintf_fmt pd fmt ap = Some (out, [])" "length out < 2 ^ 32"
  shows "\<exists>m'. snprintf pd m a 0 fmt ap = Some (m', [], int (length out)) \<and> bytes_at m' a (length out) = out"
proof -
  have "snprintf pd m a 0 fmt ap = Some (written m a out, [], int (length out))"
    using snprintf_unbounded [of "[]" out m a] assms by (simp add: snprintf_def vsnprintf_def)
  moreover have "bytes_at (written m a out) a (length out) = out"
    by (rule nth_equalityI)
      (use assms(2) in \<open>auto simp: bytes_at_def written_def unsigned_of_nat take_bit_nat_eq_self\<close>)
  ultimately show ?thesis by blast
qed

theorem snprintf_size_zero_witness:
  "\<exists>m'. snprintf (\<lambda>_ _ _ _ _. []) (\<lambda>_. 7) 0 0 (Some (str ''%d'')) [VaInt (word_of_int 42) :: unit va] =
     Some (m', [], 2) \<and> bytes_at m' 0 2 = [0x34, 0x32]"
proof -
  have d: "decimal 42 = [0x34, 0x32]" by (simp add: decimal_def digits.simps)
  then have l: "length (decimal 42) = 2" by simp
  show ?thesis
    using snprintf_size_zero [of "\<lambda>_ _ _ _ _. []" "Some (str ''%d'')" "[VaInt (word_of_int 42) :: unit va]"
        "decimal 42" "\<lambda>_. 7" 0] xvprintf_decimal [of 42 "\<lambda>_ _ _ _ _. []"]
    unfolding l by (simp only: d) simp
qed

lemma xvprintf_literal:
  "\<forall>c\<in>set cs. c \<noteq> 0x25 \<Longrightarrow> xvprintf pd False (cs @ fmt) ap out st = xvprintf pd False fmt ap (out @ cs) st"
  by (induction cs arbitrary: out) simp_all

end
