(* ===== verification/Time.thy ===== *)
theory Time
  imports Printf
begin

text \<open>
  Calendar time: gmtime.c, timegm.c, asctime.c, clock.c and time.c of
  src/lib/src/stdtime.  \<^verbatim>\<open>time_t\<close> has 64 and \<^verbatim>\<open>long\<close> 32 bits; the calendar
  arithmetic is on integers and is that of the code as long as the number of
  days fits into a long.  C division and remainder truncate.  The registers of
  the real-time clock are a device; a load may change its state.
\<close>

section \<open>Broken-down time\<close>

record tm =
  tm_sec :: int
  tm_min :: int
  tm_hour :: int
  tm_mday :: int
  tm_mon :: int
  tm_year :: int
  tm_wday :: int
  tm_yday :: int
  tm_isdst :: int

abbreviation "SECSPERDAY \<equiv> 86400 :: int"
abbreviation "SECSPERHOUR \<equiv> 3600 :: int"
abbreviation "SECSPERMIN \<equiv> 60 :: int"

definition isleap :: "int \<Rightarrow> bool" where
  "isleap y \<longleftrightarrow> y smod 4 = 0 \<and> (y smod 100 \<noteq> 0 \<or> y smod 400 = 0)"

definition mon_lengths :: "bool \<Rightarrow> int list" where
  "mon_lengths leap = [31, if leap then 29 else 28, 31, 30, 31, 30, 31, 31, 30, 31, 30, 31]"

definition year_lengths :: "bool \<Rightarrow> int" where
  "year_lengths leap = (if leap then 366 else 365)"

definition LEAPS_THRU_END_OF :: "int \<Rightarrow> int" where
  "LEAPS_THRU_END_OF y = y sdiv 4 - y sdiv 100 + y sdiv 400"

text \<open>The two loops that bring \<^verbatim>\<open>rem\<close> into the range of a day.\<close>

function day_up :: "int \<Rightarrow> int \<Rightarrow> int \<times> int" where
  "day_up r days = (if r < 0 then day_up (r + SECSPERDAY) (days - 1) else (r, days))"
  by pat_completeness auto
termination by (relation "measure (\<lambda>(r, _). nat (- r))") auto

function day_down :: "int \<Rightarrow> int \<Rightarrow> int \<times> int" where
  "day_down r days = (if r \<ge> SECSPERDAY then day_down (r - SECSPERDAY) (days + 1) else (r, days))"
  by pat_completeness auto
termination by (relation "measure (\<lambda>(r, _). nat r)") auto

declare day_up.simps [simp del] day_down.simps [simp del]

partial_function (option) year_loop :: "int \<Rightarrow> int \<Rightarrow> (int \<times> int) option" where
  "year_loop y days =
     (if days < 0 \<or> days \<ge> year_lengths (isleap y) then
        (let newy = y + days sdiv 365;
             newy = (if days < 0 then newy - 1 else newy);
             days = days - ((newy - y) * 365 + LEAPS_THRU_END_OF (newy - 1) - LEAPS_THRU_END_OF (y - 1))
         in year_loop newy days)
      else Some (y, days))"

fun month_loop :: "int list \<Rightarrow> int \<Rightarrow> int \<Rightarrow> int \<times> int" where
  "month_loop [] mon days = (mon, days)"
| "month_loop (l # ls) mon days = (if days \<ge> l then month_loop ls (mon + 1) (days - l) else (mon, days))"

definition timesub :: "int \<Rightarrow> int \<Rightarrow> tm option" where
  "timesub t offset =
     (let days = t sdiv SECSPERDAY;
          r = t smod SECSPERDAY;
          r = r + offset;
          (r, days) = day_up r days;
          (r, days) = day_down r days;
          hour = r sdiv SECSPERHOUR;
          r = r smod SECSPERHOUR;
          wday = (4 + days) smod 7;
          wday = (if wday < 0 then wday + 7 else wday)
      in map_option (\<lambda>(y, days).
           let (mon, mday) = month_loop (mon_lengths (isleap y)) 0 days
           in \<lparr>tm_sec = r smod SECSPERMIN, tm_min = r sdiv SECSPERMIN, tm_hour = hour, tm_mday = mday + 1,
               tm_mon = mon, tm_year = y - 1900, tm_wday = wday, tm_yday = days, tm_isdst = 0\<rparr>) (year_loop 1970 days))"

definition gmtime_r :: "int \<Rightarrow> tm option" where
  "gmtime_r t = timesub t 0"

section \<open>The inverse\<close>

text \<open>\<^verbatim>\<open>timegm\<close>; its loop counters are unsigned.\<close>

definition is_leap :: "nat \<Rightarrow> bool" where
  "is_leap y = (let y = (y + 1900) mod 2 ^ 32 in y mod 4 = 0 \<and> (y mod 100 \<noteq> 0 \<or> y mod 400 = 0))"

definition ndays :: "bool \<Rightarrow> int list" where
  "ndays leap = [31, if leap then 29 else 28, 31, 30, 31, 30, 31, 31, 30, 31, 30, 31]"

definition unsigned_int :: "int \<Rightarrow> nat" where
  "unsigned_int k = nat (k mod 2 ^ 32)"

definition timegm :: "tm \<Rightarrow> int" where
  "timegm t =
     (if tm_mon t > 12 \<or> tm_mon t < 0 \<or> tm_mday t > 31 \<or> tm_min t > 60 \<or> tm_sec t > 60 \<or> tm_hour t > 24 then 0
      else
        (let res = (\<Sum>i\<leftarrow>[70..<unsigned_int (tm_year t)]. if is_leap i then 366 else 365);
             res = res + (\<Sum>i\<leftarrow>[0..<unsigned_int (tm_mon t)]. ndays (is_leap (unsigned_int (tm_year t))) ! i);
             res = res + (tm_mday t - 1);
             res = res * 24 + tm_hour t;
             res = res * 60 + tm_min t;
             res = res * 60 + tm_sec t
         in res))"

section \<open>The calendar\<close>

lemma sdiv_smod_nonneg: "0 \<le> a \<Longrightarrow> 0 < b \<Longrightarrow> (a :: int) sdiv b = a div b \<and> a smod b = a mod b"
  by (simp add: signed_divide_int_def signed_modulo_int_def sgn_if)

lemma sdiv_neg: "a < 0 \<Longrightarrow> 0 < b \<Longrightarrow> (a :: int) sdiv b = - (- a div b)"
  by (simp add: signed_divide_int_def sgn_if)

text \<open>The number of days from the start of 1970 to the start of year \<open>y\<close>.\<close>

definition days_before :: "int \<Rightarrow> int" where
  "days_before y = (y - 1970) * 365 + LEAPS_THRU_END_OF (y - 1) - LEAPS_THRU_END_OF 1969"

lemma isleap_pos: "0 < y \<Longrightarrow> isleap y \<longleftrightarrow> y mod 4 = 0 \<and> (y mod 100 \<noteq> 0 \<or> y mod 400 = 0)"
  by (simp add: isleap_def sdiv_smod_nonneg)

lemma leaps_pos: "0 \<le> y \<Longrightarrow> LEAPS_THRU_END_OF y = y div 4 - y div 100 + y div 400"
  by (simp add: LEAPS_THRU_END_OF_def sdiv_smod_nonneg)

lemma leap_cases:
  "a4 - b4 = (if p then 1 else 0) \<Longrightarrow> a100 - b100 = (if q then 1 else 0) \<Longrightarrow> a400 - b400 = (if r then 1 else 0) \<Longrightarrow>
   (r \<Longrightarrow> q) \<Longrightarrow> (q \<Longrightarrow> p) \<Longrightarrow>
   (a4 - a100 + a400) - (b4 - b100 + b400) = (if p \<and> (\<not> q \<or> r) then 1 else 0 :: int)"
  by (auto split: if_splits)

lemma leaps_Suc:
  assumes "1 \<le> y" shows "LEAPS_THRU_END_OF y - LEAPS_THRU_END_OF (y - 1) = (if isleap y then 1 else 0)"
proof -
  have d: "y div k - (y - 1) div k = (if y mod k = 0 then 1 else 0)" if "0 < k" for k :: int
  proof -
    have e: "y = k * (y div k) + y mod k" "0 \<le> y mod k" "y mod k < k" using that by simp_all
    show ?thesis
    proof (cases "y mod k = 0")
      case True
      have "y - 1 = k * (y div k - 1) + (k - 1)" using e(1) True by (simp add: algebra_simps)
      then have "(y - 1) div k = y div k - 1" by (rule int_div_pos_eq) (use that in simp_all)
      then show ?thesis using True by simp
    next
      case False
      have "y - 1 = k * (y div k) + (y mod k - 1)" using e(1) by linarith
      then have "(y - 1) div k = y div k" by (rule int_div_pos_eq) (use e False in linarith)+
      then show ?thesis using False by simp
    qed
  qed
  have "(100 :: int) dvd 400" "(4 :: int) dvd 100" by simp_all
  then have "y mod 400 = 0 \<Longrightarrow> y mod 100 = 0" "y mod 100 = 0 \<Longrightarrow> y mod 4 = 0"
    unfolding mod_eq_0_iff_dvd by (meson dvd_trans)+
  then have "(y div 4 - y div 100 + y div 400) - ((y - 1) div 4 - (y - 1) div 100 + (y - 1) div 400) =
      (if y mod 4 = 0 \<and> (y mod 100 \<noteq> 0 \<or> y mod 400 = 0) then 1 else 0)"
    by (intro leap_cases d) simp_all
  moreover have "LEAPS_THRU_END_OF y = y div 4 - y div 100 + y div 400"
    "LEAPS_THRU_END_OF (y - 1) = (y - 1) div 4 - (y - 1) div 100 + (y - 1) div 400"
    using assms by (intro leaps_pos, simp)+
  moreover have "isleap y \<longleftrightarrow> y mod 4 = 0 \<and> (y mod 100 \<noteq> 0 \<or> y mod 400 = 0)" using assms by (intro isleap_pos) simp
  ultimately show ?thesis by (simp only:)
qed

lemma days_before_Suc: "1 \<le> y \<Longrightarrow> days_before (y + 1) = days_before y + year_lengths (isleap y)"
  using leaps_Suc [of y] by (simp add: days_before_def year_lengths_def algebra_simps)

lemma leaps_bounds:
  assumes "1 \<le> y"
  shows "LEAPS_THRU_END_OF (y - 1) \<le> LEAPS_THRU_END_OF (y + int n - 1) \<and>
    LEAPS_THRU_END_OF (y + int n - 1) \<le> LEAPS_THRU_END_OF (y - 1) + int n"
proof (induction n)
  case (Suc n)
  then show ?case using leaps_Suc [of "y + int n"] assms by (auto simp: algebra_simps split: if_splits)
qed simp

lemma leaps_diff:
  assumes "1 \<le> y" "y \<le> z"
  shows "0 \<le> LEAPS_THRU_END_OF (z - 1) - LEAPS_THRU_END_OF (y - 1)"
    "LEAPS_THRU_END_OF (z - 1) - LEAPS_THRU_END_OF (y - 1) \<le> z - y"
  using leaps_bounds [OF assms(1), of "nat (z - y)"] assms(2) by (auto simp: algebra_simps)

text \<open>One round of the year loop.\<close>

lemma year_loop_step:
  assumes "days < 0 \<or> days \<ge> year_lengths (isleap y)" "D = days_before y + days"
  shows "year_loop y days =
    (let newy = (if days < 0 then y - (- days) div 365 - 1 else y + days div 365) in year_loop newy (D - days_before newy))"
proof -
  have "0 \<le> days \<or> days < 0" by linarith
  then show ?thesis
    using assms unfolding year_loop.simps [of y days] Let_def days_before_def
    by (auto simp: sdiv_smod_nonneg sdiv_neg year_lengths_def algebra_simps)
qed

text \<open>The years that the loop can reach for the given range of days.\<close>

lemma year_loop_range:
  assumes "0 \<le> D" "D < 13000000" "1500 \<le> y" "y \<le> 40000" "days = D - days_before y"
  shows "0 \<le> days \<Longrightarrow> y + days div 365 \<le> 40000"
    and "days < 0 \<Longrightarrow> 1500 \<le> y - (- days) div 365 - 1"
proof -
  have b: "y \<ge> 1970 \<Longrightarrow> (y - 1970) * 365 \<le> days_before y \<and> days_before y \<le> (y - 1970) * 366"
    "y < 1970 \<Longrightarrow> (y - 1970) * 366 \<le> days_before y \<and> days_before y \<le> (y - 1970) * 365"
    using leaps_diff [of 1970 y] leaps_diff [of y 1970] assms by (auto simp: days_before_def)
  show "y + days div 365 \<le> 40000" if "0 \<le> days"
  proof -
    have "days \<le> 13000000 - (y - 1970) * 365 + 470" using b assms by (cases "y \<ge> 1970") auto
    then have "days div 365 \<le> (13000000 - (y - 1970) * 365 + 470) div 365" by (rule zdiv_mono1) simp
    also have "\<dots> = (13000470 + (1970 - y) * 365) div 365" by (simp add: algebra_simps)
    also have "\<dots> = 35617 + (1970 - y)" by (subst div_mult_self1) simp_all
    finally show ?thesis by simp
  qed
  show "1500 \<le> y - (- days) div 365 - 1" if "days < 0"
  proof -
    have y: "1970 \<le> y" using b assms that by (cases "1970 \<le> y") auto
    have "- days \<le> 38030 + (y - 1970) * 365" using b y assms by auto
    then have "(- days) div 365 \<le> (38030 + (y - 1970) * 365) div 365" by (rule zdiv_mono1) simp
    also have "\<dots> = 104 + (y - 1970)" by (subst div_mult_self1) simp_all
    finally show ?thesis by simp
  qed
qed

text \<open>The loop ends at the year that contains the day.\<close>

definition in_year :: "int \<Rightarrow> (int \<times> int) option \<Rightarrow> bool" where
  "in_year D r \<longleftrightarrow> (\<exists>y days. r = Some (y, days) \<and> 1500 \<le> y \<and> y \<le> 40000 \<and> 0 \<le> days \<and> days < year_lengths (isleap y) \<and>
     D = days_before y + days)"

lemma year_loop_next:
  assumes D: "0 \<le> D" "D < 13000000" and y: "1500 \<le> y" "y \<le> 40000" and days: "days = D - days_before y"
    and stop: "\<not> (0 \<le> days \<and> days < year_lengths (isleap y))"
  obtains y' days' where "year_loop y days = year_loop y' days'" "1500 \<le> y'" "y' \<le> 40000" "days' = D - days_before y'"
    "0 \<le> days \<Longrightarrow> y' = y + days div 365 \<and> - (days div 365) \<le> days' \<and> days' \<le> 364"
    "days < 0 \<Longrightarrow> y' = y - (- days) div 365 - 1 \<and> 365 - (- days) mod 365 \<le> days' \<and>
       days' \<le> 365 - (- days) mod 365 + ((- days) div 365 + 1)"
proof -
  define y' where "y' = (if days < 0 then y - (- days) div 365 - 1 else y + days div 365)"
  define days' where "days' = D - days_before y'"
  have "0 \<le> days \<Longrightarrow> 0 \<le> days div 365" "days < 0 \<Longrightarrow> 0 \<le> (- days) div 365"
    by (simp_all add: pos_imp_zdiv_nonneg_iff)
  then have r: "1500 \<le> y'" "y' \<le> 40000"
    using year_loop_range [OF D y days] y unfolding y'_def by (cases "days < 0"; simp)+
  have step: "year_loop y days = year_loop y' days'"
  proof -
    have "days < 0 \<or> days \<ge> year_lengths (isleap y)" "D = days_before y + days" using stop days by linarith+
    from year_loop_step [OF this] show ?thesis by (simp only: Let_def y'_def days'_def)
  qed
  have pos: "- (days div 365) \<le> days' \<and> days' \<le> 364" if "0 \<le> days"
  proof -
    define q m where "q = days div 365" and "m = days mod 365"
    have qm: "days = 365 * q + m" "0 \<le> m" "m < 365" "0 \<le> q"
      using that by (simp_all add: q_def m_def pos_imp_zdiv_nonneg_iff)
    have y': "y' = y + q" using that by (simp add: y'_def q_def)
    have "days' = days - 365 * q - (LEAPS_THRU_END_OF (y' - 1) - LEAPS_THRU_END_OF (y - 1))"
      unfolding days'_def days days_before_def y' by (simp add: algebra_simps)
    moreover have "0 \<le> LEAPS_THRU_END_OF (y' - 1) - LEAPS_THRU_END_OF (y - 1)"
      "LEAPS_THRU_END_OF (y' - 1) - LEAPS_THRU_END_OF (y - 1) \<le> y' - y"
      using y y' qm(4) by (intro leaps_diff; simp)+
    ultimately have "- q \<le> days' \<and> days' \<le> 364" using qm y' by (intro conjI) linarith+
    then show ?thesis by (simp only: q_def)
  qed
  have neg: "365 - (- days) mod 365 \<le> days' \<and> days' \<le> 365 - (- days) mod 365 + ((- days) div 365 + 1)" if "days < 0"
  proof -
    define q m where "q = (- days) div 365" and "m = (- days) mod 365"
    have qm: "- days = 365 * q + m" "0 \<le> q" using that unfolding q_def m_def by (simp_all add: pos_imp_zdiv_nonneg_iff)
    have y': "y' = y - q - 1" using that by (simp add: y'_def q_def)
    have "days' = days + 365 * q + 365 + (LEAPS_THRU_END_OF (y - 1) - LEAPS_THRU_END_OF (y' - 1))"
      unfolding days'_def days days_before_def y' by (simp add: algebra_simps)
    moreover have "0 \<le> LEAPS_THRU_END_OF (y - 1) - LEAPS_THRU_END_OF (y' - 1)"
      "LEAPS_THRU_END_OF (y - 1) - LEAPS_THRU_END_OF (y' - 1) \<le> y - y'"
      using r y' qm(2) by (intro leaps_diff; simp)+
    ultimately have "365 - m \<le> days' \<and> days' \<le> 365 - m + (q + 1)" using qm y' by (intro conjI) linarith+
    then show ?thesis by (simp only: q_def m_def)
  qed
  show thesis
  proof (rule that [OF step r days'_def])
    show "0 \<le> days \<Longrightarrow> y' = y + days div 365 \<and> - (days div 365) \<le> days' \<and> days' \<le> 364"
      using pos by (simp add: y'_def)
    show "days < 0 \<Longrightarrow> y' = y - (- days) div 365 - 1 \<and> 365 - (- days) mod 365 \<le> days' \<and>
       days' \<le> 365 - (- days) mod 365 + ((- days) div 365 + 1)"
      using neg unfolding y'_def by (simp only: if_True simp_thms)
  qed
qed

lemma year_loop_stop: "0 \<le> days \<Longrightarrow> days < year_lengths (isleap y) \<Longrightarrow> year_loop y days = Some (y, days)"
  by (simp add: year_loop.simps [of y days])

lemma in_year_stop:
  "0 \<le> days \<Longrightarrow> days < 365 \<Longrightarrow> 1500 \<le> y \<Longrightarrow> y \<le> 40000 \<Longrightarrow> days = D - days_before y \<Longrightarrow> in_year D (year_loop y days)"
  by (auto simp: in_year_def year_loop_stop year_lengths_def)

text \<open>The last rounds: from within the year before, within the next year, and two years off.\<close>

lemma year_loop_back:
  assumes "0 \<le> D" "D < 13000000" "1500 \<le> y" "y \<le> 40000" "days = D - days_before y" "- 365 < days" "days < 0"
  shows "in_year D (year_loop y days)"
proof (rule year_loop_next [OF assms(1-5)])
  fix y' days'
  assume s: "year_loop y days = year_loop y' days'" "1500 \<le> y'" "y' \<le> 40000" "days' = D - days_before y'"
    "days < 0 \<Longrightarrow> y' = y - (- days) div 365 - 1 \<and> 365 - (- days) mod 365 \<le> days' \<and>
       days' \<le> 365 - (- days) mod 365 + ((- days) div 365 + 1)"
  have "(- days) div 365 = 0" using assms(6,7) by (simp add: div_pos_pos_trivial)
  then have y': "y' = y - 1" using s(5) assms(7) by simp
  have "days_before y = days_before y' + year_lengths (isleap y')"
    using days_before_Suc [of y'] s(2) y' by simp
  then have "0 \<le> days'" "days' < year_lengths (isleap y')"
    using s(4) assms(5,6,7) by (simp_all add: year_lengths_def split: if_splits)
  then show ?thesis using s(1-4) by (auto simp: in_year_def year_loop_stop)
qed (use assms(7) in simp_all)

lemma year_loop_forward:
  assumes "0 \<le> D" "D < 13000000" "1500 \<le> y" "y \<le> 40000" "days = D - days_before y" "0 \<le> days" "days < 730"
  shows "in_year D (year_loop y days)"
proof (cases "days < year_lengths (isleap y)")
  case True
  then show ?thesis using assms by (auto simp: in_year_def year_loop_stop)
next
  case False
  show ?thesis
  proof (rule year_loop_next [OF assms(1-5)])
    fix y' days'
    assume s: "year_loop y days = year_loop y' days'" "1500 \<le> y'" "y' \<le> 40000" "days' = D - days_before y'"
      "0 \<le> days \<Longrightarrow> y' = y + days div 365 \<and> - (days div 365) \<le> days' \<and> days' \<le> 364"
    have "365 \<le> days" using False by (simp add: year_lengths_def split: if_splits)
    then have "days div 365 = 1" using assms(7) by (intro int_div_pos_eq [of _ _ _ "days - 365"]) simp_all
    then have "- 1 \<le> days'" "days' \<le> 364" using s(5) assms(6) by simp_all
    then show ?thesis
      using in_year_stop [OF _ _ s(2,3,4)] year_loop_back [OF assms(1,2) s(2,3,4)] s(1) by (cases "0 \<le> days'") simp_all
  qed (use False in simp)
qed

lemma year_loop_ends:
  assumes "0 \<le> D" "D < 13000000" "1500 \<le> y" "y \<le> 40000" "days = D - days_before y"
  shows "in_year D (year_loop y days)"
  using assms(3-5)
proof (induction "nat \<bar>days\<bar>" arbitrary: y days rule: less_induct)
  case less
  consider (near) "- 365 < days" "days < 0" | (fore) "0 \<le> days" "days < 730" | (far) "730 \<le> days"
    | (behind) "days \<le> - 365" by linarith
  then show ?case
  proof cases
    case near
    then show ?thesis using year_loop_back [OF assms(1,2) less.prems] by simp
  next
    case fore
    then show ?thesis using year_loop_forward [OF assms(1,2) less.prems] by simp
  next
    case far
    show ?thesis
    proof (rule year_loop_next [OF assms(1,2) less.prems])
      fix y' days'
      assume s: "year_loop y days = year_loop y' days'" "1500 \<le> y'" "y' \<le> 40000" "days' = D - days_before y'"
        "0 \<le> days \<Longrightarrow> y' = y + days div 365 \<and> - (days div 365) \<le> days' \<and> days' \<le> 364"
      have "days div 365 < days" using far by (intro int_div_less_self) simp_all
      then have "\<bar>days'\<bar> < \<bar>days\<bar>" using s(5) far by linarith
      then show ?thesis using less.hyps [OF _ s(2,3,4)] s(1) by simp
    qed (use far in \<open>simp add: year_lengths_def\<close>)
  next
    case behind
    show ?thesis
    proof (rule year_loop_next [OF assms(1,2) less.prems])
      fix y' days'
      assume s: "year_loop y days = year_loop y' days'" "1500 \<le> y'" "y' \<le> 40000" "days' = D - days_before y'"
        "days < 0 \<Longrightarrow> y' = y - (- days) div 365 - 1 \<and> 365 - (- days) mod 365 \<le> days' \<and>
           days' \<le> 365 - (- days) mod 365 + ((- days) div 365 + 1)"
      define q m where "q = (- days) div 365" and "m = (- days) mod 365"
      have qm: "- days = 365 * q + m" "0 \<le> m" "m < 365" "1 \<le> q"
        using behind zdiv_mono1 [of 365 "- days" 365] unfolding q_def m_def by simp_all
      have d: "365 - m \<le> days'" "days' \<le> 365 - m + (q + 1)" using s(5) behind by (simp_all only: q_def m_def)
      show ?thesis
      proof (cases "q = 1")
        case True
        then show ?thesis using year_loop_forward [OF assms(1,2) s(2,3,4)] d qm s(1) by simp
      next
        case False
        then have "\<bar>days'\<bar> < \<bar>days\<bar>" using d qm by linarith
        then show ?thesis using less.hyps [OF _ s(2,3,4)] s(1) by simp
      qed
    qed (use behind in simp)
  qed
qed

section \<open>Months and seconds\<close>

lemma month_loop_split:
  assumes "0 \<le> days" "days < sum_list ls" "\<forall>l\<in>set ls. 0 < l"
  shows "\<exists>k d. month_loop ls mon days = (mon + int k, d) \<and> k < length ls \<and> days = sum_list (take k ls) + d \<and>
    0 \<le> d \<and> d < ls ! k"
  using assms
proof (induction ls arbitrary: mon days)
  case (Cons l ls)
  show ?case
  proof (cases "days \<ge> l")
    case True
    then obtain k d where "month_loop ls (mon + 1) (days - l) = (mon + 1 + int k, d)" "k < length ls"
      "days - l = sum_list (take k ls) + d" "0 \<le> d" "d < ls ! k"
      using Cons.IH [of "days - l" "mon + 1"] Cons.prems by auto
    then show ?thesis using True by (intro exI [of _ "Suc k"] exI [of _ d]) auto
  next
    case False
    then show ?thesis using Cons.prems by (intro exI [of _ 0] exI [of _ days]) auto
  qed
qed simp

lemma sum_nth_take: "k \<le> length ls \<Longrightarrow> (\<Sum>i\<leftarrow>[0..<k]. ls ! i) = sum_list (take k ls)"
  by (intro arg_cong [of _ _ sum_list] nth_equalityI) simp_all

lemma mon_lengths_facts:
  "sum_list (mon_lengths leap) = year_lengths leap" "\<forall>l\<in>set (mon_lengths leap). 0 < l \<and> l \<le> 31" "length (mon_lengths leap) = 12"
  "ndays leap = mon_lengths leap"
  by (simp_all add: mon_lengths_def year_lengths_def ndays_def)

lemma is_leap_isleap: "n + 1900 < 2 ^ 32 \<Longrightarrow> is_leap n \<longleftrightarrow> isleap (int n + 1900)"
proof -
  assume n: "n + 1900 < 2 ^ 32"
  have z: "int m mod numeral k = 0 \<longleftrightarrow> m mod numeral k = 0" for m k
    by (metis of_nat_eq_0_iff of_nat_mod of_nat_numeral)
  have e: "int n + 1900 = int (n + 1900)" by simp
  have "isleap (int n + 1900) \<longleftrightarrow> (n + 1900) mod 4 = 0 \<and> ((n + 1900) mod 100 \<noteq> 0 \<or> (n + 1900) mod 400 = 0)"
    unfolding e by (subst isleap_pos, simp, simp only: z)
  moreover have "(n + 1900) mod 2 ^ 32 = n + 1900" using n by simp
  ultimately show ?thesis by (simp only: is_leap_def Let_def)
qed

lemma sum_years:
  "70 \<le> n \<Longrightarrow> n + 1900 < 2 ^ 32 \<Longrightarrow> (\<Sum>i\<leftarrow>[70..<n]. if is_leap i then 366 else 365) = days_before (int n + 1900)"
proof (induction n rule: nat_induct_at_least)
  case base
  then show ?case by (simp add: days_before_def)
next
  case (Suc n)
  then show ?case
    using days_before_Suc [of "int n + 1900"] is_leap_isleap [of n] by (simp add: year_lengths_def algebra_simps)
qed

lemma days_before_1970: "1500 \<le> y \<Longrightarrow> y \<le> 1970 \<Longrightarrow> days_before y \<le> 0"
  using leaps_diff [of y 1970] by (simp add: days_before_def)

lemma year_loop_1970:
  assumes "0 \<le> D" "D < 13000000"
  obtains y days where "year_loop 1970 D = Some (y, days)" "1970 \<le> y" "y \<le> 40000" "0 \<le> days"
    "days < year_lengths (isleap y)" "D = days_before y + days"
proof -
  obtain y days where r: "year_loop 1970 D = Some (y, days)" "1500 \<le> y" "y \<le> 40000" "0 \<le> days"
    "days < year_lengths (isleap y)" "D = days_before y + days"
    using year_loop_ends [OF assms, of 1970 D] by (auto simp: days_before_def in_year_def)
  have "1970 \<le> y"
  proof (rule ccontr)
    assume "\<not> 1970 \<le> y"
    then have "days_before (y + 1) \<le> 0" using r(2) by (intro days_before_1970) simp_all
    then show False using days_before_Suc [of y] r assms(1) by simp
  qed
  then show thesis using that r by blast
qed

lemma clock_sum:
  "t = 86400 * D + r \<Longrightarrow> r = h * 3600 + w \<Longrightarrow> w = n * 60 + s \<Longrightarrow> ((D * 24 + h) * 60 + n) * 60 + s = (t :: int)"
  by (simp add: algebra_simps)

text \<open>C8: gmtime_r returns for every time from 0 up to 2 to the 40 seconds after the epoch,
  every field of the broken-down time is in its range, and timegm gives the time back.\<close>
theorem gmtime_timegm_roundtrip:
  assumes "0 \<le> t" "t < 2 ^ 40"
  shows "\<exists>u. gmtime_r t = Some u \<and> timegm u = t \<and>
    tm_sec u \<in> {0..59} \<and> tm_min u \<in> {0..59} \<and> tm_hour u \<in> {0..23} \<and> tm_mday u \<in> {1..31} \<and>
    tm_mon u \<in> {0..11} \<and> 70 \<le> tm_year u \<and> tm_wday u = (4 + t div 86400) mod 7 \<and> tm_yday u \<in> {0..365}"
proof -
  define D r where "D = t div 86400" and "r = t mod 86400"
  have D: "0 \<le> D" "D < 13000000" and r: "0 \<le> r" "r < 86400" and t: "t = 86400 * D + r"
    using assms zdiv_mono1 [of t "2 ^ 40" 86400] by (simp_all add: D_def r_def pos_imp_zdiv_nonneg_iff)
  obtain y days where y: "year_loop 1970 D = Some (y, days)" "1970 \<le> y" "y \<le> 40000" "0 \<le> days"
    "days < year_lengths (isleap y)" "D = days_before y + days"
    by (rule year_loop_1970 [OF D])
  let ?ls = "mon_lengths (isleap y)"
  obtain k d where m: "month_loop ?ls 0 days = (int k, d)" "k < 12" "days = sum_list (take k ?ls) + d" "0 \<le> d" "d < ?ls ! k"
    using month_loop_split [of days ?ls 0] y(4,5) mon_lengths_facts [of "isleap y"] by auto
  have d31: "d < 31" using m(2,5) mon_lengths_facts(2,3) [of "isleap y"] by (metis nth_mem order_less_le_trans)
  let ?u = "\<lparr>tm_sec = r mod 3600 mod 60, tm_min = r mod 3600 div 60, tm_hour = r div 3600, tm_mday = d + 1,
      tm_mon = int k, tm_year = y - 1900, tm_wday = (4 + D) mod 7, tm_yday = days, tm_isdst = 0\<rparr>"
  have g: "gmtime_r t = Some ?u"
  proof -
    have "t sdiv SECSPERDAY = D" "t smod SECSPERDAY = r" "r sdiv 3600 = r div 3600" "r smod 3600 = r mod 3600"
      "(r mod 3600) sdiv 60 = r mod 3600 div 60" "(r mod 3600) smod 60 = r mod 3600 mod 60" "(4 + D) smod 7 = (4 + D) mod 7"
      using assms(1) D(1) r(1) by (simp_all add: sdiv_smod_nonneg D_def r_def)
    moreover have "\<not> (4 + D) mod 7 < 0" by (simp add: not_less)
    ultimately show ?thesis
      using r D y(1) m(1) unfolding gmtime_r_def timesub_def
      by (simp add: Let_def day_up.simps [of r D] day_down.simps [of r D])
  qed
  have rng: "r div 3600 \<in> {0..23}" "r mod 3600 div 60 \<in> {0..59}" "r mod 3600 mod 60 \<in> {0..59}" using r by auto
  have n: "unsigned_int (y - 1900) = nat (y - 1900)" "unsigned_int (int k) = k"
    using y(2,3) m(2) by (simp_all add: unsigned_int_def)
  have "nat (y - 1900) + 1900 < 2 ^ 32" "70 \<le> nat (y - 1900)" "int (nat (y - 1900)) + 1900 = y" using y(2,3) by auto
  then have yl: "(\<Sum>i\<leftarrow>[70..<nat (y - 1900)]. if is_leap i then 366 else 365) = days_before y"
    "is_leap (nat (y - 1900)) = isleap y"
    using sum_years [of "nat (y - 1900)"] is_leap_isleap [of "nat (y - 1900)"] by (simp_all only:)
  have ml: "(\<Sum>i\<leftarrow>[0..<k]. ndays (isleap y) ! i) = sum_list (take k ?ls)"
    using sum_nth_take [of k ?ls] m(2) mon_lengths_facts(3,4) by simp
  have "timegm ?u = ((D * 24 + r div 3600) * 60 + r mod 3600 div 60) * 60 + r mod 3600 mod 60"
    using rng d31 m y(6) unfolding timegm_def by (simp add: Let_def n yl ml)
  also have "\<dots> = t" by (rule clock_sum [OF t div_mult_mod_eq [symmetric] div_mult_mod_eq [symmetric]])
  finally have "timegm ?u = t" .
  moreover have "tm_yday ?u \<in> {0..365}" using y(4,5) by (auto simp: year_lengths_def split: if_splits)
  moreover have "0 \<le> d" "d < 31" "k < 12" "1970 \<le> y" using d31 m(2,4) y(2) by simp_all
  ultimately show ?thesis
    using g rng unfolding D_def [symmetric] by (intro exI [of _ ?u] conjI) (simp_all only: tm.select_convs, simp_all)
qed

theorem gmtime_timegm_roundtrip_witness:
  "\<exists>u. gmtime_r 1700000000 = Some u \<and> timegm u = 1700000000 \<and> tm_wday u = 2"
  using gmtime_timegm_roundtrip [of 1700000000] by auto

end
