(* ===== verification/Time_Text.thy ===== *)
theory Time_Text
  imports Time
begin

text \<open>
  Time as text, stdtime/asctime.c on top of the formatted output of stdio, and
  the real-time clock, stdtime/clock.c and stdtime/time.c, whose registers are
  a device with 32-bit loads and stores.
\<close>

section \<open>Text\<close>

abbreviation "EOVERFLOW \<equiv> 84 :: errno"

definition wday_name :: "string list" where
  "wday_name = [''Sun'', ''Mon'', ''Tue'', ''Wed'', ''Thu'', ''Fri'', ''Sat'']"

definition mon_name :: "string list" where
  "mon_name = [''Jan'', ''Feb'', ''Mar'', ''Apr'', ''May'', ''Jun'', ''Jul'', ''Aug'', ''Sep'', ''Oct'', ''Nov'', ''Dec'']"

definition ASCTIME_FMT :: "u8 list" where
  "ASCTIME_FMT = str ''%s %s%3d %.2d:%.2d:%.2d %-4s'' @ [0xa]"

definition ASCTIME_FMT_B :: "u8 list" where
  "ASCTIME_FMT_B = str ''%s %s%3d %.2d:%.2d:%.2d     %s'' @ [0xa]"

text \<open>The text put into the buffer \<^verbatim>\<open>result\<close>; the buffer \<^verbatim>\<open>year\<close> has 13 bytes.\<close>

definition asctime_text :: "('x \<Rightarrow> int \<Rightarrow> int \<Rightarrow> u8 \<Rightarrow> u8 \<Rightarrow> u8 list) \<Rightarrow> tm \<Rightarrow> u8 list option" where
  "asctime_text pd t =
     (let wn = (if tm_wday t < 0 \<or> tm_wday t \<ge> 7 then str ''???'' else str (wday_name ! nat (tm_wday t)));
          mn = (if tm_mon t < 0 \<or> tm_mon t \<ge> 12 then str ''???'' else str (mon_name ! nat (tm_mon t)))
      in case xvprintf_fmt pd (Some (str ''%04d'')) [VaInt (word_of_int (tm_year t) + 1900)] of
           None \<Rightarrow> None
         | Some (y, _) \<Rightarrow>
             (let year = take 12 y in
              map_option fst (xvprintf_fmt pd (Some (if length year \<le> 4 then ASCTIME_FMT else ASCTIME_FMT_B))
                [VaStr (Some wn), VaStr (Some mn), VaInt (word_of_int (tm_mday t)), VaInt (word_of_int (tm_hour t)),
                 VaInt (word_of_int (tm_min t)), VaInt (word_of_int (tm_sec t)), VaStr (Some year)])))"

text \<open>\<^verbatim>\<open>asctime_r\<close>: the text copied to \<^verbatim>\<open>buf\<close>, or None for NULL, and the error number if one is
  set; \<open>static\<close> tells whether \<^verbatim>\<open>buf\<close> is \<^verbatim>\<open>buf_asctime\<close>.\<close>

definition asctime_r ::
  "('x \<Rightarrow> int \<Rightarrow> int \<Rightarrow> u8 \<Rightarrow> u8 \<Rightarrow> u8 list) \<Rightarrow> tm option \<Rightarrow> bool \<Rightarrow> (u8 list option \<times> errno option) option" where
  "asctime_r pd timeptr static =
     (case timeptr of
        None \<Rightarrow> Some (Some (str ''??? ??? ?? ??:??:?? ????'' @ [0xa]), Some EINVAL)
      | Some t \<Rightarrow> map_option (\<lambda>text. if length text < 26 \<or> static then (Some text, None) else (None, Some EOVERFLOW))
          (asctime_text pd t))"

definition asctime :: "('x \<Rightarrow> int \<Rightarrow> int \<Rightarrow> u8 \<Rightarrow> u8 \<Rightarrow> u8 list) \<Rightarrow> tm option \<Rightarrow> (u8 list option \<times> errno option) option" where
  "asctime pd timeptr = asctime_r pd timeptr True"

lemma number_length_bound:
  assumes n: "length (pn (if sint k < 0 then - k else k) 10 False) \<le> 10"
    and "width sp \<le> 11" "dwidth sp \<le> 10" "\<not> sharpflag sp" "\<not> ladjust sp" "sign sp"
  shows "length (number sp k 10 False) \<le> 11"
  using assms by (cases "sint k < 0") (auto simp: number_def Let_def pad_def max_def)

lemma pn_length_int:
  "length (pn (if sint (scast (w :: u32) :: u64) < 0 then - scast w else scast w) 10 False) \<le> 10"
proof -
  have r: "- (2 ^ 31) \<le> sint w" "sint w < 2 ^ 31" using sint_ge [of w] sint_lt [of w] by simp_all
  have s: "(scast w :: u64) = word_of_int (sint w)" by (rule scast_eq)
  have si: "sint (word_of_int (sint w) :: u64) = sint w" using r by (intro sint_word_of_int_64) simp_all
  have u: "unat (word_of_int j :: u64) = nat j" if "0 \<le> j" "j < 2 ^ 64" for j
    unfolding unat_eq_nat_uint unsigned_of_int take_bit_eq_mod using that by simp
  have "unat (if sint w < 0 then - word_of_int (sint w) else word_of_int (sint w) :: u64) = nat \<bar>sint w\<bar>"
    using u [of "sint w"] u [of "- sint w"] r by (cases "sint w < 0") simp_all
  then have "rev (pn (if sint w < 0 then - word_of_int (sint w) else word_of_int (sint w)) 10 False) =
      map (\<lambda>d. 0x30 + of_nat d) (digits 10 (nat \<bar>sint w\<bar>))"
    unfolding pn_decimal by (simp only:)
  then have "length (pn (if sint w < 0 then - word_of_int (sint w) else word_of_int (sint w)) 10 False) =
      length (digits 10 (nat \<bar>sint w\<bar>))"
    by (metis length_map length_rev)
  moreover have "nat \<bar>sint w\<bar> < 10 ^ 10" using r by simp
  ultimately show ?thesis unfolding s si using digits_length [of 10 "nat \<bar>sint w\<bar>"] by simp
qed

lemma asctime_fmt_text:
  "xvprintf_fmt pd (Some ASCTIME_FMT) [VaStr (Some wn), VaStr (Some mn), VaInt d, VaInt h, VaInt mi, VaInt sc, VaStr (Some y)] =
   Some (wn @ [0x20] @ mn @ number (spec0\<lparr>width := 3, sign := True\<rparr>) (scast d) 10 False @ [0x20] @
     number (spec0\<lparr>dot := True, dwidth := 2, sign := True\<rparr>) (scast h) 10 False @ [0x3a] @
     number (spec0\<lparr>dot := True, dwidth := 2, sign := True\<rparr>) (scast mi) 10 False @ [0x3a] @
     number (spec0\<lparr>dot := True, dwidth := 2, sign := True\<rparr>) (scast sc) 10 False @ [0x20] @
     format_string (spec0\<lparr>ladjust := True, width := 4\<rparr>) (Some y) @ [0xa], [])"
  by (simp add: xvprintf_fmt_def ASCTIME_FMT_def str_def convert_def number_conv_def sign_arg_def spec0_def)
    (simp add: format_string_def pad_def)

lemma asctime_fmt_b_text:
  "xvprintf_fmt pd (Some ASCTIME_FMT_B) [VaStr (Some wn), VaStr (Some mn), VaInt d, VaInt h, VaInt mi, VaInt sc, VaStr (Some y)] =
   Some (wn @ [0x20] @ mn @ number (spec0\<lparr>width := 3, sign := True\<rparr>) (scast d) 10 False @ [0x20] @
     number (spec0\<lparr>dot := True, dwidth := 2, sign := True\<rparr>) (scast h) 10 False @ [0x3a] @
     number (spec0\<lparr>dot := True, dwidth := 2, sign := True\<rparr>) (scast mi) 10 False @ [0x3a] @
     number (spec0\<lparr>dot := True, dwidth := 2, sign := True\<rparr>) (scast sc) 10 False @ replicate 5 0x20 @ y @ [0xa], [])"
  by (simp add: xvprintf_fmt_def ASCTIME_FMT_B_def str_def convert_def number_conv_def sign_arg_def spec0_def)
    (simp add: format_string_def pad_def numeral_eq_Suc)

lemma year_text:
  "xvprintf_fmt pd (Some (str ''%04d'')) [VaInt w] =
   Some (number (spec0\<lparr>padc := 0x30, width := 4, sign := True\<rparr>) (scast w) 10 False, [])"
  by (simp add: xvprintf_fmt_def str_def convert_def number_conv_def sign_arg_def spec0_def)

lemma number_int_bound:
  "width sp \<le> 11 \<Longrightarrow> dwidth sp \<le> 10 \<Longrightarrow> \<not> sharpflag sp \<Longrightarrow> \<not> ladjust sp \<Longrightarrow> sign sp \<Longrightarrow>
   length (number sp (scast (w :: u32)) 10 False) \<le> 11"
  using number_length_bound [OF pn_length_int] by blast

text \<open>For every broken-down time, whatever its fields, the text asctime_r composes fits
  with its terminator into the buffer of 72 bytes, and asctime returns it; asctime_r into
  another buffer refuses it exactly if it has more than 25 characters.\<close>
theorem asctime_fits:
  "\<exists>text. asctime_text pd t = Some text \<and> length text + 1 \<le> 72 \<and> asctime pd (Some t) = Some (Some text, None) \<and>
     asctime_r pd (Some t) False = Some (if length text \<le> 25 then (Some text, None) else (None, Some EOVERFLOW))"
proof -
  define wn where "wn = (if tm_wday t < 0 \<or> tm_wday t \<ge> 7 then str ''???'' else str (wday_name ! nat (tm_wday t)))"
  define mn where "mn = (if tm_mon t < 0 \<or> tm_mon t \<ge> 12 then str ''???'' else str (mon_name ! nat (tm_mon t)))"
  define y where "y = number (spec0\<lparr>padc := 0x30, width := 4, sign := True\<rparr>) (scast (word_of_int (tm_year t) + 1900 :: u32)) 10 False"
  have w: "length wn = 3"
  proof -
    have "\<forall>n\<in>set wday_name. length n = 3" "length wday_name = 7" by (simp_all add: wday_name_def)
    then show ?thesis by (auto simp: wn_def str_def nat_less_iff)
  qed
  have m: "length mn = 3"
  proof -
    have "\<forall>n\<in>set mon_name. length n = 3" "length mon_name = 12" by (simp_all add: mon_name_def)
    then show ?thesis by (auto simp: mn_def str_def nat_less_iff)
  qed
  have yl: "length y \<le> 11" unfolding y_def by (rule number_int_bound) (simp_all add: spec0_def)
  have nb: "length (number (spec0\<lparr>width := 3, sign := True\<rparr>) (scast (v :: u32)) 10 False) \<le> 11"
    "length (number (spec0\<lparr>dot := True, dwidth := 2, sign := True\<rparr>) (scast v) 10 False) \<le> 11" for v
    by (rule number_int_bound; simp add: spec0_def)+
  have f: "length (format_string (spec0\<lparr>ladjust := True, width := 4\<rparr>) (Some y)) \<le> 11" if "length y \<le> 4"
    using that by (simp add: format_string_def spec0_def pad_def)
  have t: "take 12 y = y" using yl by simp
  obtain r where "asctime_text pd t = Some r" "length r \<le> 71"
  proof (cases "length y \<le> 4")
    case True
    show thesis
    proof (rule that)
      show "asctime_text pd t = Some (wn @ [0x20] @ mn @ number (spec0\<lparr>width := 3, sign := True\<rparr>) (scast (word_of_int (tm_mday t) :: u32)) 10 False @ [0x20] @
     number (spec0\<lparr>dot := True, dwidth := 2, sign := True\<rparr>) (scast (word_of_int (tm_hour t) :: u32)) 10 False @ [0x3a] @
     number (spec0\<lparr>dot := True, dwidth := 2, sign := True\<rparr>) (scast (word_of_int (tm_min t) :: u32)) 10 False @ [0x3a] @
     number (spec0\<lparr>dot := True, dwidth := 2, sign := True\<rparr>) (scast (word_of_int (tm_sec t) :: u32)) 10 False @ [0x20] @
     format_string (spec0\<lparr>ladjust := True, width := 4\<rparr>) (Some y) @ [0xa])"
        unfolding asctime_text_def year_text wn_def [symmetric] mn_def [symmetric] y_def [symmetric] Let_def option.case prod.case t
          if_P [OF True] asctime_fmt_text by simp
    qed (use w m nb(1) [of "word_of_int (tm_mday t)"] nb(2) [of "word_of_int (tm_hour t)"] nb(2) [of "word_of_int (tm_min t)"] nb(2) [of "word_of_int (tm_sec t)"] f [OF True] in simp)
  next
    case False
    show thesis
    proof (rule that)
      show "asctime_text pd t = Some (wn @ [0x20] @ mn @ number (spec0\<lparr>width := 3, sign := True\<rparr>) (scast (word_of_int (tm_mday t) :: u32)) 10 False @ [0x20] @
     number (spec0\<lparr>dot := True, dwidth := 2, sign := True\<rparr>) (scast (word_of_int (tm_hour t) :: u32)) 10 False @ [0x3a] @
     number (spec0\<lparr>dot := True, dwidth := 2, sign := True\<rparr>) (scast (word_of_int (tm_min t) :: u32)) 10 False @ [0x3a] @
     number (spec0\<lparr>dot := True, dwidth := 2, sign := True\<rparr>) (scast (word_of_int (tm_sec t) :: u32)) 10 False @ replicate 5 0x20 @ y @ [0xa])"
        unfolding asctime_text_def year_text wn_def [symmetric] mn_def [symmetric] y_def [symmetric] Let_def option.case prod.case t
          if_not_P [OF False] asctime_fmt_b_text by simp
    qed (use w m nb(1) [of "word_of_int (tm_mday t)"] nb(2) [of "word_of_int (tm_hour t)"] nb(2) [of "word_of_int (tm_min t)"] nb(2) [of "word_of_int (tm_sec t)"] yl in simp)
  qed
  then show ?thesis by (auto simp: asctime_def asctime_r_def)
qed

section \<open>The real-time clock\<close>

record 'd io_space =
  io_in :: "u32 \<Rightarrow> 'd \<Rightarrow> u32 \<times> 'd"
  io_out :: "u32 \<Rightarrow> u32 \<Rightarrow> 'd \<Rightarrow> 'd"

abbreviation "IO_RTC_UPTIME_S \<equiv> 0xffffff80 :: u32"
abbreviation "IO_RTC_UPTIME_NS \<equiv> 0xffffff84 :: u32"
abbreviation "IO_RTC_CFG \<equiv> 0xffffff88 :: u32"
abbreviation "IO_RTC_BOOTTIME_S \<equiv> 0xffffff8c :: u32"
abbreviation "CLOCK_REALTIME \<equiv> 0 :: int"
abbreviation "CLOCK_MONOTONIC \<equiv> 1 :: int"
abbreviation "CLOCKS_PER_SEC \<equiv> 1000000 :: u32"

definition rtc_res_tbl :: "u8 list" where
  "rtc_res_tbl = [1, 2, 5, 10, 20, 50, 100, 200]"

text \<open>None stands for an index outside the table and for a division by zero.\<close>

definition get_cpu_freq :: "'d io_space \<Rightarrow> 'd \<Rightarrow> (u32 \<times> 'd) option" where
  "get_cpu_freq io d =
     (let (rtc_cfg, d) = io_in io IO_RTC_CFG d in
      if unat (rtc_cfg AND 0xf) < length rtc_res_tbl \<and> drop_bit 4 rtc_cfg \<noteq> 0 then
        (let incr_ns = (ucast (rtc_res_tbl ! unat (rtc_cfg AND 0xf)) :: u32);
             clk_freq = 1000000000 + ucast ((incr_ns - 1) div 2);
             clk_freq = push_bit 28 clk_freq;
             clk_freq = clk_freq div ucast (drop_bit 4 rtc_cfg) div ucast incr_ns
         in Some (ucast (clk_freq :: u64), d))
      else None)"

record timespec =
  tv_sec :: int
  tv_nsec :: u32

definition clock_getres :: "'d io_space \<Rightarrow> bool \<Rightarrow> 'd \<Rightarrow> ((timespec \<times> int) option \<times> 'd) option" where
  "clock_getres io res_null d =
     (if res_null then Some (None, d)
      else
        (let (rtc_cfg, d) = io_in io IO_RTC_CFG d; i = unat (drop_bit 24 rtc_cfg AND 0xf)
         in if i < length rtc_res_tbl
            then Some (Some (\<lparr>tv_sec = 0, tv_nsec = ucast (rtc_res_tbl ! i)\<rparr>, 0), d) else None))"

text \<open>The loop that reads seconds, nanoseconds and seconds again until both agree.\<close>

partial_function (option) rtc_uptime :: "'d io_space \<Rightarrow> 'd \<Rightarrow> (u32 \<times> u32 \<times> 'd) option" where
  "rtc_uptime io d =
     (let (sec, d) = io_in io IO_RTC_UPTIME_S d;
          (nsec, d) = io_in io IO_RTC_UPTIME_NS d;
          (sec2, d) = io_in io IO_RTC_UPTIME_S d
      in if sec \<noteq> sec2 then rtc_uptime io d else Some (sec, nsec, d))"

definition clock :: "'d io_space \<Rightarrow> 'd \<Rightarrow> (u32 \<times> 'd) option" where
  "clock io d = map_option (\<lambda>(sec, nsec, d).
     let frac = ucast nsec * (push_bit 32 1 * 1000000 div 1000000000 :: u64)
     in (ucast (ucast (sec * CLOCKS_PER_SEC) + drop_bit 32 frac), d)) (rtc_uptime io d)"

text \<open>\<^verbatim>\<open>clock_gettime\<close>: the time stored through \<^verbatim>\<open>tp\<close>, if any, and the result.\<close>

definition clock_gettime :: "'d io_space \<Rightarrow> int \<Rightarrow> bool \<Rightarrow> 'd \<Rightarrow> (timespec option \<times> int \<times> 'd) option" where
  "clock_gettime io clk_id tp_null d =
     (if clk_id \<noteq> CLOCK_REALTIME \<and> clk_id \<noteq> CLOCK_MONOTONIC \<or> tp_null then Some (None, - 1, d)
      else map_option (\<lambda>(sec, nsec, d).
        if clk_id \<noteq> CLOCK_REALTIME then (Some \<lparr>tv_sec = uint sec, tv_nsec = nsec\<rparr>, 0, d)
        else
          (let (boot, d) = io_in io IO_RTC_BOOTTIME_S d
           in if boot \<noteq> 0 then (Some \<lparr>tv_sec = uint sec + uint boot, tv_nsec = nsec\<rparr>, 0, d)
              else (Some \<lparr>tv_sec = 0, tv_nsec = 0\<rparr>, - 1, d))) (rtc_uptime io d))"

definition clock_settime :: "'d io_space \<Rightarrow> int \<Rightarrow> timespec option \<Rightarrow> 'd \<Rightarrow> int \<times> 'd" where
  "clock_settime io clk_id tp d =
     (case tp of
        None \<Rightarrow> (- 1, d)
      | Some ts \<Rightarrow>
          if clk_id \<noteq> CLOCK_REALTIME then (- 1, d)
          else (let (sec, d) = io_in io IO_RTC_UPTIME_S d
                in (0, io_out io IO_RTC_BOOTTIME_S (word_of_int (tv_sec ts) - sec) d)))"

definition time :: "'d io_space \<Rightarrow> 'd \<Rightarrow> int \<times> 'd" where
  "time io d =
     (let (sec, d) = io_in io IO_RTC_BOOTTIME_S d; t = uint sec
      in if t \<noteq> 0 then (let (sec, d) = io_in io IO_RTC_UPTIME_S d in (t + uint sec, d)) else (t, d))"

lemma ucast_add_low: "(ucast (ucast (x :: u32) + of_nat n :: u64) :: u32) = x + of_nat n"
proof -
  have "take_bit 32 (take_bit 64 (take_bit 32 k + int n)) = take_bit 32 (k + int n)" for k
    using take_bit_add [of 32 k "int n"] take_bit_add [of 32 "take_bit 32 k" "int n"] by simp
  then show ?thesis by transfer simp
qed

lemma frac_bounds:
  assumes "n < 1000000000"
  shows "n * 4294967 div 2 ^ 32 \<le> n div 1000" "n div 1000 \<le> n * 4294967 div 2 ^ 32 + (1 :: nat)"
proof -
  have "n * 4294967 div 2 ^ 32 * 2 ^ 32 \<le> n * 4294967" by (rule div_times_less_eq_dividend)
  then have "n * 4294967 div 2 ^ 32 * 1000 \<le> n" by simp
  then show "n * 4294967 div 2 ^ 32 \<le> n div 1000" by (simp add: less_eq_div_iff_mult_less_eq)
  have "n div 1000 * 1000 \<le> n" by (rule div_times_less_eq_dividend)
  then have "(n div 1000 - 1) * 2 ^ 32 \<le> n * 4294967" using assms by simp
  then have "n div 1000 - 1 \<le> n * 4294967 div 2 ^ 32" by (simp add: less_eq_div_iff_mult_less_eq)
  then show "n div 1000 \<le> n * 4294967 div 2 ^ 32 + 1" by linarith
qed

text \<open>When the two reads of the seconds agree, clock returns the uptime in microseconds
  modulo 2 to the 32, at most one microsecond short.\<close>
theorem clock_microseconds:
  assumes "io_in io IO_RTC_UPTIME_S d = (s, d1)" "io_in io IO_RTC_UPTIME_NS d1 = (ns, d2)"
    "io_in io IO_RTC_UPTIME_S d2 = (s, d3)" "unat ns < 1000000000"
  shows "\<exists>us. clock io d = Some (s * 1000000 + of_nat us, d3) \<and> us \<le> unat ns div 1000 \<and> unat ns div 1000 \<le> us + 1"
proof -
  define us where "us = unat ns * 4294967 div 2 ^ 32"
  have u: "unat (ucast ns * 4294967 :: u64) = unat ns * 4294967"
    using assms(4) by (simp add: unat_word_ariths unsigned_ucast_eq take_bit_nat_eq_self)
  have "rtc_uptime io d = Some (s, ns, d3)" using assms(1-3) by (simp add: rtc_uptime.simps [of io d])
  moreover have "(push_bit 32 1 * 1000000 div 1000000000 :: u64) = 4294967" by simp
  moreover have "(drop_bit 32 (ucast ns * 4294967 :: u64)) = of_nat us"
    unfolding us_def u [symmetric] by (simp add: drop_bit_eq_div word_arith_nat_div)
  ultimately have "clock io d = Some (s * 1000000 + of_nat us, d3)"
    by (simp add: clock_def ucast_add_low)
  then show ?thesis using frac_bounds [OF assms(4)] by (auto simp: us_def)
qed

theorem clock_microseconds_witness:
  "\<exists>us. clock \<lparr>io_in = \<lambda>a d. (if a = IO_RTC_UPTIME_NS then 123456789 else 7, d), io_out = \<lambda>_ _ d. d\<rparr> () =
     Some (7 * 1000000 + of_nat us, ()) \<and> us \<le> 123456 \<and> 123456 \<le> us + 1"
  using clock_microseconds [of "\<lparr>io_in = \<lambda>a d. (if a = IO_RTC_UPTIME_NS then 123456789 else 7, d), io_out = \<lambda>_ _ d. d\<rparr>"
      "()" 7 "()" 123456789 "()" "()"] by simp

end
