(* ===== verification/Diskio.thy ===== *)
theory Diskio
  imports Spi Time_Text
begin

text \<open>
  The disks under the FAT file system: the table of drives of fs/diskio.c and
  the drivers fs/diskio_ram.c, fs/diskio_fram.c, fs/diskio_flash.c and
  fs/diskio_sdcard.c over the SPI controller.  Buffers are addresses in the
  memory.
\<close>

section \<open>Results\<close>

abbreviation "RES_OK \<equiv> 0 :: int"
abbreviation "RES_ERROR \<equiv> 1 :: int"
abbreviation "STA_NOINIT \<equiv> 1 :: int"
abbreviation "CTRL_SYNC \<equiv> 0 :: u8"
abbreviation "GET_SECTOR_COUNT \<equiv> 1 :: u8"
abbreviation "GET_SECTOR_SIZE \<equiv> 2 :: u8"
abbreviation "GET_BLOCK_SIZE \<equiv> 3 :: u8"
abbreviation "CTRL_TRIM \<equiv> 4 :: u8"

text \<open>What an ioctl stores through its argument: nothing, a 16-bit or a 32-bit number.\<close>

datatype ioctl_out = NoStore | Store16 u16 | Store32 u32

section \<open>RAM disk\<close>

record ramdisk_priv =
  rd_base :: addr
  rd_size :: u32

abbreviation "RAMDISK_SS \<equiv> 512 :: u32"

text \<open>
  Four words are loaded before four words are stored.  The counter is a signed
  32-bit int that is tested after the decrement, so a count of 0 runs 2^32 rounds.
\<close>

definition ram_cpy_16 :: "byte_order \<Rightarrow> mem \<Rightarrow> addr \<Rightarrow> addr \<Rightarrow> mem" where
  "ram_cpy_16 bo m w r =
     (let a = load_word bo m r; b = load_word bo m (r + 4); c = load_word bo m (r + 8); d = load_word bo m (r + 12)
      in store_word bo (store_word bo (store_word bo (store_word bo m w a) (w + 4) b) (w + 8) c) (w + 12) d)"

fun ram_cpy_loop :: "byte_order \<Rightarrow> nat \<Rightarrow> mem \<Rightarrow> addr \<Rightarrow> addr \<Rightarrow> mem" where
  "ram_cpy_loop bo 0 m w r = m"
| "ram_cpy_loop bo (Suc cnt) m w r = ram_cpy_loop bo cnt (ram_cpy_16 bo m w r) (w + 16) (r + 16)"

definition ram_cpy :: "byte_order \<Rightarrow> mem \<Rightarrow> addr \<Rightarrow> addr \<Rightarrow> u32 \<Rightarrow> mem" where
  "ram_cpy bo m dst src seccnt =
     (let cnt = (sint (seccnt * RAMDISK_SS) sdiv 4) sdiv 4
      in ram_cpy_loop bo (if cnt = 0 then 2 ^ 32 else nat (cnt mod 2 ^ 32)) m dst src)"

definition ramdisk_init_status :: "ramdisk_priv \<Rightarrow> int" where
  "ramdisk_init_status p = (if rd_base p = 0 \<or> rd_size p = 0 then STA_NOINIT else 0)"

definition ramdisk_read :: "byte_order \<Rightarrow> ramdisk_priv \<Rightarrow> addr \<Rightarrow> u32 \<Rightarrow> u32 \<Rightarrow> mem \<Rightarrow> int \<times> mem" where
  "ramdisk_read bo p buf sector count m = (RES_OK, ram_cpy bo m buf (rd_base p + sector * RAMDISK_SS) count)"

definition ramdisk_write :: "byte_order \<Rightarrow> ramdisk_priv \<Rightarrow> addr \<Rightarrow> u32 \<Rightarrow> u32 \<Rightarrow> mem \<Rightarrow> int \<times> mem" where
  "ramdisk_write bo p buf sector count m = (RES_OK, ram_cpy bo m (rd_base p + sector * RAMDISK_SS) buf count)"

definition ramdisk_ioctl :: "ramdisk_priv \<Rightarrow> u8 \<Rightarrow> ioctl_out \<times> int" where
  "ramdisk_ioctl p cmd =
     (if cmd = GET_SECTOR_SIZE then (Store16 (ucast RAMDISK_SS), RES_OK)
      else if cmd = GET_SECTOR_COUNT then (Store16 (ucast (rd_size p div RAMDISK_SS)), RES_OK)
      else if cmd = GET_BLOCK_SIZE then (Store16 1, RES_OK)
      else if cmd = CTRL_SYNC then (NoStore, RES_OK)
      else (NoStore, RES_ERROR))"

section \<open>FRAM\<close>

record fram_priv =
  fr_io_port :: u32
  fr_offset :: u16
  fr_size :: u16
  fr_io_slave :: u8
  fr_flags :: u8

abbreviation "FRAM_SECLEN \<equiv> 512 :: u32"
abbreviation "FRAM_CMD_WRITE \<equiv> 0x02 :: u8"
abbreviation "FRAM_CMD_WREN \<equiv> 0x06 :: u8"
abbreviation "FRAM_CMD_FSTRD \<equiv> 0x0b :: u8"
abbreviation "F_WREN_DONE \<equiv> 1 :: u8"

text \<open>The address bytes of a command: the upper two and a zero.\<close>

definition addr_bytes :: "u32 \<Rightarrow> u8 list" where
  "addr_bytes addr = [ucast (drop_bit 16 addr), ucast (drop_bit 8 addr), 0]"

definition fram_init_status :: "fram_priv \<Rightarrow> int" where
  "fram_init_status p = 0"

definition fram_read :: "byte_order \<Rightarrow> 'd spi_bus \<Rightarrow> fram_priv \<Rightarrow> addr \<Rightarrow> u32 \<Rightarrow> u32 \<Rightarrow> mem \<Rightarrow> 'd \<Rightarrow> (int \<times> mem \<times> 'd) option" where
  "fram_read bo bus p buf sector count m d =
     do {
       let port = fr_io_port p;
       let d = spi_slave_select bus port (fr_io_slave p) d;
       let addr = (sector + ucast (fr_offset p)) * FRAM_SECLEN;
       let d = spi_start_transaction bus port d;
       let d = spi_send bo bus port (FRAM_CMD_FSTRD # addr_bytes addr @ [0]) d;
       (m, d) \<leftarrow> spi_block_in bo bus port buf (unat (count * FRAM_SECLEN)) m d;
       Some (RES_OK, m, d)
     }"

definition fram_write :: "byte_order \<Rightarrow> 'd spi_bus \<Rightarrow> fram_priv \<Rightarrow> addr \<Rightarrow> u32 \<Rightarrow> u32 \<Rightarrow> mem \<Rightarrow> 'd \<Rightarrow> (int \<times> fram_priv \<times> 'd) option" where
  "fram_write bo bus p buf sector count m d =
     do {
       let port = fr_io_port p;
       let d = spi_slave_select bus port (fr_io_slave p) d;
       let addr = (sector + ucast (fr_offset p)) * FRAM_SECLEN;
       let (p, d) = (if fr_flags p AND F_WREN_DONE = 0
                     then (p\<lparr>fr_flags := fr_flags p OR F_WREN_DONE\<rparr>,
                           spi_send bo bus port [FRAM_CMD_WREN] (spi_start_transaction bus port d))
                     else (p, d));
       let d = spi_start_transaction bus port d;
       let d = spi_send bo bus port (FRAM_CMD_WRITE # addr_bytes addr) d;
       d \<leftarrow> spi_block_out bo bus port m buf (count * FRAM_SECLEN) d;
       Some (RES_OK, p, d)
     }"

definition fram_ioctl :: "fram_priv \<Rightarrow> u8 \<Rightarrow> ioctl_out \<times> int" where
  "fram_ioctl p cmd =
     (if cmd = GET_SECTOR_SIZE then (Store16 (ucast FRAM_SECLEN), RES_OK)
      else if cmd = GET_SECTOR_COUNT then (Store32 (ucast (fr_size p)), RES_OK)
      else if cmd = GET_BLOCK_SIZE then (Store16 1, RES_OK)
      else if cmd = CTRL_SYNC then (NoStore, RES_OK)
      else (NoStore, RES_ERROR))"

section \<open>Flash\<close>

record flash_priv =
  fl_io_port :: u32
  fl_offset :: u16
  fl_size :: u16
  fl_io_slave :: u8
  fl_flags :: u8
  fl_jed_id :: "u8 \<times> u8 \<times> u8"

abbreviation "F_BER32K \<equiv> 1 :: u8"
abbreviation "F_BER32K_BROKEN \<equiv> 2 :: u8"
abbreviation "F_BER64K \<equiv> 4 :: u8"
abbreviation "F_BER64K_BROKEN \<equiv> 8 :: u8"
abbreviation "F_UNLOCK_DONE \<equiv> 16 :: u8"
abbreviation "FLASH_SECLEN \<equiv> 4096 :: u32"
abbreviation "SPI_CMD_WRSR \<equiv> 0x01 :: u8"
abbreviation "SPI_CMD_PAGEWR \<equiv> 0x02 :: u8"
abbreviation "SPI_CMD_WRDI \<equiv> 0x04 :: u8"
abbreviation "SPI_CMD_RDSR \<equiv> 0x05 :: u8"
abbreviation "SPI_CMD_WREN \<equiv> 0x06 :: u8"
abbreviation "SPI_CMD_FASTRD \<equiv> 0x0b :: u8"
abbreviation "SPI_CMD_SER \<equiv> 0x20 :: u8"
abbreviation "SPI_CMD_EWSR \<equiv> 0x50 :: u8"
abbreviation "SPI_CMD_BER32K \<equiv> 0x52 :: u8"
abbreviation "SPI_CMD_RDID \<equiv> 0x9f :: u8"
abbreviation "SPI_CMD_AAIWR \<equiv> 0xad :: u8"
abbreviation "SPI_CMD_BER64K \<equiv> 0xd8 :: u8"
abbreviation "SPI_MFR_MICROCHIP \<equiv> 0xbf :: u8"

definition flash_init_status :: "byte_order \<Rightarrow> 'd spi_bus \<Rightarrow> flash_priv \<Rightarrow> 'd \<Rightarrow> int \<times> flash_priv \<times> 'd" where
  "flash_init_status bo bus p d =
     (let port = fl_io_port p;
          d = spi_slave_select bus port (fl_io_slave p) d;
          d = spi_send bo bus port [SPI_CMD_RDID] (spi_start_transaction bus port d);
          (byte, d) = spi_byte bo bus port 0 d
      in if byte = 0 \<or> byte = 0xff then (STA_NOINIT, p, d)
         else
           (let id0 = fst (fl_jed_id p);
                res = (if id0 \<noteq> 0 \<and> word_of_int byte \<noteq> (ucast id0 :: u32) then STA_NOINIT else 0);
                (b1, d) = spi_byte bo bus port 0 d;
                (b2, d) = spi_byte bo bus port 0 d;
                p = p\<lparr>fl_jed_id := (word_of_int byte, word_of_int b1, word_of_int b2)\<rparr>
            in if res \<noteq> 0 \<or> fl_flags p AND F_UNLOCK_DONE \<noteq> 0 then (res, p, d)
               else
                 (let d = spi_send bo bus port [SPI_CMD_EWSR] (spi_start_transaction bus port d);
                      d = spi_send bo bus port [SPI_CMD_WREN] (spi_start_transaction bus port d);
                      d = spi_send bo bus port [SPI_CMD_WRSR, 0] (spi_start_transaction bus port d)
                  in (res, p\<lparr>fl_flags := fl_flags p OR F_UNLOCK_DONE\<rparr>, d))))"

definition flash_read :: "byte_order \<Rightarrow> 'd spi_bus \<Rightarrow> flash_priv \<Rightarrow> addr \<Rightarrow> u32 \<Rightarrow> u32 \<Rightarrow> mem \<Rightarrow> 'd \<Rightarrow> (int \<times> mem \<times> 'd) option" where
  "flash_read bo bus p buf sector count m d =
     do {
       let port = fl_io_port p;
       let d = spi_slave_select bus port (fl_io_slave p) d;
       let addr = (sector + ucast (fl_offset p)) * FLASH_SECLEN;
       let d = spi_start_transaction bus port d;
       let d = spi_send bo bus port (SPI_CMD_FASTRD # addr_bytes addr @ [0]) d;
       (m, d) \<leftarrow> spi_block_in bo bus port buf (unat (count * FLASH_SECLEN)) m d;
       Some (RES_OK, m, d)
     }"

partial_function (option) busy_wait :: "byte_order \<Rightarrow> 'd spi_bus \<Rightarrow> u32 \<Rightarrow> 'd \<Rightarrow> 'd option" where
  "busy_wait bo bus port d =
     (let d = spi_send bo bus port [SPI_CMD_RDSR] (spi_start_transaction bus port d);
          (st, d) = spi_byte bo bus port SPI_CMD_RDSR d
      in if (word_of_int st :: u32) AND 1 \<noteq> 0 then busy_wait bo bus port d else Some d)"

fun blank_loop :: "byte_order \<Rightarrow> 'd spi_bus \<Rightarrow> u32 \<Rightarrow> nat \<Rightarrow> 'd \<Rightarrow> bool \<times> 'd" where
  "blank_loop bo bus port 0 d = (True, d)"
| "blank_loop bo bus port (Suc len) d =
     (let (b, d) = spi_byte bo bus port 0 d in if b \<noteq> 0xff then (False, d) else blank_loop bo bus port len d)"

definition blank_check :: "byte_order \<Rightarrow> 'd spi_bus \<Rightarrow> u32 \<Rightarrow> u32 \<Rightarrow> nat \<Rightarrow> 'd \<Rightarrow> bool \<times> 'd" where
  "blank_check bo bus port addr len d =
     blank_loop bo bus port len
       (spi_send bo bus port (SPI_CMD_FASTRD # addr_bytes addr @ [0]) (spi_start_transaction bus port d))"

text \<open>The erase command for what is left: its code, the flag it is known by and its number of sectors.\<close>

definition erase_method :: "u8 \<Rightarrow> u32 \<Rightarrow> int \<Rightarrow> u8 \<times> u8 \<times> nat" where
  "erase_method flags addr cnt =
     (if flags AND F_BER64K_BROKEN = 0 \<and> addr AND 0xffff = 0 \<and> cnt \<ge> 16 then (SPI_CMD_BER64K, F_BER64K, 16)
      else if flags AND F_BER32K_BROKEN = 0 \<and> addr AND 0x7fff = 0 \<and> cnt \<ge> 8 then (SPI_CMD_BER32K, F_BER32K, 8)
      else (SPI_CMD_SER, 0, 1))"

partial_function (option) erase_loop :: "byte_order \<Rightarrow> 'd spi_bus \<Rightarrow> flash_priv \<Rightarrow> u32 \<Rightarrow> int \<Rightarrow> 'd \<Rightarrow> (flash_priv \<times> 'd) option" where
  "erase_loop bo bus p addr cnt d =
     (if cnt \<le> 0 then Some (p, d)
      else
        (let port = fl_io_port p; (blank, d) = blank_check bo bus port addr 4096 d in
         if blank then erase_loop bo bus p (addr + FLASH_SECLEN) (cnt - 1) d
         else
           (let d = spi_send bo bus port [SPI_CMD_WREN] (spi_start_transaction bus port d);
                (cmd, flags, step) = erase_method (fl_flags p) addr cnt;
                d = spi_send bo bus port (cmd # addr_bytes addr) (spi_start_transaction bus port d)
            in Option.bind (busy_wait bo bus port d) (\<lambda>d.
                 if flags = 0 \<or> flags AND fl_flags p \<noteq> 0
                 then erase_loop bo bus p (addr + of_nat step * FLASH_SECLEN) (cnt - int step) d
                 else
                   (let (blank, d) = blank_check bo bus port addr (step * 4096) d in
                    if blank
                    then erase_loop bo bus (p\<lparr>fl_flags := fl_flags p OR flags\<rparr>)
                           (addr + of_nat step * FLASH_SECLEN) (cnt - int step) d
                    else erase_loop bo bus (p\<lparr>fl_flags := fl_flags p OR push_bit 1 flags\<rparr>) addr cnt d)))))"

definition flash_erase_sectors :: "byte_order \<Rightarrow> 'd spi_bus \<Rightarrow> flash_priv \<Rightarrow> u32 \<Rightarrow> u32 \<Rightarrow> 'd \<Rightarrow> (flash_priv \<times> 'd) option" where
  "flash_erase_sectors bo bus p sector cnt d = erase_loop bo bus p (sector * FLASH_SECLEN) (sint cnt) d"

text \<open>Two bytes at a time with auto address increment; the address goes out once.\<close>

fun aai_loop :: "byte_order \<Rightarrow> 'd spi_bus \<Rightarrow> u32 \<Rightarrow> nat \<Rightarrow> u32 \<Rightarrow> mem \<Rightarrow> addr \<Rightarrow> bool \<Rightarrow> 'd \<Rightarrow> (bool \<times> 'd) option" where
  "aai_loop bo bus port 0 addr m buf in_aai d = Some (in_aai, d)"
| "aai_loop bo bus port (Suc n) addr m buf in_aai d =
     do {
       let d = spi_send bo bus port (SPI_CMD_AAIWR # (if in_aai then [] else addr_bytes addr) @ [m buf, m (buf + 1)])
                 (spi_start_transaction bus port d);
       d \<leftarrow> busy_wait bo bus port d;
       aai_loop bo bus port n addr m (buf + 2) True d
     }"

fun page_loop :: "byte_order \<Rightarrow> 'd spi_bus \<Rightarrow> u32 \<Rightarrow> nat \<Rightarrow> u32 \<Rightarrow> mem \<Rightarrow> addr \<Rightarrow> 'd \<Rightarrow> 'd option" where
  "page_loop bo bus port 0 addr m buf d = Some d"
| "page_loop bo bus port (Suc n) addr m buf d =
     do {
       let d = spi_send bo bus port [SPI_CMD_WREN] (spi_start_transaction bus port d);
       let d = spi_send bo bus port (SPI_CMD_PAGEWR # addr_bytes addr) (spi_start_transaction bus port d);
       d \<leftarrow> spi_block_out bo bus port m buf 256 d;
       d \<leftarrow> busy_wait bo bus port d;
       page_loop bo bus port n (addr + 256) m (buf + 256) d
     }"

fun write_sectors :: "byte_order \<Rightarrow> 'd spi_bus \<Rightarrow> flash_priv \<Rightarrow> nat \<Rightarrow> u32 \<Rightarrow> mem \<Rightarrow> addr \<Rightarrow> bool \<Rightarrow> 'd \<Rightarrow> 'd option" where
  "write_sectors bo bus p 0 addr m buf in_aai d = Some d"
| "write_sectors bo bus p (Suc count) addr m buf in_aai d =
     do {
       let port = fl_io_port p;
       if fst (fl_jed_id p) = SPI_MFR_MICROCHIP then
         do {
           let d = spi_send bo bus port [SPI_CMD_WREN] (spi_start_transaction bus port d);
           (in_aai, d) \<leftarrow> aai_loop bo bus port 2048 addr m buf in_aai d;
           write_sectors bo bus p count addr m (buf + FLASH_SECLEN) in_aai d
         }
       else
         do {
           d \<leftarrow> page_loop bo bus port 16 addr m buf d;
           write_sectors bo bus p count (addr + FLASH_SECLEN) m (buf + FLASH_SECLEN) in_aai d
         }
     }"

definition flash_write :: "byte_order \<Rightarrow> 'd spi_bus \<Rightarrow> flash_priv \<Rightarrow> addr \<Rightarrow> u32 \<Rightarrow> u32 \<Rightarrow> mem \<Rightarrow> 'd \<Rightarrow> (int \<times> flash_priv \<times> 'd) option" where
  "flash_write bo bus p buf sector count m d =
     do {
       let port = fl_io_port p;
       let d = spi_slave_select bus port (fl_io_slave p) d;
       let sector = sector + ucast (fl_offset p);
       (p, d) \<leftarrow> flash_erase_sectors bo bus p sector count d;
       d \<leftarrow> write_sectors bo bus p (unat count) (sector * FLASH_SECLEN) m buf False d;
       let d = spi_send bo bus port [SPI_CMD_WRDI] (spi_start_transaction bus port d);
       d \<leftarrow> busy_wait bo bus port d;
       Some (RES_OK, p, d)
     }"

text \<open>\<open>sec0\<close> and \<open>sec1\<close> are the two numbers at the argument of CTRL_TRIM.\<close>

definition flash_ioctl :: "byte_order \<Rightarrow> 'd spi_bus \<Rightarrow> flash_priv \<Rightarrow> u8 \<Rightarrow> u32 \<Rightarrow> u32 \<Rightarrow> 'd \<Rightarrow> (ioctl_out \<times> int \<times> flash_priv \<times> 'd) option" where
  "flash_ioctl bo bus p cmd sec0 sec1 d =
     (if cmd = GET_SECTOR_SIZE then Some (Store16 (ucast FLASH_SECLEN), RES_OK, p, d)
      else if cmd = GET_SECTOR_COUNT then Some (Store32 (ucast (fl_size p)), RES_OK, p, d)
      else if cmd = GET_BLOCK_SIZE then Some (Store16 1, RES_OK, p, d)
      else if cmd = CTRL_TRIM then
        do {
          let d = spi_slave_select bus (fl_io_port p) (fl_io_slave p) d;
          (p, d) \<leftarrow> flash_erase_sectors bo bus p (sec0 + ucast (fl_offset p)) (sec1 - sec0 + 1) d;
          Some (NoStore, RES_OK, p, d)
        }
      else if cmd = CTRL_SYNC then Some (NoStore, RES_OK, p, d)
      else Some (NoStore, RES_ERROR, p, d))"

definition is_fat_volume :: "mem \<Rightarrow> addr \<Rightarrow> bool" where
  "is_fat_volume m buf \<longleftrightarrow>
     \<not> (m buf \<noteq> 0xeb \<or> m (buf + 2) \<noteq> 0x90 \<or> m (buf + 0xb) \<noteq> 0 \<or> m (buf + 0xc) \<noteq> 0x10 \<or>
        m (buf + 0x1fe) \<noteq> 0x55 \<or> m (buf + 0x1ff) \<noteq> 0xaa) \<and>
     list_all (\<lambda>i. m (buf + of_nat i) = 0) [0x92..<0x1fe]"

end
