(* ===== verification/Disks.thy ===== *)
theory Disks
  imports Diskio
begin

text \<open>
  The SD card driver, fs/diskio_sdcard.c, the table of drives with its
  dispatch to the drivers, the attachment of the disks and the time stamps of
  the FAT file system, fs/diskio.c.
\<close>

section \<open>SD card\<close>

record sdcard_priv =
  sd_io_port :: u32
  sd_io_slave :: u8
  sd_flags :: u8
  sd_addr_shift :: "8 word"

abbreviation "SD_CMD_GO_IDLE_STATE \<equiv> 0 :: u32"
abbreviation "SD_CMD_SEND_IF_COND \<equiv> 8 :: u32"
abbreviation "SD_CMD_STOP_TRANSMISSION \<equiv> 12 :: u32"
abbreviation "SD_CMD_SET_BLOCKLEN \<equiv> 16 :: u32"
abbreviation "SD_CMD_READ_MULTI_BLOCK \<equiv> 18 :: u32"
abbreviation "SD_CMD_WRITE_MULTI_BLOCK \<equiv> 25 :: u32"
abbreviation "SD_CMD_APP_CMD \<equiv> 55 :: u32"
abbreviation "SD_CMD_READ_OCR \<equiv> 58 :: u32"
abbreviation "SD_CMD_SET_WR_BLOCK_ERASE_COUNT \<equiv> 23 :: u32"
abbreviation "SD_CMD_APP_SEND_OP_COND \<equiv> 41 :: u32"
abbreviation "SDCARD_SECLEN \<equiv> 512 :: u32"

text \<open>A result of spi_byte as the int it is, and the wait for a valid response byte.\<close>

fun sdcard_response :: "byte_order \<Rightarrow> 'd spi_bus \<Rightarrow> u32 \<Rightarrow> nat \<Rightarrow> int \<Rightarrow> 'd \<Rightarrow> int \<times> 'd" where
  "sdcard_response bo bus port 0 res d = (res, d)"
| "sdcard_response bo bus port (Suc n) res d =
     (let (res, d) = spi_byte bo bus port 0xff d
      in if (word_of_int res :: u32) AND 0x80 = 0 then (res, d) else sdcard_response bo bus port n res d)"

definition sdcard_cmd :: "byte_order \<Rightarrow> 'd spi_bus \<Rightarrow> sdcard_priv \<Rightarrow> u32 \<Rightarrow> u32 \<Rightarrow> 'd \<Rightarrow> int \<times> 'd" where
  "sdcard_cmd bo bus p cmd arg d =
     (let port = sd_io_port p;
          (pre, d) = spi_byte bo bus port 0xff (spi_start_transaction bus port d)
      in if pre < 0 then (- 1, d)
         else
           sdcard_response bo bus port 8 0
             (spi_send bo bus port [ucast (cmd OR 0x40), ucast (drop_bit 24 arg), ucast (drop_bit 16 arg),
                ucast (drop_bit 8 arg), ucast arg, ucast (drop_bit 8 cmd)] d))"

text \<open>The wait loops: the counter runs up to \<open>lim\<close>; None is the timeout.\<close>

fun sdcard_until :: "byte_order \<Rightarrow> 'd spi_bus \<Rightarrow> u32 \<Rightarrow> int \<Rightarrow> nat \<Rightarrow> 'd \<Rightarrow> bool \<times> 'd" where
  "sdcard_until bo bus port token 0 d =
     (let (b, d) = spi_byte bo bus port 0xff d in (b = token, d))"
| "sdcard_until bo bus port token (Suc lim) d =
     (let (b, d) = spi_byte bo bus port 0xff d in if b = token then (True, d) else sdcard_until bo bus port token lim d)"

definition sdcard_read_block :: "byte_order \<Rightarrow> 'd spi_bus \<Rightarrow> sdcard_priv \<Rightarrow> addr \<Rightarrow> mem \<Rightarrow> 'd \<Rightarrow> (int \<times> mem \<times> 'd) option" where
  "sdcard_read_block bo bus p buf m d =
     (let port = sd_io_port p; (ok, d) = sdcard_until bo bus port 0xfe (2 ^ 20) d in
      if \<not> ok then Some (- 1, m, d)
      else
        do {
          (m, d) \<leftarrow> spi_block_in bo bus port buf (unat SDCARD_SECLEN) m d;
          Some (0, m, spi_send bo bus port [0xff, 0xff] d)
        })"

definition sdcard_write_block :: "byte_order \<Rightarrow> 'd spi_bus \<Rightarrow> sdcard_priv \<Rightarrow> addr \<Rightarrow> mem \<Rightarrow> 'd \<Rightarrow> (int \<times> 'd) option" where
  "sdcard_write_block bo bus p buf m d =
     do {
       let port = sd_io_port p;
       let d = spi_send bo bus port [0xff, 0xfc] d;
       d \<leftarrow> spi_block_out bo bus port m buf SDCARD_SECLEN d;
       let d = spi_send bo bus port [0xff, 0xff] d;
       let (ok, d) = sdcard_until bo bus port 0xff (2 ^ 24) d;
       if \<not> ok then Some (- 1, d) else Some (0, spi_send bo bus port [0xff] d)
     }"

fun sdcard_op_cond :: "byte_order \<Rightarrow> 'd spi_bus \<Rightarrow> sdcard_priv \<Rightarrow> nat \<Rightarrow> int \<Rightarrow> 'd \<Rightarrow> int \<times> 'd" where
  "sdcard_op_cond bo bus p 0 res d = (res, d)"
| "sdcard_op_cond bo bus p (Suc n) res d =
     (let (_, d) = sdcard_cmd bo bus p SD_CMD_APP_CMD 0 d;
          (res, d) = sdcard_cmd bo bus p SD_CMD_APP_SEND_OP_COND (push_bit 30 1) d
      in if res = 0 then (res, d) else sdcard_op_cond bo bus p n res d)"

definition and_fe :: "int \<Rightarrow> int" where
  "and_fe res = sint ((word_of_int res :: u32) AND 0xfe)"

definition sdcard_init_x :: "byte_order \<Rightarrow> 'd spi_bus \<Rightarrow> sdcard_priv \<Rightarrow> 'd \<Rightarrow> int \<times> sdcard_priv \<times> 'd" where
  "sdcard_init_x bo bus p d =
     (let p = p\<lparr>sd_addr_shift := - 1\<rparr>;
          port = sd_io_port p;
          d = spi_slave_select bus port (sd_io_slave p) d;
          (res, d) = sdcard_cmd bo bus p SD_CMD_STOP_TRANSMISSION 0 d
      in if res < 0 then (res, p, d)
         else
           (let d = spi_send bo bus port (replicate (2 ^ 16) 0xff) d;
                (r, d) = sdcard_cmd bo bus p (SD_CMD_GO_IDLE_STATE OR 0x9500) 0 d
            in if and_fe r \<noteq> 0 then (and_fe r, p, d)
               else
                 (let (r, d) = sdcard_cmd bo bus p (SD_CMD_SEND_IF_COND OR 0x8700) 0x01aa d
                  in if and_fe r \<noteq> 0 then (and_fe r, p, d)
                     else
                       (let (res, d) = sdcard_op_cond bo bus p (2 ^ 16) 0 d
                        in if res \<noteq> 0 then (res, p, d)
                           else
                             (let p = p\<lparr>sd_addr_shift := 9\<rparr>;
                                  (res, d) = sdcard_cmd bo bus p SD_CMD_SET_BLOCKLEN SDCARD_SECLEN d
                              in if res \<noteq> 0 then (res, p, d)
                                 else
                                   (let (r, d) = sdcard_cmd bo bus p SD_CMD_READ_OCR (push_bit 30 1) d
                                    in if r \<noteq> 0 then (0, p, d)
                                       else
                                         (let (b, d) = spi_byte bo bus port 0xff d;
                                              p = (if (word_of_int b :: u32) AND 0x40 \<noteq> 0 then p\<lparr>sd_addr_shift := 0\<rparr> else p)
                                          in (0, p, spi_send bo bus port [0xff, 0xff, 0xff] d))))))))"

definition sdcard_init :: "byte_order \<Rightarrow> 'd spi_bus \<Rightarrow> sdcard_priv \<Rightarrow> 'd \<Rightarrow> int \<times> sdcard_priv \<times> 'd" where
  "sdcard_init bo bus p d = (let (r, p, d) = sdcard_init_x bo bus p d in (if r \<noteq> 0 then STA_NOINIT else 0, p, d))"

definition sdcard_status :: "sdcard_priv \<Rightarrow> int" where
  "sdcard_status p = (if sint (sd_addr_shift p) < 0 then STA_NOINIT else 0)"

text \<open>The end of a failing transfer: the card is marked as dead.\<close>

definition sdcard_error :: "sdcard_priv \<Rightarrow> 'd \<Rightarrow> int \<times> sdcard_priv \<times> 'd" where
  "sdcard_error p d = (RES_ERROR, p\<lparr>sd_addr_shift := - 1\<rparr>, d)"

fun sdcard_read_blocks :: "byte_order \<Rightarrow> 'd spi_bus \<Rightarrow> sdcard_priv \<Rightarrow> nat \<Rightarrow> addr \<Rightarrow> mem \<Rightarrow> 'd \<Rightarrow> (bool \<times> mem \<times> 'd) option" where
  "sdcard_read_blocks bo bus p 0 buf m d = Some (True, m, d)"
| "sdcard_read_blocks bo bus p (Suc cnt) buf m d =
     do {
       (r, m, d) \<leftarrow> sdcard_read_block bo bus p buf m d;
       if r \<noteq> 0 then Some (False, m, d) else sdcard_read_blocks bo bus p cnt (buf + SDCARD_SECLEN) m d
     }"

definition sdcard_read :: "byte_order \<Rightarrow> 'd spi_bus \<Rightarrow> sdcard_priv \<Rightarrow> addr \<Rightarrow> u32 \<Rightarrow> u32 \<Rightarrow> mem \<Rightarrow> 'd \<Rightarrow> (int \<times> mem \<times> sdcard_priv \<times> 'd) option" where
  "sdcard_read bo bus p buf sector cnt m d =
     (if sint (sd_addr_shift p) < 0 then (let (r, p, d) = sdcard_error p d in Some (r, m, p, d))
      else
        (let port = sd_io_port p;
             d = spi_slave_select bus port (sd_io_slave p) d;
             (r, d) = sdcard_cmd bo bus p SD_CMD_READ_MULTI_BLOCK (push_bit (unat (sd_addr_shift p)) sector) d
         in if r \<noteq> 0 then (let (r, p, d) = sdcard_error p d in Some (r, m, p, d))
            else
              do {
                (ok, m, d) \<leftarrow> sdcard_read_blocks bo bus p (unat cnt) buf m d;
                if \<not> ok then (let (r, p, d) = sdcard_error p d in Some (r, m, p, d))
                else
                  (let d = spi_send bo bus port [0xff] d;
                       (_, d) = sdcard_cmd bo bus p SD_CMD_STOP_TRANSMISSION 0 d;
                       (ok, d) = sdcard_until bo bus port 0xff (2 ^ 20) d
                   in Some (if ok then RES_OK else - 1, m, p, d))
              }))"

fun sdcard_write_blocks :: "byte_order \<Rightarrow> 'd spi_bus \<Rightarrow> sdcard_priv \<Rightarrow> nat \<Rightarrow> addr \<Rightarrow> mem \<Rightarrow> 'd \<Rightarrow> (bool \<times> 'd) option" where
  "sdcard_write_blocks bo bus p 0 buf m d = Some (True, d)"
| "sdcard_write_blocks bo bus p (Suc cnt) buf m d =
     do {
       (r, d) \<leftarrow> sdcard_write_block bo bus p buf m d;
       if r \<noteq> 0 then Some (False, d) else sdcard_write_blocks bo bus p cnt (buf + SDCARD_SECLEN) m d
     }"

definition sdcard_write :: "byte_order \<Rightarrow> 'd spi_bus \<Rightarrow> sdcard_priv \<Rightarrow> addr \<Rightarrow> u32 \<Rightarrow> u32 \<Rightarrow> mem \<Rightarrow> 'd \<Rightarrow> (int \<times> sdcard_priv \<times> 'd) option" where
  "sdcard_write bo bus p buf sector cnt m d =
     (if sint (sd_addr_shift p) < 0 then Some (sdcard_error p d)
      else
        (let port = sd_io_port p;
             d = spi_slave_select bus port (sd_io_slave p) d;
             (_, d) = sdcard_cmd bo bus p SD_CMD_APP_CMD 0 d;
             (r, d) = sdcard_cmd bo bus p SD_CMD_SET_WR_BLOCK_ERASE_COUNT cnt d
         in if r \<noteq> 0 then Some (sdcard_error p d)
            else
              (let d = spi_send bo bus port [0xff] d;
                   (r, d) = sdcard_cmd bo bus p SD_CMD_WRITE_MULTI_BLOCK (push_bit (unat (sd_addr_shift p)) sector) d
               in if r \<noteq> 0 then Some (sdcard_error p d)
                  else
                    do {
                      (ok, d) \<leftarrow> sdcard_write_blocks bo bus p (unat cnt) buf m (spi_send bo bus port [0xff] d);
                      if \<not> ok then Some (sdcard_error p d)
                      else
                        (let d = spi_send bo bus port [0xfb, 0xff] d;
                             (ok, d) = sdcard_until bo bus port 0xff (2 ^ 24) d
                         in Some (if ok then RES_OK else - 1, p, d))
                    })))"

definition sdcard_ioctl :: "u8 \<Rightarrow> ioctl_out \<times> int" where
  "sdcard_ioctl cmd =
     (if cmd = GET_SECTOR_SIZE then (Store16 (ucast SDCARD_SECLEN), RES_OK)
      else if cmd = CTRL_SYNC then (NoStore, RES_OK)
      else (NoStore, RES_ERROR))"

section \<open>The table of drives\<close>

text \<open>The methods \<^verbatim>\<open>d_sw\<close> of an instance and its private data.\<close>

datatype disk_priv = Ramdisk ramdisk_priv | Fram fram_priv | Flash flash_priv | Sdcard sdcard_priv

record ('d, 'h) disks =
  dk_table :: "nat option list"
  dk_inst :: "nat \<Rightarrow> disk_priv"
  dk_mntfrom :: "nat \<Rightarrow> addr"
  dk_mem :: mem
  dk_dev :: 'd
  dk_heap :: 'h

fun attach_first :: "nat \<Rightarrow> nat option list \<Rightarrow> nat option list" where
  "attach_first di [] = []"
| "attach_first di (x # xs) = (if x \<noteq> None then x # attach_first di xs else Some di # xs)"

definition diskio_attach_generic :: "nat \<Rightarrow> ('d, 'h) disks \<Rightarrow> ('d, 'h) disks" where
  "diskio_attach_generic di s = s\<lparr>dk_table := attach_first di (dk_table s)\<rparr>"

definition set_priv :: "nat \<Rightarrow> disk_priv \<Rightarrow> 'd \<Rightarrow> ('d, 'h) disks \<Rightarrow> ('d, 'h) disks" where
  "set_priv di p d s = s\<lparr>dk_inst := (dk_inst s)(di := p), dk_dev := d\<rparr>"

definition disk_initialize :: "byte_order \<Rightarrow> 'd spi_bus \<Rightarrow> nat \<Rightarrow> ('d, 'h) disks \<Rightarrow> int \<times> ('d, 'h) disks" where
  "disk_initialize bo bus drive s =
     (case dk_table s ! drive of
        None \<Rightarrow> (STA_NOINIT, s)
      | Some di \<Rightarrow>
          (case dk_inst s di of
             Ramdisk p \<Rightarrow> (ramdisk_init_status p, s)
           | Fram p \<Rightarrow> (fram_init_status p, s)
           | Flash p \<Rightarrow> (let (r, p, d) = flash_init_status bo bus p (dk_dev s) in (r, set_priv di (Flash p) d s))
           | Sdcard p \<Rightarrow> (let (r, p, d) = sdcard_init bo bus p (dk_dev s) in (r, set_priv di (Sdcard p) d s))))"

definition disk_status :: "byte_order \<Rightarrow> 'd spi_bus \<Rightarrow> nat \<Rightarrow> ('d, 'h) disks \<Rightarrow> int \<times> ('d, 'h) disks" where
  "disk_status bo bus drive s =
     (case dk_table s ! drive of
        None \<Rightarrow> (STA_NOINIT, s)
      | Some di \<Rightarrow>
          (case dk_inst s di of
             Ramdisk p \<Rightarrow> (ramdisk_init_status p, s)
           | Fram p \<Rightarrow> (fram_init_status p, s)
           | Flash p \<Rightarrow> (let (r, p, d) = flash_init_status bo bus p (dk_dev s) in (r, set_priv di (Flash p) d s))
           | Sdcard p \<Rightarrow> (sdcard_status p, s)))"

definition disk_read :: "byte_order \<Rightarrow> 'd spi_bus \<Rightarrow> nat \<Rightarrow> addr \<Rightarrow> u32 \<Rightarrow> u32 \<Rightarrow> ('d, 'h) disks \<Rightarrow> (int \<times> ('d, 'h) disks) option" where
  "disk_read bo bus drive buf sector count s =
     (case dk_table s ! drive of
        None \<Rightarrow> Some (STA_NOINIT, s)
      | Some di \<Rightarrow>
          (case dk_inst s di of
             Ramdisk p \<Rightarrow> (let (r, m) = ramdisk_read bo p buf sector count (dk_mem s) in Some (r, s\<lparr>dk_mem := m\<rparr>))
           | Fram p \<Rightarrow> map_option (\<lambda>(r, m, d). (r, s\<lparr>dk_mem := m, dk_dev := d\<rparr>))
               (fram_read bo bus p buf sector count (dk_mem s) (dk_dev s))
           | Flash p \<Rightarrow> map_option (\<lambda>(r, m, d). (r, s\<lparr>dk_mem := m, dk_dev := d\<rparr>))
               (flash_read bo bus p buf sector count (dk_mem s) (dk_dev s))
           | Sdcard p \<Rightarrow> map_option (\<lambda>(r, m, p, d). (r, set_priv di (Sdcard p) d (s\<lparr>dk_mem := m\<rparr>)))
               (sdcard_read bo bus p buf sector count (dk_mem s) (dk_dev s))))"

definition disk_write :: "byte_order \<Rightarrow> 'd spi_bus \<Rightarrow> nat \<Rightarrow> addr \<Rightarrow> u32 \<Rightarrow> u32 \<Rightarrow> ('d, 'h) disks \<Rightarrow> (int \<times> ('d, 'h) disks) option" where
  "disk_write bo bus drive buf sector count s =
     (case dk_table s ! drive of
        None \<Rightarrow> Some (STA_NOINIT, s)
      | Some di \<Rightarrow>
          (case dk_inst s di of
             Ramdisk p \<Rightarrow> (let (r, m) = ramdisk_write bo p buf sector count (dk_mem s) in Some (r, s\<lparr>dk_mem := m\<rparr>))
           | Fram p \<Rightarrow> map_option (\<lambda>(r, p, d). (r, set_priv di (Fram p) d s))
               (fram_write bo bus p buf sector count (dk_mem s) (dk_dev s))
           | Flash p \<Rightarrow> map_option (\<lambda>(r, p, d). (r, set_priv di (Flash p) d s))
               (flash_write bo bus p buf sector count (dk_mem s) (dk_dev s))
           | Sdcard p \<Rightarrow> map_option (\<lambda>(r, p, d). (r, set_priv di (Sdcard p) d s))
               (sdcard_write bo bus p buf sector count (dk_mem s) (dk_dev s))))"

definition disk_ioctl :: "byte_order \<Rightarrow> 'd spi_bus \<Rightarrow> nat \<Rightarrow> u8 \<Rightarrow> u32 \<Rightarrow> u32 \<Rightarrow> ('d, 'h) disks \<Rightarrow> (ioctl_out \<times> int \<times> ('d, 'h) disks) option" where
  "disk_ioctl bo bus drive cmd sec0 sec1 s =
     (case dk_table s ! drive of
        None \<Rightarrow> Some (NoStore, STA_NOINIT, s)
      | Some di \<Rightarrow>
          (case dk_inst s di of
             Ramdisk p \<Rightarrow> (let (out, r) = ramdisk_ioctl p cmd in Some (out, r, s))
           | Fram p \<Rightarrow> (let (out, r) = fram_ioctl p cmd in Some (out, r, s))
           | Flash p \<Rightarrow> map_option (\<lambda>(out, r, p, d). (out, r, set_priv di (Flash p) d s))
               (flash_ioctl bo bus p cmd sec0 sec1 (dk_dev s))
           | Sdcard p \<Rightarrow> (let (out, r) = sdcard_ioctl cmd in Some (out, r, s))))"

section \<open>Attachment\<close>

text \<open>The name of a device; its storage is malloced.\<close>

definition devstr_text :: "('x \<Rightarrow> int \<Rightarrow> int \<Rightarrow> u8 \<Rightarrow> u8 \<Rightarrow> u8 list) \<Rightarrow> u8 list \<Rightarrow> u32 \<Rightarrow> u32 \<Rightarrow> u32 \<Rightarrow> u8 list option" where
  "devstr_text pd descr port slave offset =
     do {
       (out, _) \<leftarrow> xvprintf_fmt pd (Some (str ''%s%d.%d'')) [VaStr (Some descr), VaInt port, VaInt slave];
       if offset \<noteq> 0 then
         do {
           (out2, _) \<leftarrow> xvprintf_fmt pd (Some (str ''+%dK'')) [VaInt (word_of_int (sint offset sdiv 1024))];
           Some (out @ out2)
         }
       else Some out
     }"

definition diskio_devstr :: "('h \<Rightarrow> u32 \<Rightarrow> ('h \<times> addr) option) \<Rightarrow> ('x \<Rightarrow> int \<Rightarrow> int \<Rightarrow> u8 \<Rightarrow> u8 \<Rightarrow> u8 list) \<Rightarrow>
    u8 list \<Rightarrow> u32 \<Rightarrow> u32 \<Rightarrow> u32 \<Rightarrow> mem \<Rightarrow> 'h \<Rightarrow> (addr \<times> mem \<times> 'h) option" where
  "diskio_devstr alloc pd descr port slave offset m h =
     do {
       txt \<leftarrow> devstr_text pd descr port slave offset;
       (h, p) \<leftarrow> alloc h (of_nat (length txt + 1));
       Some (p, if p \<noteq> 0 then put_bytes m p (txt @ [0]) else m, h)
     }"

abbreviation "IO_SPI_0 \<equiv> 0xfffffb40 :: u32"
abbreviation "IO_SPI_1 \<equiv> 0xfffffb50 :: u32"

text \<open>The assignment to \<^verbatim>\<open>d_mntfrom\<close>.  No format has a floating-point conversion.\<close>

definition set_mntfrom :: "('h \<Rightarrow> u32 \<Rightarrow> ('h \<times> addr) option) \<Rightarrow> nat \<Rightarrow> u8 list \<Rightarrow> u32 \<Rightarrow> u8 \<Rightarrow> u32 \<Rightarrow> ('d, 'h) disks \<Rightarrow> ('d, 'h) disks option" where
  "set_mntfrom alloc di descr io_port io_slave offset s =
     do {
       (p, m, h) \<leftarrow> diskio_devstr alloc (\<lambda>(_ :: unit) _ _ _ _. []) descr ((io_port - IO_SPI_0) div (IO_SPI_1 - IO_SPI_0))
                      (ucast io_slave) offset (dk_mem s) (dk_heap s);
       Some (s\<lparr>dk_mntfrom := (dk_mntfrom s)(di := p), dk_mem := m, dk_heap := h\<rparr>)
     }"

text \<open>\<open>ram_str\<close> is the address of the literal "RAM".\<close>

definition diskio_attach_ram :: "addr \<Rightarrow> nat \<Rightarrow> addr \<Rightarrow> u32 \<Rightarrow> ('d, 'h) disks \<Rightarrow> ('d, 'h) disks" where
  "diskio_attach_ram ram_str di base size0 s =
     diskio_attach_generic di (set_priv di (Ramdisk \<lparr>rd_base = base, rd_size = size0\<rparr>) (dk_dev s)
       (s\<lparr>dk_mntfrom := (dk_mntfrom s)(di := ram_str)\<rparr>))"

definition diskio_attach_fram :: "('h \<Rightarrow> u32 \<Rightarrow> ('h \<times> addr) option) \<Rightarrow> nat \<Rightarrow> u32 \<Rightarrow> u8 \<Rightarrow> u32 \<Rightarrow> u32 \<Rightarrow> ('d, 'h) disks \<Rightarrow> ('d, 'h) disks option" where
  "diskio_attach_fram alloc di io_port io_slave offset size0 s =
     do {
       s \<leftarrow> set_mntfrom alloc di (str ''FRAM@spi'') io_port io_slave offset s;
       Some (diskio_attach_generic di (set_priv di
         (Fram \<lparr>fr_io_port = io_port, fr_offset = ucast (offset div FRAM_SECLEN), fr_size = ucast (size0 div FRAM_SECLEN),
            fr_io_slave = io_slave, fr_flags = 0\<rparr>) (dk_dev s) s))
     }"

definition diskio_attach_sdcard :: "('h \<Rightarrow> u32 \<Rightarrow> ('h \<times> addr) option) \<Rightarrow> nat \<Rightarrow> u32 \<Rightarrow> u8 \<Rightarrow> ('d, 'h) disks \<Rightarrow> ('d, 'h) disks option" where
  "diskio_attach_sdcard alloc di io_port io_slave s =
     do {
       s \<leftarrow> set_mntfrom alloc di (str ''SDcard@spi'') io_port io_slave 0 s;
       Some (diskio_attach_generic di (set_priv di
         (Sdcard \<lparr>sd_io_port = io_port, sd_io_slave = io_slave, sd_flags = 0, sd_addr_shift = - 1\<rparr>) (dk_dev s) s))
     }"

text \<open>The search for a FAT volume, in steps of 64 KB; \<open>sp\<close> is the address of the sector buffer
  on the stack.\<close>

function find_volume :: "byte_order \<Rightarrow> 'd spi_bus \<Rightarrow> flash_priv \<Rightarrow> addr \<Rightarrow> nat \<Rightarrow> mem \<Rightarrow> 'd \<Rightarrow> (flash_priv \<times> mem \<times> 'd) option" where
  "find_volume bo bus p sp off m d =
     (let p = p\<lparr>fl_offset := of_nat off\<rparr> in
      if off < 4096 then
        do {
          (_, m, d) \<leftarrow> flash_read bo bus p sp 0 1 m d;
          if is_fat_volume m sp then Some (p, m, d) else find_volume bo bus p sp (off + 16) m d
        }
      else Some (p, m, d))"
  by pat_completeness auto
termination by (relation "measure (\<lambda>(_, _, _, _, off, _). 4096 - off)") auto

declare find_volume.simps [simp del]

definition diskio_attach_flash :: "('h \<Rightarrow> u32 \<Rightarrow> ('h \<times> addr) option) \<Rightarrow> byte_order \<Rightarrow> 'd spi_bus \<Rightarrow> nat \<Rightarrow> u32 \<Rightarrow> u8 \<Rightarrow> u32 \<Rightarrow> u32 \<Rightarrow>
    addr \<Rightarrow> ('d, 'h) disks \<Rightarrow> ('d, 'h) disks option" where
  "diskio_attach_flash alloc bo bus di io_port io_slave offset size0 sp s =
     (let jid = (case dk_inst s di of Flash p \<Rightarrow> fl_jed_id p | _ \<Rightarrow> (0, 0, 0));
          p = \<lparr>fl_io_port = io_port, fl_offset = word_of_int (sint offset sdiv 4096),
                fl_size = word_of_int (sint size0 sdiv 4096), fl_io_slave = io_slave, fl_flags = 0, fl_jed_id = jid\<rparr>
      in do {
           (p, m, d) \<leftarrow> (if offset <s 0 then find_volume bo bus p sp 0 (dk_mem s) (dk_dev s) else Some (p, dk_mem s, dk_dev s));
           let p = (if offset <s 0 \<and> fl_offset p = 4096 then p\<lparr>fl_offset := 0, fl_size := 0\<rparr> else p);
           s \<leftarrow> set_mntfrom alloc di (str ''Flash@spi'') io_port io_slave (ucast (fl_offset p) * FLASH_SECLEN)
                 (set_priv di (Flash p) d (s\<lparr>dk_mem := m\<rparr>));
           Some (diskio_attach_generic di s)
         })"

section \<open>Time stamps\<close>

definition fattime :: "tm \<Rightarrow> u32" where
  "fattime t = push_bit 25 (word_of_int (tm_year t) - 80) OR push_bit 21 (word_of_int (tm_mon t) + 1)
     OR push_bit 16 (word_of_int (tm_mday t)) OR push_bit 11 (word_of_int (tm_hour t))
     OR push_bit 5 (word_of_int (tm_min t)) OR word_of_int (drop_bit 1 (tm_sec t))"

definition get_fattime :: "'d io_space \<Rightarrow> 'd \<Rightarrow> (u32 \<times> 'd) option" where
  "get_fattime io d = (let (t, d) = time io d in map_option (\<lambda>t. (fattime t, d)) (gmtime_r t))"

end
