(* ===== verification/Disk_Props.thy ===== *)
theory Disk_Props
  imports Disks
begin

text \<open>
  Transfers of the disk drivers: the RAM disk copies sectors, the SPI disks
  exchange their data in one transaction, and time stamps decode to the time
  they were made from.
\<close>

lemma int_unat_eq_uint: "int (unat (x :: u32)) = uint x"
  by simp

section \<open>Blocks of memory\<close>

lemma put_bytes_at:
  "length bs \<le> 2 ^ 32 \<Longrightarrow> put_bytes m a bs x = (if unat (x - a) < length bs then bs ! unat (x - a) else m x)"
proof (induction bs arbitrary: m a)
  case (Cons b bs)
  show ?case
  proof (cases "x = a")
    case True
    have "a - (a + 1) = (- 1 :: u32)" by simp
    then have "unat (a - (a + 1) :: u32) = 2 ^ 32 - 1" by (simp add: unsigned_minus_1_eq_mask mask_eq_exp_minus_1)
    then show ?thesis using True Cons.prems by (simp add: put_bytes_other)
  next
    case False
    then have "unat (x - a) \<noteq> 0" by (simp add: unat_eq_zero)
    moreover have "unat (x - (a + 1)) = unat (x - a) - 1"
      using unat_minus_one [of "x - a"] False by (simp add: diff_diff_add)
    ultimately show ?thesis using Cons False by (auto simp: nth_Cons')
  qed
qed simp

lemma put_bytes_copied: "n \<le> 2 ^ 32 \<Longrightarrow> put_bytes m w (bytes_at m r n) = copied m w r n"
  by (rule ext) (simp add: put_bytes_at copied_def bytes_at_def)

lemma ram_cpy_16_copied: "ram_cpy_16 bo m w r = copied m w r 16"
proof -
  have "ram_cpy_16 bo m w r = put_bytes m w (bytes_at m r 16)"
    unfolding ram_cpy_16_def Let_def store_word_bytes
    by (simp add: eval_nat_numeral add.assoc)
  then show ?thesis by (simp add: put_bytes_copied)
qed

lemma ram_cpy_loop_copy: "w = r \<or> 16 \<le> unat (w - r) \<Longrightarrow> ram_cpy_loop bo n m w r = copy_fwd (16 * n) m w r"
proof (induction n arbitrary: m w r)
  case (Suc n)
  have "ram_cpy_16 bo m w r = copy_fwd 16 m w r" using Suc.prems by (simp add: ram_cpy_16_copied copy_fwd_copied)
  then show ?case using Suc copy_fwd_add [of 16 "16 * n" m w r] by simp
qed simp

lemma ram_cpy_copied:
  assumes c: "0 < c" "c < 2 ^ 22" and far: "512 * c \<le> unat (dst - src)"
  shows "ram_cpy bo m dst src (of_nat c) = copied m dst src (512 * c)"
proof -
  define x where "x = (of_nat (512 * c) :: u32)"
  have "unat x = 512 * c" unfolding x_def using c by (intro unat_of_nat_lt) simp
  then have "uint x = int (512 * c)" using int_unat_eq_uint [of x] by simp
  then have "sint x = int (512 * c)" using c by (simp add: sint_eq_if)
  then have s: "sint (of_nat c * 512 :: u32) = int (512 * c)" by (simp add: x_def mult.commute)
  have "(int (512 * c) sdiv 4) sdiv 4 = int (32 * c)" by (simp add: sdiv_smod_nonneg)
  then have "ram_cpy bo m dst src (of_nat c) = ram_cpy_loop bo (32 * c) m dst src"
    using c unfolding ram_cpy_def s Let_def by (simp add: nat_mult_distrib)
  also have "\<dots> = copied m dst src (512 * c)"
    using far c by (subst ram_cpy_loop_copy) (auto simp: copy_fwd_copied)
  finally show ?thesis .
qed

text \<open>C20: What is written to sectors of the RAM disk is what a later read of these sectors gives,
  and the write changes nothing outside them, for up to 2^22 - 1 sectors and buffers that do not
  overlap them.\<close>
theorem ramdisk_roundtrip:
  assumes "0 < c" "c < 2 ^ 22" "disk = rd_base p + sector * RAMDISK_SS"
    "512 * c \<le> unat (disk - buf)" "512 * c \<le> unat (buf2 - disk)"
  shows "let m' = snd (ramdisk_write bo p buf sector (of_nat c) m);
             m'' = snd (ramdisk_read bo p buf2 sector (of_nat c) m')
         in bytes_at m'' buf2 (512 * c) = bytes_at m buf (512 * c) \<and>
            (\<forall>x. 512 * c \<le> unat (x - disk) \<longrightarrow> m' x = m x)"
proof -
  have l: "512 * c \<le> 2 ^ 32" using assms(2) by simp
  have w: "snd (ramdisk_write bo p buf sector (of_nat c) m) = copied m disk buf (512 * c)"
    using ram_cpy_copied [OF assms(1,2,4), of bo m] by (simp add: ramdisk_write_def assms(3))
  have r: "snd (ramdisk_read bo p buf2 sector (of_nat c) m1) = copied m1 buf2 disk (512 * c)" for m1
    using ram_cpy_copied [OF assms(1,2,5), of bo m1] by (simp add: ramdisk_read_def assms(3))
  show ?thesis unfolding w r Let_def using l by (simp add: bytes_at_copied copied_frame)
qed

theorem ramdisk_roundtrip_witness:
  "bytes_at (snd (ramdisk_read LITTLE_ENDIAN \<lparr>rd_base = 8192, rd_size = 4096\<rparr> 32768 1 1
     (snd (ramdisk_write LITTLE_ENDIAN \<lparr>rd_base = 8192, rd_size = 4096\<rparr> 1024 1 1 (\<lambda>x. ucast x))))) 32768 512
   = bytes_at (\<lambda>x. ucast x) 1024 512"
  using ramdisk_roundtrip [of 1 8704 "\<lparr>rd_base = 8192, rd_size = 4096\<rparr>" 1 1024 32768 LITTLE_ENDIAN "\<lambda>x. ucast x"]
  by (simp add: Let_def)

section \<open>Transactions on the SPI bus\<close>

lemma sector_bytes: "unat (count * 512 :: u32) = 4 * (unat (count * 512) div 4)"
proof -
  have "4 dvd unat (count * 512 :: u32)" by (simp add: unat_word_ariths dvd_mod)
  then show ?thesis by simp
qed

lemma flash_sector_bytes: "unat (count * 4096 :: u32) = 4 * (unat (count * 4096) div 4)"
proof -
  have "4 dvd unat (count * 4096 :: u32)" by (simp add: unat_word_ariths dvd_mod)
  then show ?thesis by simp
qed

lemma or_1_and_1: "(x OR 1) AND 1 = (1 :: u8)"
  by (rule bit_word_eqI) (auto simp: bit_simps)

text \<open>A command of five bytes and a block of data read in the same transaction.\<close>

lemma spi_read_transaction:
  assumes ctl: "spi_ctl bo bus port slave start select sl rx dly" and n: "n = 4 * k" "0 < n"
    and x: "xchg slave (cmd @ replicate n 0xff) (start (select u (sl d))) = (rs, s')"
  shows "\<exists>d'. spi_block_in bo bus port buf n m
      (spi_send bo bus port cmd (spi_start_transaction bus port (spi_slave_select bus port u d))) =
      Some (put_bytes m buf (drop (length cmd) rs), d') \<and> sl d' = s'"
proof -
  let ?d = "spi_send bo bus port cmd (spi_start_transaction bus port (spi_slave_select bus port u d))"
  have s: "sl ?d = snd (xchg slave cmd (start (select u (sl d))))"
    using spi_send_ctl [OF ctl] spi_ctlD(4,5) [OF ctl] by simp
  have "rs = fst (xchg slave cmd (start (select u (sl d)))) @ fst (xchg slave (replicate n 0xff) (sl ?d))"
    "s' = snd (xchg slave (replicate n 0xff) (sl ?d))"
    using x unfolding xchg_append s by auto
  then show ?thesis using spi_block_in_ctl [OF ctl, of k buf m ?d] n by auto
qed

text \<open>C21: On a working SPI controller a read of the FRAM is one transaction with the selected slave:
  the fast-read command, the address of the sector and a dummy byte go out, and the bytes that
  come in after them are what lands in the buffer.  A write enables writing in a transaction
  of its own the first time, and then sends the write command, the address and the buffer.  This is
  for a positive number of bytes below 2^31: spi_block_out takes its length as an int.\<close>
theorem fram_transactions:
  assumes ctl: "spi_ctl bo bus (fr_io_port p) slave start select sl rx dly"
    and n: "n = unat (count * FRAM_SECLEN)" "0 < n" "n < 2 ^ 31"
    and cmd: "a = addr_bytes ((sector + ucast (fr_offset p)) * FRAM_SECLEN)"
    and s0: "s0 = select (fr_io_slave p) (sl d)"
    and x: "xchg slave ((FRAM_CMD_FSTRD # a @ [0]) @ replicate n 0xff) (start s0) = (rs, s')"
    and y: "s1 = (if fr_flags p AND F_WREN_DONE = 0 then snd (slave FRAM_CMD_WREN (start s0)) else s0)"
  shows "(\<exists>d'. fram_read bo bus p buf sector count m d = Some (RES_OK, put_bytes m buf (drop 5 rs), d') \<and> sl d' = s') \<and>
    (\<exists>p' d'. fram_write bo bus p buf sector count m d = Some (RES_OK, p', d') \<and> fr_flags p' AND F_WREN_DONE \<noteq> 0 \<and>
       sl d' = snd (xchg slave (FRAM_CMD_WRITE # a @ bytes_at m buf n) (start s1)))"
proof
  have k: "n = 4 * (n div 4)" using sector_bytes [of count] n(1) by simp
  have l: "length (FRAM_CMD_FSTRD # a @ [0]) = 5" by (simp add: cmd addr_bytes_def)
  show "\<exists>d'. fram_read bo bus p buf sector count m d = Some (RES_OK, put_bytes m buf (drop 5 rs), d') \<and> sl d' = s'"
    using spi_read_transaction [OF ctl k n(2) x [unfolded s0], of buf m] unfolding l fram_read_def Let_def
    by (auto simp: n(1) cmd)
next
  let ?d0 = "spi_slave_select bus (fr_io_port p) (fr_io_slave p) d"
  define p1 where "p1 = (if fr_flags p AND F_WREN_DONE = 0 then p\<lparr>fr_flags := fr_flags p OR F_WREN_DONE\<rparr> else p)"
  define d1 where "d1 = (if fr_flags p AND F_WREN_DONE = 0
     then spi_send bo bus (fr_io_port p) [FRAM_CMD_WREN] (spi_start_transaction bus (fr_io_port p) ?d0) else ?d0)"
  let ?d2 = "spi_send bo bus (fr_io_port p) (FRAM_CMD_WRITE # a) (spi_start_transaction bus (fr_io_port p) d1)"
  have "sl d1 = s1"
    using spi_send_ctl [OF ctl] spi_ctlD(4,5) [OF ctl] by (simp add: d1_def y s0 case_prod_beta)
  then have s2: "sl ?d2 = snd (xchg slave (FRAM_CMD_WRITE # a) (start s1))"
    using spi_send_ctl [OF ctl] spi_ctlD(4) [OF ctl] by simp
  obtain d' where o: "spi_block_out bo bus (fr_io_port p) m buf (count * FRAM_SECLEN) ?d2 = Some d'"
    "sl d' = snd (xchg slave (bytes_at m buf n) (sl ?d2))"
    using spi_block_out_ctl [OF ctl n(1) [symmetric] n(3), of m buf ?d2] by blast
  have "fram_write bo bus p buf sector count m d = Some (RES_OK, p1, d')"
    using o(1) unfolding fram_write_def Let_def d1_def p1_def cmd n(1) by (auto split: if_splits)
  moreover have "fr_flags p1 AND F_WREN_DONE \<noteq> 0"
    using or_1_and_1 [of "fr_flags p"] by (simp add: p1_def)
  moreover have "sl d' = snd (xchg slave (FRAM_CMD_WRITE # a @ bytes_at m buf n) (start s1))"
    unfolding o(2) s2 append_Cons [symmetric] xchg_append by simp
  ultimately show "\<exists>p' d'. fram_write bo bus p buf sector count m d = Some (RES_OK, p', d') \<and> fr_flags p' AND F_WREN_DONE \<noteq> 0 \<and>
       sl d' = snd (xchg slave (FRAM_CMD_WRITE # a @ bytes_at m buf n) (start s1))" by blast
qed

text \<open>A bus that is always ready, with a slave that answers each byte with its successor and
  records what it is sent.\<close>

definition echo_bus :: "u32 \<Rightarrow> (u8 list \<times> u8) spi_bus" where
  "echo_bus port = \<lparr>bus_lw = \<lambda>a (s, r). (push_bit 8 1 OR ucast r, (s, r)),
     bus_sb = \<lambda>a b (s, r). if a = port then (b # s, b + 1) else (s, r)\<rparr>"

lemma echo_rx: "ucast (0x100 OR ucast r :: u32) = (r :: u8)"
proof -
  have "\<not> bit (0x100 :: u32) n" if "n < 8" for n
  proof -
    have "n \<in> {0, 1, 2, 3, 4, 5, 6, 7}" using that by auto
    then show ?thesis by (elim insertE) simp_all
  qed
  then show ?thesis by (intro bit_word_eqI) (auto simp: bit_simps)
qed

lemma echo_ready: "(push_bit 8 1 OR ucast (r :: u8) :: u32) AND push_bit 8 1 \<noteq> 0"
proof
  assume "(push_bit 8 1 OR ucast r :: u32) AND push_bit 8 1 = 0"
  then have "bit ((push_bit 8 1 OR ucast r :: u32) AND push_bit 8 1) 8 = bit (0 :: u32) 8" by simp
  then show False by (simp add: bit_simps)
qed

lemma echo_ctl:
  "spi_ctl LITTLE_ENDIAN (echo_bus port) port (\<lambda>b s. (b + 1, b # s)) (\<lambda>s. s) (\<lambda>_ s. s) fst snd (\<lambda>_. 0)"
  using echo_ready by (auto simp: spi_ctl_def echo_bus_def spi_rx_def SPI_READY_MASK_def echo_rx)

definition demo_fram :: fram_priv where
  "demo_fram = \<lparr>fr_io_port = IO_SPI_0, fr_offset = 0, fr_size = 1024, fr_io_slave = 1, fr_flags = 0\<rparr>"

theorem fram_transactions_witness:
  "\<exists>p' d'. fram_write LITTLE_ENDIAN (echo_bus IO_SPI_0) demo_fram 1024 3 1 (\<lambda>x. ucast x) ([], 0) = Some (RES_OK, p', d') \<and>
     fst d' = snd (xchg (\<lambda>b s. (b + 1, b # s)) (FRAM_CMD_WRITE # addr_bytes 0x600 @ bytes_at (\<lambda>x. ucast x) 1024 512) [FRAM_CMD_WREN])"
proof -
  have c: "spi_ctl LITTLE_ENDIAN (echo_bus IO_SPI_0) (fr_io_port demo_fram) (\<lambda>b s. (b + 1, b # s)) (\<lambda>s. s) (\<lambda>_ s. s) fst snd (\<lambda>_. 0)"
    using echo_ctl [of IO_SPI_0] by (simp add: demo_fram_def)
  have n: "512 = unat (1 * FRAM_SECLEN)" and p: "0 < (512 :: nat)" and b: "512 < (2 :: nat) ^ 31" by simp_all
  obtain rs s' where x: "xchg (\<lambda>b s. (b + 1, b # s)) ((FRAM_CMD_FSTRD # addr_bytes ((3 + ucast (fr_offset demo_fram)) * FRAM_SECLEN) @ [0])
      @ replicate 512 0xff) [] = (rs, s')" by force
  show ?thesis
    using fram_transactions [OF c n p b refl refl, where d = "([], 0)" and sector = 3 and rs = rs and s' = s' and buf = 1024
        and m = "\<lambda>x. ucast x"] x
    by (auto simp: demo_fram_def)
qed

end
