(* ===== verification/Fifo.thy ===== *)
theory Fifo
  imports Prelude
begin

text \<open>
  Bounded FIFO queues.  The locale states what the clients of a character queue
  rely on; the lemmas on ring buffers, shared by the pipe and by the two serial
  port drivers, discharge it for an array with a head and a tail index.
\<close>

section \<open>The interface\<close>

datatype 'a queue_op = Put 'a | Get

locale bounded_fifo =
  fixes invar :: "'s \<Rightarrow> bool"
    and contents :: "'s \<Rightarrow> 'a list"
    and cap :: nat
    and full :: "'s \<Rightarrow> bool"
    and empty :: "'s \<Rightarrow> bool"
    and put :: "'s \<Rightarrow> 'a \<Rightarrow> 's"
    and get :: "'s \<Rightarrow> 'a \<times> 's"
  assumes full_iff: "invar s \<Longrightarrow> full s \<longleftrightarrow> length (contents s) = cap"
    and empty_iff: "invar s \<Longrightarrow> empty s \<longleftrightarrow> contents s = []"
    and cap_bound: "invar s \<Longrightarrow> length (contents s) \<le> cap"
    and put_invar: "invar s \<Longrightarrow> \<not> full s \<Longrightarrow> invar (put s x)"
    and put_contents: "invar s \<Longrightarrow> \<not> full s \<Longrightarrow> contents (put s x) = contents s @ [x]"
    and get_invar: "invar s \<Longrightarrow> \<not> empty s \<Longrightarrow> get s = (x, s') \<Longrightarrow> invar s'"
    and get_contents: "invar s \<Longrightarrow> \<not> empty s \<Longrightarrow> get s = (x, s') \<Longrightarrow> contents s = x # contents s'"
begin

text \<open>Any interleaving of a writer, which waits while the queue is full, and a reader, which
  waits while it is empty: the bytes written and the bytes read so far are carried along.\<close>

inductive fifo_run :: "'s \<Rightarrow> 'a list \<Rightarrow> 'a list \<Rightarrow> 's \<Rightarrow> bool" for s0 where
  fifo_start: "fifo_run s0 [] [] s0"
| fifo_put: "fifo_run s0 ws rs s \<Longrightarrow> \<not> full s \<Longrightarrow> fifo_run s0 (ws @ [x]) rs (put s x)"
| fifo_get: "fifo_run s0 ws rs s \<Longrightarrow> \<not> empty s \<Longrightarrow> get s = (x, s') \<Longrightarrow> fifo_run s0 ws (rs @ [x]) s'"

lemma fifo_order:
  "fifo_run s0 ws rs s \<Longrightarrow> invar s0 \<Longrightarrow> invar s \<and> contents s0 @ ws = rs @ contents s"
proof (induction rule: fifo_run.induct)
  case (fifo_get ws rs s x s')
  then show ?case using get_invar [of s x s'] get_contents [of s x s'] by auto
qed (auto simp: put_invar put_contents)

fun put_all :: "'s \<Rightarrow> 'a list \<Rightarrow> 's" where
  "put_all s [] = s"
| "put_all s (x # xs) = (if full s then s else put_all (put s x) xs)"

lemma put_all_contents:
  "invar s \<Longrightarrow> invar (put_all s xs) \<and>
   contents (put_all s xs) = contents s @ take (cap - length (contents s)) xs"
proof (induction xs arbitrary: s)
  case (Cons x xs)
  show ?case
  proof (cases "full s")
    case True
    then show ?thesis using Cons.prems full_iff by simp
  next
    case False
    then have "length (contents s) < cap" using Cons.prems full_iff cap_bound [of s] by fastforce
    then obtain k where k: "cap - length (contents s) = Suc k" by (metis Suc_diff_Suc)
    then have "cap - length (contents (put s x)) = k" using put_contents [OF Cons.prems False] by simp
    then show ?thesis
      using Cons.IH [OF put_invar [OF Cons.prems False]] put_contents [OF Cons.prems False] False k by simp
  qed
qed simp

end

section \<open>Ring buffers\<close>

definition ring_ok :: "nat \<Rightarrow> 'a list \<Rightarrow> nat \<Rightarrow> nat \<Rightarrow> bool" where
  "ring_ok n buf hp tp \<longleftrightarrow> length buf = n \<and> hp < n \<and> tp < n"

definition ring_contents :: "nat \<Rightarrow> 'a list \<Rightarrow> nat \<Rightarrow> nat \<Rightarrow> 'a list" where
  "ring_contents n buf hp tp = map (\<lambda>k. buf ! ((tp + k) mod n)) [0..<(hp + n - tp) mod n]"

lemma ring_count:
  fixes hp tp n :: nat
  assumes "hp < n" "tp < n"
  shows "(hp + n - tp) mod n = (if tp \<le> hp then hp - tp else hp + n - tp)"
  using assms by (auto simp: le_mod_geq)

lemma mod_sum: "a < n \<Longrightarrow> b < n \<Longrightarrow> (a + b) mod n = (if a + b < n then a + b else a + b - (n :: nat))"
  by (auto simp: le_mod_geq)

lemma ring_length [simp]: "length (ring_contents n buf hp tp) = (hp + n - tp) mod n"
  by (simp add: ring_contents_def)

lemma ring_next: "h < n \<Longrightarrow> Suc h mod n = (if Suc h = n then 0 else Suc h)"
  by auto

lemma ring_full_iff:
  "ring_ok n buf hp tp \<Longrightarrow> (hp + 1) mod n = tp \<longleftrightarrow> (hp + n - tp) mod n = n - 1"
  unfolding ring_ok_def by (auto simp: ring_count ring_next)

lemma ring_empty_iff: "ring_ok n buf hp tp \<Longrightarrow> hp = tp \<longleftrightarrow> ring_contents n buf hp tp = []"
  unfolding ring_ok_def by (auto simp: ring_contents_def ring_count split: if_splits)

lemma ring_bound: "ring_ok n buf hp tp \<Longrightarrow> (hp + n - tp) mod n \<le> n - 1"
  unfolding ring_ok_def by (auto simp: ring_count)

lemma ring_put:
  assumes ok: "ring_ok n buf hp tp" and nf: "(hp + 1) mod n \<noteq> tp"
  shows "ring_ok n (buf[hp := x]) ((hp + 1) mod n) tp"
    "ring_contents n (buf[hp := x]) ((hp + 1) mod n) tp = ring_contents n buf hp tp @ [x]"
proof -
  have h: "length buf = n" "hp < n" "tp < n" using ok by (auto simp: ring_ok_def)
  show "ring_ok n (buf[hp := x]) ((hp + 1) mod n) tp" using h by (simp add: ring_ok_def)
  let ?c = "(hp + n - tp) mod n"
  have c: "((hp + 1) mod n + n - tp) mod n = Suc ?c"
    using h nf by (auto simp: ring_count ring_next split: if_splits)
  have e: "(tp + ?c) mod n = hp" using h by (auto simp: ring_count le_mod_geq)
  have "hp \<noteq> (tp + k) mod n" if "k < ?c" for k
  proof -
    have k: "k < n" "k < (if tp \<le> hp then hp - tp else hp + n - tp)"
      using that h ring_count [OF h(2,3)] by (auto split: if_splits)
    then show ?thesis using h mod_sum [OF h(3) k(1)] by (auto split: if_splits)
  qed
  then have "map (\<lambda>k. buf[hp := x] ! ((tp + k) mod n)) [0..<?c] = map (\<lambda>k. buf ! ((tp + k) mod n)) [0..<?c]"
    by auto
  then show "ring_contents n (buf[hp := x]) ((hp + 1) mod n) tp = ring_contents n buf hp tp @ [x]"
    unfolding ring_contents_def c using e h by simp
qed

lemma ring_get:
  assumes ok: "ring_ok n buf hp tp" and ne: "hp \<noteq> tp"
  shows "ring_ok n buf hp ((tp + 1) mod n)"
    "ring_contents n buf hp tp = buf ! tp # ring_contents n buf hp ((tp + 1) mod n)"
proof -
  have h: "length buf = n" "hp < n" "tp < n" using ok by (auto simp: ring_ok_def)
  show "ring_ok n buf hp ((tp + 1) mod n)" using h by (simp add: ring_ok_def)
  let ?c = "(hp + n - (tp + 1) mod n) mod n"
  have c: "(hp + n - tp) mod n = Suc ?c"
    using h ne by (auto simp: ring_count ring_next split: if_splits)
  have "[0..<Suc ?c] = 0 # map Suc [0..<?c]" by (simp add: map_Suc_upt upt_conv_Cons del: upt_Suc)
  moreover have "(tp + Suc k) mod n = ((tp + 1) mod n + k) mod n" for k
    by (metis add.commute add_Suc_right mod_add_left_eq plus_1_eq_Suc)
  ultimately show "ring_contents n buf hp tp = buf ! tp # ring_contents n buf hp ((tp + 1) mod n)"
    unfolding ring_contents_def c using h by (simp del: upt_Suc)
qed

text \<open>Index arithmetic at the width of the code: \<^verbatim>\<open>(i + 1) & (size - 1)\<close>.\<close>

lemma unat_next_mask:
  fixes w :: "'a::len word"
  assumes "unat w < 2 ^ k" "k < LENGTH('a)"
  shows "unat ((w + 1) AND mask k) = (unat w + 1) mod 2 ^ k"
proof -
  have "(2::nat) ^ k \<le> 2 ^ (LENGTH('a) - 1)" using assms(2) by (intro power_increasing) auto
  also have "\<dots> < 2 ^ LENGTH('a)" by (simp add: half_range)
  finally have "unat w + 1 < 2 ^ LENGTH('a)" using assms(1) by linarith
  then have "unat (w + 1) = unat w + 1" by (simp add: unat_plus_if')
  moreover have "(w + 1) AND mask k = take_bit k (w + 1)" by (simp add: take_bit_eq_mask)
  ultimately show ?thesis
    by (simp only: unsigned_take_bit_eq) (simp add: take_bit_eq_mod)
qed

end
