(* ===== verification/Pipe.thy ===== *)
theory Pipe
  imports Memory Fifo Convert
begin

text \<open>
  The kernel-side structures of sys/file.h and sys/task.h, and the pipes of
  src/lib/src/sys/pipe.c: a ring buffer of 256 bytes shared by two descriptors.
  Structures that the code reaches through pointers are kept in maps from
  addresses to records.
\<close>

section \<open>Files and tasks\<close>

abbreviation "O_WRONLY \<equiv> 0x0001 :: u32"
abbreviation "O_RDWR \<equiv> 0x0002 :: u32"
abbreviation "O_NONBLOCK \<equiv> 0x0004 :: u32"
abbreviation "O_APPEND \<equiv> 0x0008 :: u32"
abbreviation "O_CREAT \<equiv> 0x0200 :: u32"
abbreviation "O_TRUNC \<equiv> 0x0400 :: u32"

text \<open>The tables of file operations that the drivers define.\<close>

datatype fileops_id = SIO_FILEOPS | PIPE_FILEOPS | FF_FILEOPS

record file_rec =
  f_ops :: "fileops_id option"
  f_priv :: addr
  f_tty :: addr
  f_mflags :: u16
  f_refc :: u16
  f_flags :: u16

definition zero_file :: file_rec where
  "zero_file = \<lparr>f_ops = None, f_priv = 0, f_tty = 0, f_mflags = 0, f_refc = 0, f_flags = 0\<rparr>"

abbreviation "F_MF_FILE_MALLOCED \<equiv> 0x0001 :: u16"
abbreviation "F_MF_PRIV_MALLOCED \<equiv> 0x0002 :: u16"

record task =
  ts_files :: "addr list"
  ts_maxfiles :: nat
  ts_sigh :: addr
  ts_sigf :: u32

text \<open>The outcome of a transfer: a return value, or spinning in the wait loop after \<open>i\<close> bytes
  until another task or the device changes the state.\<close>

datatype io = Value int | Spins nat

section \<open>The ring buffer of a pipe\<close>

abbreviation "PIPE_BUFSIZE \<equiv> 256 :: nat"
abbreviation "PIPE_BUFMASK \<equiv> 0xff :: u16"

record pipe_state =
  s_buf_head :: u16
  s_buf_tail :: u16
  s_buf :: "u8 list"

definition zero_pipe :: pipe_state where
  "zero_pipe = \<lparr>s_buf_head = 0, s_buf_tail = 0, s_buf = replicate PIPE_BUFSIZE 0\<rparr>"

definition pipe_next :: "pipe_state \<Rightarrow> u16" where
  "pipe_next p = (s_buf_head p + 1) AND PIPE_BUFMASK"

definition pipe_full :: "pipe_state \<Rightarrow> bool" where
  "pipe_full p \<longleftrightarrow> pipe_next p = s_buf_tail p"

definition pipe_empty :: "pipe_state \<Rightarrow> bool" where
  "pipe_empty p \<longleftrightarrow> s_buf_head p = s_buf_tail p"

definition pipe_put :: "pipe_state \<Rightarrow> u8 \<Rightarrow> pipe_state" where
  "pipe_put p c = p\<lparr>s_buf := (s_buf p)[unat (s_buf_head p) := c], s_buf_head := pipe_next p\<rparr>"

definition pipe_get :: "pipe_state \<Rightarrow> u8 \<times> pipe_state" where
  "pipe_get p = (s_buf p ! unat (s_buf_tail p), p\<lparr>s_buf_tail := (s_buf_tail p + 1) AND PIPE_BUFMASK\<rparr>)"

section \<open>Reading and writing\<close>

text \<open>What the two loops do when they cannot go on; \<open>i\<close> bytes have been transferred.  The
  result is the task, the error number if one is set, and the outcome.\<close>

definition pipe_write_wait :: "file_rec \<Rightarrow> task \<Rightarrow> nat \<Rightarrow> task \<times> errno option \<times> io" where
  "pipe_write_wait fp ts i =
     (if f_refc fp < 2 then (ts, Some EPIPE, Value (- 1))
      else if ucast (f_flags fp) AND O_NONBLOCK \<noteq> 0 then
        (if i \<noteq> 0 then (ts, None, Value (int i)) else (ts, Some EAGAIN, Value (- 1)))
      else if ts_sigf ts AND 2 \<noteq> 0 then
        (ts\<lparr>ts_sigf := ts_sigf ts AND NOT 2\<rparr>, Some EINTR, Value (- 1))
      else (ts, None, Spins i))"

fun pipe_write_loop ::
  "file_rec \<Rightarrow> task \<Rightarrow> pipe_state \<Rightarrow> nat \<Rightarrow> u8 list \<Rightarrow> task \<times> pipe_state \<times> errno option \<times> io" where
  "pipe_write_loop fp ts p i [] = (ts, p, None, Value 0)"
| "pipe_write_loop fp ts p i (c # cs) =
     (if pipe_full p then
        (let (ts', e, r) = pipe_write_wait fp ts i in (ts', p, e, r))
      else pipe_write_loop fp ts (pipe_put p c) (i + 1) cs)"

definition pipe_write ::
  "file_rec \<Rightarrow> task \<Rightarrow> pipe_state \<Rightarrow> u8 list \<Rightarrow> task \<times> pipe_state \<times> errno option \<times> io" where
  "pipe_write fp ts p buf = pipe_write_loop fp ts p 0 buf"

definition pipe_read_wait :: "file_rec \<Rightarrow> task \<Rightarrow> nat \<Rightarrow> task \<times> errno option \<times> io" where
  "pipe_read_wait fp ts i =
     (if f_refc fp < 2 then (ts, None, Value 0)
      else if ucast (f_flags fp) AND O_NONBLOCK \<noteq> 0 then
        (if i \<noteq> 0 then (ts, None, Value (int i)) else (ts, Some EAGAIN, Value (- 1)))
      else if ts_sigf ts AND 2 \<noteq> 0 then
        (ts\<lparr>ts_sigf := ts_sigf ts AND NOT 2\<rparr>, Some EINTR, Value (- 1))
      else (ts, None, Spins i))"

text \<open>The inner loop: at least one byte, until the buffer is empty or \<open>n\<close> bytes are read.\<close>

fun pipe_drain :: "nat \<Rightarrow> pipe_state \<Rightarrow> u8 list \<times> pipe_state" where
  "pipe_drain 0 p = ([], p)"
| "pipe_drain (Suc n) p =
     (let (c, p') = pipe_get p in
      if \<not> pipe_empty p' \<and> 0 < n
      then (let (cs, p'') = pipe_drain n p' in (c # cs, p''))
      else ([c], p'))"

text \<open>
  The outer loop.  When the inner loop ends before \<open>n\<close> bytes the buffer is empty,
  so the outer loop goes to its waiting branch.  The bytes stored into the
  caller's buffer are part of the result.
\<close>

definition pipe_read ::
  "file_rec \<Rightarrow> task \<Rightarrow> pipe_state \<Rightarrow> nat \<Rightarrow> u8 list \<times> task \<times> pipe_state \<times> errno option \<times> io" where
  "pipe_read fp ts p n =
     (let (cs, p') = (if n = 0 \<or> pipe_empty p then ([], p) else pipe_drain n p);
          (ts', e, r) = (if length cs < n then pipe_read_wait fp ts (length cs)
                         else (ts, None, Value (int (length cs))))
      in (cs, ts', p', e, r))"

section \<open>A pipe is a bounded queue\<close>

definition pipe_ok :: "pipe_state \<Rightarrow> bool" where
  "pipe_ok p \<longleftrightarrow> ring_ok PIPE_BUFSIZE (s_buf p) (unat (s_buf_head p)) (unat (s_buf_tail p))"

definition pipe_contents :: "pipe_state \<Rightarrow> u8 list" where
  "pipe_contents p = ring_contents PIPE_BUFSIZE (s_buf p) (unat (s_buf_head p)) (unat (s_buf_tail p))"

lemma unat_pipe_inc: "unat w < 256 \<Longrightarrow> unat ((w + 1) AND PIPE_BUFMASK) = Suc (unat w) mod 256"
  using unat_next_mask [of w 8] by (simp add: mask_eq_exp_minus_1)

lemma unat_eq_word: "unat (x :: 'a::len word) = unat y \<longleftrightarrow> x = y"
  by (auto dest: unsigned_word_eqI)

lemma pipe_full_nat: "pipe_ok p \<Longrightarrow> pipe_full p \<longleftrightarrow> (unat (s_buf_head p) + 1) mod 256 = unat (s_buf_tail p)"
  unfolding pipe_full_def pipe_next_def pipe_ok_def ring_ok_def
  by (metis Suc_eq_plus1 unat_eq_word unat_pipe_inc)

interpretation pq: bounded_fifo pipe_ok pipe_contents 255 pipe_full pipe_empty pipe_put pipe_get
proof
  fix p p' :: pipe_state and x :: u8
  assume ok: "pipe_ok p"
  then have r: "ring_ok 256 (s_buf p) (unat (s_buf_head p)) (unat (s_buf_tail p))"
    "unat (s_buf_head p) < 256" "unat (s_buf_tail p) < 256"
    by (simp_all add: pipe_ok_def ring_ok_def)
  show "pipe_full p \<longleftrightarrow> length (pipe_contents p) = 255"
    using pipe_full_nat [OF ok] ring_full_iff [OF r(1)] by (simp add: pipe_contents_def)
  show "pipe_empty p \<longleftrightarrow> pipe_contents p = []"
    using ring_empty_iff [OF r(1)] by (simp add: pipe_empty_def pipe_contents_def unat_eq_word)
  show "length (pipe_contents p) \<le> 255" using ring_bound [OF r(1)] by (simp add: pipe_contents_def)
  { assume "\<not> pipe_full p"
    then have nf: "(unat (s_buf_head p) + 1) mod 256 \<noteq> unat (s_buf_tail p)" using pipe_full_nat [OF ok] by simp
    show "pipe_ok (pipe_put p x)" "pipe_contents (pipe_put p x) = pipe_contents p @ [x]"
      using ring_put [OF r(1) nf, of x] unat_pipe_inc [OF r(2)]
      by (simp_all add: pipe_ok_def pipe_contents_def pipe_put_def pipe_next_def) }
  { assume "\<not> pipe_empty p" and g: "pipe_get p = (x, p')"
    then have ne: "unat (s_buf_head p) \<noteq> unat (s_buf_tail p)" by (simp add: pipe_empty_def unat_eq_word)
    show "pipe_ok p'" "pipe_contents p = x # pipe_contents p'"
      using ring_get [OF r(1) ne] unat_pipe_inc [OF r(3)] g
      by (auto simp: pipe_ok_def pipe_contents_def pipe_get_def) }
qed

lemma zero_pipe_ok: "pipe_ok zero_pipe" "pipe_contents zero_pipe = []"
  by (simp_all add: zero_pipe_def pipe_ok_def pipe_contents_def ring_ok_def ring_contents_def)


text \<open>The loops of pipe_write and pipe_read in terms of the queue.\<close>

lemma pipe_write_loop_put_all:
  "pipe_write_loop fp ts p i cs = (ts', p', e, r) \<Longrightarrow> p' = pq.put_all p cs"
  by (induction fp ts p i cs rule: pipe_write_loop.induct) (auto split: if_splits prod.splits)

lemma pipe_write_loop_result:
  "pipe_ok p \<Longrightarrow> length (pipe_contents p) + length cs \<le> 255 \<Longrightarrow>
   pipe_write_loop fp ts p i cs = (ts, pq.put_all p cs, None, Value 0)"
proof (induction cs arbitrary: p i)
  case (Cons c cs)
  then have "\<not> pipe_full p" by (simp add: pq.full_iff)
  then show ?case using Cons by (simp add: pq.put_invar pq.put_contents)
qed simp

lemma pipe_drain_contents:
  "pipe_ok p \<Longrightarrow> 0 < n \<Longrightarrow> pipe_contents p \<noteq> [] \<Longrightarrow> pipe_drain n p = (cs, p') \<Longrightarrow>
   pipe_ok p' \<and> pipe_contents p = cs @ pipe_contents p' \<and> length cs = min n (length (pipe_contents p))"
proof (induction n p arbitrary: cs rule: pipe_drain.induct)
  case (2 n p)
  obtain c p1 where g: "pipe_get p = (c, p1)" by (cases "pipe_get p")
  have ne: "\<not> pipe_empty p" using 2 by (simp add: pq.empty_iff)
  note p1 = pq.get_invar [OF "2.prems"(1) ne g] pq.get_contents [OF "2.prems"(1) ne g]
  show ?case
  proof (cases "\<not> pipe_empty p1 \<and> 0 < n")
    case True
    then obtain cs1 where d: "pipe_drain n p1 = (cs1, p')" "cs = c # cs1"
      using "2.prems"(4) g by (auto split: prod.splits)
    have "pipe_contents p1 \<noteq> []" using True p1(1) by (simp add: pq.empty_iff)
    then have "pipe_ok p' \<and> pipe_contents p1 = cs1 @ pipe_contents p' \<and> length cs1 = min n (length (pipe_contents p1))"
      using "2.IH" [OF g [symmetric] refl True p1(1) _ _ d(1)] True by blast
    then show ?thesis unfolding p1(2) d(2) by (simp only: append_Cons list.size min_Suc_Suc simp_thms)
  next
    case False
    then have "cs = [c]" "p' = p1" using "2.prems"(4) g by auto
    moreover have "n = 0 \<or> pipe_contents p1 = []" using False p1(1) by (auto simp: pq.empty_iff)
    ultimately show ?thesis using p1 by auto
  qed
qed simp

lemma pipe_write_contents:
  assumes "pipe_ok p" "pipe_write fp ts p buf = (ts', p', e, r)"
  shows "pipe_ok p'" "pipe_contents p' = pipe_contents p @ take (255 - length (pipe_contents p)) buf"
  using pq.put_all_contents [OF assms(1), of buf] pipe_write_loop_put_all assms(2)
  unfolding pipe_write_def by blast+

lemma pipe_read_contents:
  assumes "pipe_ok p" "pipe_read fp ts p n = (cs, ts', p', e, r)"
  shows "pipe_ok p'" "pipe_contents p = cs @ pipe_contents p'"
proof -
  define d where "d = (if n = 0 \<or> pipe_empty p then ([], p) else pipe_drain n p)"
  have d: "d = (cs, p')" using assms(2) unfolding pipe_read_def d_def [symmetric] by (auto simp: Let_def split: prod.splits)
  have "pipe_ok p' \<and> pipe_contents p = cs @ pipe_contents p'"
  proof (cases "n = 0 \<or> pipe_empty p")
    case True
    then show ?thesis using d assms(1) by (simp add: d_def)
  next
    case False
    then have "pipe_drain n p = (cs, p')" "pipe_contents p \<noteq> []" using d assms(1) by (simp_all add: d_def pq.empty_iff)
    then show ?thesis using pipe_drain_contents [of p n cs p'] assms(1) False by simp
  qed
  then show "pipe_ok p'" "pipe_contents p = cs @ pipe_contents p'" by simp_all
qed

section \<open>Properties\<close>

text \<open>
  Calls of pipe_write and pipe_read by any tasks, in any order: the bytes that went
  into the pipe and those that came out are collected.  A write call that
  cannot go on has stored the prefix that fitted.
\<close>

inductive pipe_calls :: "pipe_state \<Rightarrow> u8 list \<Rightarrow> u8 list \<Rightarrow> bool" where
  calls_start: "pipe_calls zero_pipe [] []"
| calls_write: "pipe_calls p ws rs \<Longrightarrow> pipe_write fp ts p buf = (ts', p', e, r) \<Longrightarrow>
    pipe_calls p' (ws @ take (255 - length (pipe_contents p)) buf) rs"
| calls_read: "pipe_calls p ws rs \<Longrightarrow> pipe_read fp ts p n = (cs, ts', p', e, r) \<Longrightarrow>
    pipe_calls p' ws (rs @ cs)"

lemma pipe_calls_inv: "pipe_calls p ws rs \<Longrightarrow> pipe_ok p \<and> ws = rs @ pipe_contents p"
proof (induction rule: pipe_calls.induct)
  case calls_start
  then show ?case by (simp add: zero_pipe_ok)
next
  case (calls_write p ws rs fp ts buf ts' p' e r)
  then show ?case using pipe_write_contents [of p fp ts buf] by auto
next
  case (calls_read p ws rs fp ts n cs ts' p' e r)
  then show ?case using pipe_read_contents [of p fp ts n] by auto
qed

text \<open>C6: A pipe is a FIFO of at most 255 bytes: whatever tasks call pipe_read and pipe_write
  in whatever order, with whatever flags, sizes and signals, the bytes read are the first
  of the bytes accepted, in order, and the rest is what the ring buffer holds.\<close>
theorem pipe_fifo:
  assumes "pipe_calls p ws rs"
  shows "ws = rs @ pipe_contents p \<and> length (pipe_contents p) \<le> 255"
  using pipe_calls_inv [OF assms] pq.cap_bound by blast

theorem pipe_fifo_witness: "\<exists>p. pipe_calls p [1, 2, 3] [] \<and> pipe_contents p = [1, 2, 3]"
proof -
  let ?ts = "\<lparr>ts_files = [], ts_maxfiles = 0, ts_sigh = 0, ts_sigf = 0\<rparr>"
  obtain ts' p e r where w: "pipe_write zero_file ?ts zero_pipe [1, 2, 3] = (ts', p, e, r)"
    by (metis prod_cases4)
  have "pipe_calls p ([] @ take (255 - length (pipe_contents zero_pipe)) [1, 2, 3]) []"
    using calls_start w by (rule calls_write)
  then have c: "pipe_calls p [1, 2, 3] []" by (simp add: zero_pipe_ok)
  then show ?thesis using pipe_fifo [OF c] by auto
qed

text \<open>What is written into an empty pipe with one call, up to 255 bytes, is read back
  with one call; pipe_write returns 0 and pipe_read the number of bytes.\<close>
theorem pipe_roundtrip:
  assumes "pipe_ok p" "pipe_contents p = []" "length buf \<le> 255" "buf \<noteq> []"
  shows "\<exists>p' p''. pipe_write fp ts p buf = (ts, p', None, Value 0) \<and>
    pipe_read fp ts p' (length buf) = (buf, ts, p'', None, Value (int (length buf))) \<and>
    pipe_ok p'' \<and> pipe_contents p'' = []"
proof -
  define p' where "p' = pq.put_all p buf"
  have w: "pipe_write fp ts p buf = (ts, p', None, Value 0)"
    using pipe_write_loop_result [OF assms(1)] assms(2,3) by (simp add: pipe_write_def p'_def)
  have c: "pipe_ok p'" "pipe_contents p' = buf"
    using pipe_write_contents [OF assms(1) w] assms(2,3) by simp_all
  obtain cs p'' where d: "pipe_drain (length buf) p' = (cs, p'')" by (cases "pipe_drain (length buf) p'")
  have x: "pipe_ok p'' \<and> pipe_contents p' = cs @ pipe_contents p'' \<and> length cs = min (length buf) (length (pipe_contents p'))"
    by (rule pipe_drain_contents [OF c(1) _ _ d]) (use c assms(4) in auto)
  then have "length cs = length buf" "buf = cs @ pipe_contents p''" using c(2) by (simp_all only: min.idem)
  then have e: "pipe_contents p'' = []" "cs = buf" by (metis append_Nil2 append_eq_append_conv)+
  have "pipe_read fp ts p' (length buf) = (buf, ts, p'', None, Value (int (length buf)))"
    using d c(1,2) assms(4) unfolding e(2) by (simp add: pipe_read_def pq.empty_iff)
  then show ?thesis using w x e(1) by blast
qed

theorem pipe_roundtrip_witness:
  "\<exists>p' p''. pipe_write zero_file \<lparr>ts_files = [], ts_maxfiles = 0, ts_sigh = 0, ts_sigf = 0\<rparr> zero_pipe [1, 2, 3] =
      (\<lparr>ts_files = [], ts_maxfiles = 0, ts_sigh = 0, ts_sigf = 0\<rparr>, p', None, Value 0) \<and>
    pipe_read zero_file \<lparr>ts_files = [], ts_maxfiles = 0, ts_sigh = 0, ts_sigf = 0\<rparr> p' 3 =
      ([1, 2, 3], \<lparr>ts_files = [], ts_maxfiles = 0, ts_sigh = 0, ts_sigf = 0\<rparr>, p'', None, Value 3)"
  using pipe_roundtrip [of zero_pipe "[1, 2, 3]" zero_file
      "\<lparr>ts_files = [], ts_maxfiles = 0, ts_sigh = 0, ts_sigf = 0\<rparr>"] zero_pipe_ok
  by (auto simp: eval_nat_numeral simp del: pipe_drain.simps)

end
