(* ===== verification/Sio.thy ===== *)
theory Sio
  imports Pipe
begin

text \<open>
  Terminal processing (sys/tty.c) and the polled serial port driver
  (dev/sio.c).  The registers of the port are a device given by two functions,
  load and store, on a device state; a load may change that state.  The signal
  handler a task has installed is a function as well.
\<close>

section \<open>Terminals\<close>

record termios =
  c_iflag :: u16
  c_oflag :: u16
  c_cflag :: u16
  c_lflag :: u16
  c_cc :: "u8 list"

record tty =
  t_termios :: termios
  t_ws_row :: u16
  t_ws_col :: u16
  t_rflags :: u16

abbreviation "TTY_OSTOP \<equiv> 0x0001 :: u16"
abbreviation "TTY_IGOTCR \<equiv> 0x0010 :: u16"
abbreviation "INLCR \<equiv> 0x0040 :: u16"
abbreviation "IGNCR \<equiv> 0x0080 :: u16"
abbreviation "ICRNL \<equiv> 0x0100 :: u16"
abbreviation "IXON \<equiv> 0x0200 :: u16"
abbreviation "ISIG \<equiv> 0x0080 :: u16"
abbreviation "OPOST \<equiv> 0x0001 :: u16"
abbreviation "ONLCR \<equiv> 0x0002 :: u16"
abbreviation "SIGINT \<equiv> 2 :: u32"

text \<open>A signal handler: address of the handler, signal, effect on the task.\<close>

type_synonym sighandler = "addr \<Rightarrow> u32 \<Rightarrow> task \<Rightarrow> task"

definition TTY_OBLOCKED :: "tty option \<Rightarrow> bool" where
  "TTY_OBLOCKED t = (case t of None \<Rightarrow> False | Some t \<Rightarrow> t_rflags t AND TTY_OSTOP \<noteq> 0)"

definition TTY_DO_IPROC :: "tty option \<Rightarrow> int \<Rightarrow> bool" where
  "TTY_DO_IPROC t c = (case t of None \<Rightarrow> False
     | Some t \<Rightarrow> c < 32 \<or> c > 126 \<or> t_rflags t AND TTY_IGOTCR \<noteq> 0)"

definition TTY_DO_OPROC :: "tty option \<Rightarrow> u8 \<Rightarrow> bool" where
  "TTY_DO_OPROC t c = (case t of None \<Rightarrow> False | Some t \<Rightarrow> (scast c :: u32) < 32)"

definition tty_oexpand :: "tty \<Rightarrow> u8 \<Rightarrow> u8 list" where
  "tty_oexpand t c = (if c = 0xa \<and> c_oflag (t_termios t) AND ONLCR \<noteq> 0 then [0xd, c] else [c])"

text \<open>The result is the terminal, the task and the character, or -1 if it is consumed.\<close>

definition tty_iproc :: "sighandler \<Rightarrow> tty \<Rightarrow> task \<Rightarrow> int \<Rightarrow> tty \<times> task \<times> int" where
  "tty_iproc sigh t ts c =
     (let rflags = t_rflags t;
          t = (if rflags AND TTY_IGOTCR \<noteq> 0 then t\<lparr>t_rflags := t_rflags t AND NOT TTY_IGOTCR\<rparr> else t)
      in
      if c = 0x3 then
        (if c_lflag (t_termios t) AND ISIG \<noteq> 0 then
           (t, (if ts_sigh ts \<noteq> 0
                then (let ts = sigh (ts_sigh ts) SIGINT ts
                      in ts\<lparr>ts_sigf := ts_sigf ts OR push_bit 1 (ts_sigf ts AND 1)\<rparr>)
                else ts), - 1)
         else (t, ts, c))
      else if c = 0xa then
        (if rflags AND TTY_IGOTCR \<noteq> 0 then (t, ts, - 1)
         else if c_iflag (t_termios t) AND INLCR \<noteq> 0 then (t, ts, 0xd)
         else (t, ts, c))
      else if c = 0xd then
        (if c_iflag (t_termios t) AND IGNCR \<noteq> 0 then (t, ts, - 1)
         else if c_iflag (t_termios t) AND ICRNL \<noteq> 0
           then (t\<lparr>t_rflags := t_rflags t OR TTY_IGOTCR\<rparr>, ts, 0xa)
         else (t, ts, c))
      else if c = 0x13 then
        (if c_iflag (t_termios t) AND IXON \<noteq> 0
         then (t\<lparr>t_rflags := t_rflags t OR TTY_OSTOP\<rparr>, ts, - 1) else (t, ts, c))
      else if c = 0x11 then
        (if c_iflag (t_termios t) AND IXON \<noteq> 0
         then (t\<lparr>t_rflags := t_rflags t AND NOT TTY_OSTOP\<rparr>, ts, - 1) else (t, ts, c))
      else (t, ts, c))"

section \<open>The serial port\<close>

abbreviation "SIO_RXBUFSIZE \<equiv> 32 :: nat"
abbreviation "SIO_RXBUFMASK \<equiv> 0x1f :: u16"
abbreviation "SIO_REG_DATA \<equiv> 0x0 :: u32"
abbreviation "SIO_REG_STATUS \<equiv> 0x4 :: u32"
abbreviation "SIO_REG_BAUD \<equiv> 0x8 :: u32"
abbreviation "SIO_RX_FULL \<equiv> 0x1 :: u32"
abbreviation "SIO_TX_BUSY \<equiv> 0x2 :: u32"
abbreviation "IO_SIO_0 \<equiv> 0xfffffb00 :: u32"

record 'd device =
  dv_load :: "u32 \<Rightarrow> 'd \<Rightarrow> u8 \<times> 'd"
  dv_store :: "u32 \<Rightarrow> u8 \<Rightarrow> 'd \<Rightarrow> 'd"

record sio_state =
  s_io_port :: u32
  s_rxbuf_head :: u16
  s_rxbuf_tail :: u16
  s_hw_rx_overruns :: u16
  s_sw_rx_overruns :: u16
  s_rxbuf :: "u8 list"

definition sio0_tty :: tty where
  "sio0_tty = \<lparr>t_termios = \<lparr>c_iflag = ICRNL OR IXON, c_oflag = OPOST OR ONLCR, c_cflag = 0,
       c_lflag = ISIG, c_cc = replicate 11 0\<rparr>, t_ws_row = 24, t_ws_col = 80, t_rflags = 0\<rparr>"

definition zero_sio :: "u32 \<Rightarrow> sio_state" where
  "zero_sio port = \<lparr>s_io_port = port, s_rxbuf_head = 0, s_rxbuf_tail = 0, s_hw_rx_overruns = 0,
     s_sw_rx_overruns = 0, s_rxbuf = replicate SIO_RXBUFSIZE 0\<rparr>"

text \<open>The macros \<^verbatim>\<open>LB\<close> (the byte is sign-extended) and \<^verbatim>\<open>SB\<close>.\<close>

definition LB :: "'d device \<Rightarrow> u32 \<Rightarrow> u32 \<Rightarrow> 'd \<Rightarrow> u32 \<times> 'd" where
  "LB dv reg port d = (let (b, d') = dv_load dv (port + reg) d in (scast b, d'))"

definition SB :: "'d device \<Rightarrow> u32 \<Rightarrow> u32 \<Rightarrow> u32 \<Rightarrow> 'd \<Rightarrow> 'd" where
  "SB dv data reg port d = dv_store dv (port + reg) (ucast data) d"

definition sio_next :: "sio_state \<Rightarrow> u16" where
  "sio_next sio = (s_rxbuf_head sio + 1) AND SIO_RXBUFMASK"

definition sio_full :: "sio_state \<Rightarrow> bool" where
  "sio_full sio \<longleftrightarrow> sio_next sio = s_rxbuf_tail sio"

definition sio_empty :: "sio_state \<Rightarrow> bool" where
  "sio_empty sio \<longleftrightarrow> s_rxbuf_head sio = s_rxbuf_tail sio"

definition sio_put :: "sio_state \<Rightarrow> u8 \<Rightarrow> sio_state" where
  "sio_put sio c = sio\<lparr>s_rxbuf := (s_rxbuf sio)[unat (s_rxbuf_head sio) := c], s_rxbuf_head := sio_next sio\<rparr>"

definition sio_get :: "sio_state \<Rightarrow> u8 \<times> sio_state" where
  "sio_get sio = (s_rxbuf sio ! unat (s_rxbuf_tail sio),
     sio\<lparr>s_rxbuf_tail := (s_rxbuf_tail sio + 1) AND SIO_RXBUFMASK\<rparr>)"

text \<open>What the driver does with one character received.\<close>

definition sio_rx_char :: "sighandler \<Rightarrow> sio_state \<Rightarrow> tty option \<Rightarrow> task \<Rightarrow> int \<Rightarrow> sio_state \<times> tty option \<times> task" where
  "sio_rx_char sigh sio t ts c =
     (let (t, ts, c) = (case t of
            Some t0 \<Rightarrow> if TTY_DO_IPROC t c then (let (t1, ts1, c1) = tty_iproc sigh t0 ts c in (Some t1, ts1, if c1 < 0 then None else Some c1))
                       else (t, ts, Some c)
          | None \<Rightarrow> (t, ts, Some c))
      in case c of
           None \<Rightarrow> (sio, t, ts)
         | Some c \<Rightarrow>
             if sio_full sio then (sio\<lparr>s_sw_rx_overruns := s_sw_rx_overruns sio + 1\<rparr>, t, ts)
             else (sio_put sio (word_of_int c), t, ts))"

partial_function (option) sio_probe_rx ::
  "'d device \<Rightarrow> sighandler \<Rightarrow> sio_state \<Rightarrow> tty option \<Rightarrow> task \<Rightarrow> 'd \<Rightarrow>
   (sio_state \<times> tty option \<times> task \<times> 'd \<times> u32) option" where
  "sio_probe_rx dv sigh sio t ts d =
     (let (s, d1) = LB dv SIO_REG_STATUS (s_io_port sio) d;
          (sio1, d2) = (if signed_drop_bit 4 s \<noteq> 0
             then (sio\<lparr>s_hw_rx_overruns := s_hw_rx_overruns sio + ucast (signed_drop_bit 4 s AND 0xf)\<rparr>,
                   SB dv 0 SIO_REG_STATUS (s_io_port sio) d1)
             else (sio, d1))
      in if s AND SIO_RX_FULL = 0 then Some (sio1, t, ts, d2, s AND SIO_TX_BUSY)
         else (let (c, d3) = LB dv SIO_REG_DATA (s_io_port sio) d2;
                   (sio2, t2, ts2) = sio_rx_char sigh sio1 t ts (sint c)
               in sio_probe_rx dv sigh sio2 t2 ts2 d3))"

text \<open>The waiting branches shared by sio_read and sio_write.\<close>

definition sio_wait :: "file_rec \<Rightarrow> task \<Rightarrow> nat \<Rightarrow> (task \<times> errno option \<times> int) option" where
  "sio_wait fp ts i =
     (if ucast (f_flags fp) AND O_NONBLOCK \<noteq> 0 then
        (if i \<noteq> 0 then Some (ts, None, int i) else Some (ts, Some EAGAIN, - 1))
      else if ts_sigf ts AND 2 \<noteq> 0 then
        Some (ts\<lparr>ts_sigf := ts_sigf ts AND NOT 2\<rparr>, Some EINTR, - 1)
      else None)"

fun sio_drain :: "nat \<Rightarrow> sio_state \<Rightarrow> u8 list \<times> sio_state" where
  "sio_drain 0 sio = ([], sio)"
| "sio_drain (Suc n) sio =
     (let (c, sio') = sio_get sio in
      if \<not> sio_empty sio' \<and> 0 < n
      then (let (cs, sio'') = sio_drain n sio' in (c # cs, sio''))
      else ([c], sio'))"

record 'd sio_env =
  e_sio :: sio_state
  e_tty :: "tty option"
  e_task :: task
  e_dev :: 'd

text \<open>
  \<^verbatim>\<open>sio_read\<close>: \<open>acc\<close> is what has been stored into the caller's buffer so far.
  Waiting goes on as long as the device delivers nothing.
\<close>

partial_function (option) sio_read ::
  "'d device \<Rightarrow> sighandler \<Rightarrow> file_rec \<Rightarrow> 'd sio_env \<Rightarrow> nat \<Rightarrow> u8 list \<Rightarrow>
   ('d sio_env \<times> u8 list \<times> errno option \<times> int) option" where
  "sio_read dv sigh fp en n acc =
     (if n \<le> length acc then Some (en, acc, None, int (length acc))
      else (case sio_probe_rx dv sigh (e_sio en) (e_tty en) (e_task en) (e_dev en) of
              None \<Rightarrow> None
            | Some (sio, t, ts, d, _) \<Rightarrow>
                if sio_empty sio then
                  (case sio_wait fp ts (length acc) of
                     Some (ts', e, r) \<Rightarrow> Some (\<lparr>e_sio = sio, e_tty = t, e_task = ts', e_dev = d\<rparr>, acc, e, r)
                   | None \<Rightarrow> sio_read dv sigh fp \<lparr>e_sio = sio, e_tty = t, e_task = ts, e_dev = d\<rparr> n acc)
                else
                  (let (cs, sio') = sio_drain (n - length acc) sio
                   in sio_read dv sigh fp \<lparr>e_sio = sio', e_tty = t, e_task = ts, e_dev = d\<rparr> n (acc @ cs))))"

text \<open>
  \<^verbatim>\<open>sio_write\<close>: \<open>obuf\<close> is the unsent part of \<^verbatim>\<open>tios_obuf\<close>, \<open>cs\<close> the unsent part of the
  caller's buffer and \<open>i\<close> the number of characters taken from it.
\<close>

partial_function (option) sio_write_loop ::
  "'d device \<Rightarrow> sighandler \<Rightarrow> file_rec \<Rightarrow> nat \<Rightarrow> 'd sio_env \<Rightarrow> u8 list \<Rightarrow> u8 list \<Rightarrow> nat \<Rightarrow>
   ('d sio_env \<times> errno option \<times> int) option" where
  "sio_write_loop dv sigh fp nbytes en obuf cs i =
     (if cs = [] \<and> obuf = [] then Some (en, None, int nbytes)
      else (case sio_probe_rx dv sigh (e_sio en) (e_tty en) (e_task en) (e_dev en) of
              None \<Rightarrow> None
            | Some (sio, t, ts, d, busy) \<Rightarrow>
                if busy AND SIO_TX_BUSY \<noteq> 0 \<or> (TTY_OBLOCKED t \<and> obuf = []) then
                  (case sio_wait fp ts i of
                     Some (ts', e, r) \<Rightarrow> Some (\<lparr>e_sio = sio, e_tty = t, e_task = ts', e_dev = d\<rparr>, e, r)
                   | None \<Rightarrow> sio_write_loop dv sigh fp nbytes
                       \<lparr>e_sio = sio, e_tty = t, e_task = ts, e_dev = d\<rparr> obuf cs i)
                else
                  (let (c, obuf', cs', i') =
                         (case obuf of c # ob \<Rightarrow> (c, ob, cs, i)
                          | [] \<Rightarrow> (let c = hd cs in
                              case t of
                                Some t0 \<Rightarrow> if TTY_DO_OPROC t c
                                  then (let ex = tty_oexpand t0 c in (hd ex, tl ex, tl cs, i + 1))
                                  else (c, [], tl cs, i + 1)
                              | None \<Rightarrow> (c, [], tl cs, i + 1)))
                   in sio_write_loop dv sigh fp nbytes
                        \<lparr>e_sio = sio, e_tty = t, e_task = ts,
                         e_dev = SB dv (scast c) SIO_REG_DATA (s_io_port sio) d\<rparr> obuf' cs' i')))"

definition sio_write ::
  "'d device \<Rightarrow> sighandler \<Rightarrow> file_rec \<Rightarrow> 'd sio_env \<Rightarrow> u8 list \<Rightarrow>
   ('d sio_env \<times> errno option \<times> int) option" where
  "sio_write dv sigh fp en buf = sio_write_loop dv sigh fp (length buf) en [] buf 0"

definition sio_bauds :: "nat list" where
  "sio_bauds = [3, 6, 12, 24, 48, 96, 192, 384, 576, 1152, 2304, 4608, 9216, 10000, 15000, 30000]"

fun sio_setbaud_loop :: "nat list \<Rightarrow> nat \<Rightarrow> int \<Rightarrow> nat option" where
  "sio_setbaud_loop [] i bauds = None"
| "sio_setbaud_loop (b # bs) i bauds = (if int b = bauds then Some i else sio_setbaud_loop bs (i + 1) bauds)"

definition sio_setbaud :: "'d device \<Rightarrow> sio_state \<Rightarrow> int \<Rightarrow> 'd \<Rightarrow> 'd \<times> int" where
  "sio_setbaud dv sio bauds d =
     (case sio_setbaud_loop sio_bauds 0 (bauds sdiv 100) of
        Some i \<Rightarrow> (SB dv (of_nat i) SIO_REG_BAUD (s_io_port sio) d, 0)
      | None \<Rightarrow> (d, - 1))"

text \<open>\<^verbatim>\<open>sio_getbaud\<close> indexes the table with the register value; None stands for an index
  outside the table.\<close>

definition sio_getbaud :: "'d device \<Rightarrow> sio_state \<Rightarrow> 'd \<Rightarrow> (nat \<times> 'd) option" where
  "sio_getbaud dv sio d =
     (let (i, d') = LB dv SIO_REG_BAUD (s_io_port sio) d
      in if unat i < 16 then Some (sio_bauds ! unat i * 100, d') else None)"


section \<open>The receive buffer is a bounded queue\<close>

definition sio_ok :: "sio_state \<Rightarrow> bool" where
  "sio_ok sio \<longleftrightarrow> ring_ok SIO_RXBUFSIZE (s_rxbuf sio) (unat (s_rxbuf_head sio)) (unat (s_rxbuf_tail sio))"

definition sio_contents :: "sio_state \<Rightarrow> u8 list" where
  "sio_contents sio = ring_contents SIO_RXBUFSIZE (s_rxbuf sio) (unat (s_rxbuf_head sio)) (unat (s_rxbuf_tail sio))"

lemma unat_sio_inc: "unat w < 32 \<Longrightarrow> unat ((w + 1) AND SIO_RXBUFMASK) = Suc (unat w) mod 32"
  using unat_next_mask [of w 5] by (simp add: mask_eq_exp_minus_1)

lemma sio_full_nat: "sio_ok s \<Longrightarrow> sio_full s \<longleftrightarrow> (unat (s_rxbuf_head s) + 1) mod 32 = unat (s_rxbuf_tail s)"
  unfolding sio_full_def sio_next_def sio_ok_def ring_ok_def
  by (metis Suc_eq_plus1 unat_eq_word unat_sio_inc)

interpretation sq: bounded_fifo sio_ok sio_contents 31 sio_full sio_empty sio_put sio_get
proof
  fix s s' :: sio_state and x :: u8
  assume ok: "sio_ok s"
  then have r: "ring_ok 32 (s_rxbuf s) (unat (s_rxbuf_head s)) (unat (s_rxbuf_tail s))"
    "unat (s_rxbuf_head s) < 32" "unat (s_rxbuf_tail s) < 32"
    by (simp_all add: sio_ok_def ring_ok_def)
  show "sio_full s \<longleftrightarrow> length (sio_contents s) = 31"
    using sio_full_nat [OF ok] ring_full_iff [OF r(1)] by (simp add: sio_contents_def)
  show "sio_empty s \<longleftrightarrow> sio_contents s = []"
    using ring_empty_iff [OF r(1)] by (simp add: sio_empty_def sio_contents_def unat_eq_word)
  show "length (sio_contents s) \<le> 31" using ring_bound [OF r(1)] by (simp add: sio_contents_def)
  { assume "\<not> sio_full s"
    then have nf: "(unat (s_rxbuf_head s) + 1) mod 32 \<noteq> unat (s_rxbuf_tail s)" using sio_full_nat [OF ok] by simp
    show "sio_ok (sio_put s x)" "sio_contents (sio_put s x) = sio_contents s @ [x]"
      using ring_put [OF r(1) nf, of x] unat_sio_inc [OF r(2)]
      by (simp_all add: sio_ok_def sio_contents_def sio_put_def sio_next_def) }
  { assume "\<not> sio_empty s" and g: "sio_get s = (x, s')"
    then have ne: "unat (s_rxbuf_head s) \<noteq> unat (s_rxbuf_tail s)" by (simp add: sio_empty_def unat_eq_word)
    show "sio_ok s'" "sio_contents s = x # sio_contents s'"
      using ring_get [OF r(1) ne] unat_sio_inc [OF r(3)] g
      by (auto simp: sio_ok_def sio_contents_def sio_get_def) }
qed

section \<open>Receiving\<close>

text \<open>
  A port whose device behaves as a UART: the status register tells whether a
  character waits and whether the transmitter is still busy, the data register
  takes the character, and a store to the data register sends one.  \<open>rx\<close> and
  \<open>tx\<close> give the characters waiting and sent, \<open>busy\<close> the number of times the
  transmitter is going to be found busy.  No hardware overrun occurs.
\<close>

definition uart_ok :: "'d device \<Rightarrow> u32 \<Rightarrow> ('d \<Rightarrow> u8 list) \<Rightarrow> ('d \<Rightarrow> u8 list) \<Rightarrow> ('d \<Rightarrow> nat) \<Rightarrow> bool" where
  "uart_ok dv port rx tx busy \<longleftrightarrow>
     (\<forall>d. \<exists>d'. dv_load dv (port + SIO_REG_STATUS) d =
          ((if rx d = [] then 0 else 1) OR (if busy d = 0 then 0 else 2), d') \<and>
        rx d' = rx d \<and> tx d' = tx d \<and> busy d' = busy d - 1) \<and>
     (\<forall>d c cs. rx d = c # cs \<longrightarrow> (\<exists>d'. dv_load dv (port + SIO_REG_DATA) d = (c, d') \<and>
        rx d' = cs \<and> tx d' = tx d)) \<and>
     (\<forall>d b. rx (dv_store dv (port + SIO_REG_DATA) b d) = rx d \<and>
        tx (dv_store dv (port + SIO_REG_DATA) b d) = tx d @ [b])"

fun sio_input :: "sighandler \<Rightarrow> sio_state \<Rightarrow> tty option \<Rightarrow> task \<Rightarrow> u8 list \<Rightarrow> sio_state \<times> tty option \<times> task" where
  "sio_input sigh sio t ts [] = (sio, t, ts)"
| "sio_input sigh sio t ts (c # cs) =
     (let (sio', t', ts') = sio_rx_char sigh sio t ts (sint c) in sio_input sigh sio' t' ts' cs)"

lemma sio_rx_char_port: "sio_rx_char sigh sio t ts c = (sio', t', ts') \<Longrightarrow> s_io_port sio' = s_io_port sio"
  by (auto simp: sio_rx_char_def sio_put_def Let_def split: prod.splits option.splits if_splits)

lemma sint_scast_u8: "sint (scast (c :: u8) :: u32) = sint c"
proof -
  have "- (2 ^ 7) \<le> sint c" "sint c < 2 ^ 7" using sint_ge [of c] sint_lt [of c] by simp_all
  then show ?thesis by (simp add: signed_scast_eq signed_take_bit_int_eq_self)
qed

lemma uart_status:
  "uart_ok dv port rx tx busy \<Longrightarrow>
   \<exists>d'. dv_load dv (port + SIO_REG_STATUS) d =
      ((if rx d = [] then 0 else 1) OR (if busy d = 0 then 0 else 2), d') \<and>
      rx d' = rx d \<and> tx d' = tx d \<and> busy d' = busy d - 1"
  unfolding uart_ok_def by blast

lemma uart_data:
  "uart_ok dv port rx tx busy \<Longrightarrow> rx d = c # cs \<Longrightarrow>
   \<exists>d'. dv_load dv (port + SIO_REG_DATA) d = (c, d') \<and> rx d' = cs \<and> tx d' = tx d"
  unfolding uart_ok_def by blast

lemma uart_send:
  "uart_ok dv port rx tx busy \<Longrightarrow>
   rx (dv_store dv (port + SIO_REG_DATA) b d) = rx d \<and> tx (dv_store dv (port + SIO_REG_DATA) b d) = tx d @ [b]"
  unfolding uart_ok_def by blast

text \<open>The status byte of such a port, sign-extended, and its flags.\<close>

lemma uart_status_flags:
  fixes p q :: bool
  defines "s \<equiv> scast ((if p then 0 else 1) OR (if q then 0 else 2) :: u8) :: u32"
  shows "signed_drop_bit 4 s = 0" "s AND SIO_RX_FULL = (if p then 0 else 1)"
    "s AND SIO_TX_BUSY = (if q then 0 else 2)"
  unfolding s_def by (cases p; cases q; simp)+

lemma sio_probe_rx_idle:
  assumes u: "uart_ok dv (s_io_port sio) rx tx busy" and rx: "rx d = []"
  shows "\<exists>d'. sio_probe_rx dv sigh sio t ts d = Some (sio, t, ts, d', if busy d = 0 then 0 else 2) \<and>
     rx d' = [] \<and> tx d' = tx d \<and> busy d' = busy d - 1"
  using uart_status [OF u, of d] rx uart_status_flags [of True "busy d = 0"]
  by (auto simp: sio_probe_rx.simps [of dv sigh sio t ts d] LB_def)

lemma sio_probe_rx_next:
  assumes u: "uart_ok dv (s_io_port sio) rx tx busy" and rx: "rx d = c # cs"
    and r: "sio_rx_char sigh sio t ts (sint c) = (sio', t', ts')"
  shows "\<exists>d'. sio_probe_rx dv sigh sio t ts d = sio_probe_rx dv sigh sio' t' ts' d' \<and>
     rx d' = cs \<and> tx d' = tx d"
proof -
  obtain d1 where d1: "dv_load dv (s_io_port sio + SIO_REG_STATUS) d = (1 OR (if busy d = 0 then 0 else 2), d1)"
    "rx d1 = c # cs" "tx d1 = tx d"
    using uart_status [OF u, of d] rx by auto
  obtain d2 where d2: "dv_load dv (s_io_port sio + SIO_REG_DATA) d1 = (c, d2)" "rx d2 = cs" "tx d2 = tx d"
    using uart_data [OF u d1(2)] d1(3) by auto
  have "sio_probe_rx dv sigh sio t ts d = sio_probe_rx dv sigh sio' t' ts' d2"
    using d1(1) d2(1) r uart_status_flags [of False "busy d = 0"]
    by (simp add: sio_probe_rx.simps [of dv sigh sio t ts d] LB_def sint_scast_u8)
  then show ?thesis using d2 by blast
qed

lemma sio_probe_rx_input:
  assumes u: "uart_ok dv (s_io_port sio) rx tx busy"
  shows "\<exists>sio' t' ts' d' b. sio_probe_rx dv sigh sio t ts d = Some (sio', t', ts', d', b) \<and>
     (sio', t', ts') = sio_input sigh sio t ts (rx d) \<and> s_io_port sio' = s_io_port sio \<and>
     rx d' = [] \<and> tx d' = tx d"
  using u
proof (induction "rx d" arbitrary: sio t ts d)
  case Nil
  then show ?case using sio_probe_rx_idle [OF Nil.prems, of d sigh t ts] by fastforce
next
  case (Cons c cs)
  obtain sio1 t1 ts1 where r: "sio_rx_char sigh sio t ts (sint c) = (sio1, t1, ts1)"
    by (metis prod_cases3)
  have p: "s_io_port sio1 = s_io_port sio" using sio_rx_char_port [OF r] .
  obtain d2 where d2: "sio_probe_rx dv sigh sio t ts d = sio_probe_rx dv sigh sio1 t1 ts1 d2" "rx d2 = cs" "tx d2 = tx d"
    using sio_probe_rx_next [OF Cons.prems _ r, of d cs] Cons.hyps(2) by auto
  have "sio_input sigh sio t ts (rx d) = sio_input sigh sio1 t1 ts1 cs" using r by (simp flip: Cons.hyps(2))
  then show ?case
    using Cons.hyps(1) [of d2 sio1 t1 ts1] Cons.prems p d2 by simp
qed

lemma sio_rx_char_raw:
  "sio_rx_char sigh sio None ts c =
     (if sio_full sio then sio\<lparr>s_sw_rx_overruns := s_sw_rx_overruns sio + 1\<rparr> else sio_put sio (word_of_int c), None, ts)"
  by (simp add: sio_rx_char_def)

lemma sio_ok_overrun: "sio_ok (sio\<lparr>s_sw_rx_overruns := n\<rparr>) = sio_ok sio"
  "sio_contents (sio\<lparr>s_sw_rx_overruns := n\<rparr>) = sio_contents sio"
  by (simp_all add: sio_ok_def sio_contents_def)

lemma sio_input_raw:
  assumes "sio_ok sio" "sio_input sigh sio None ts cs = (sio', t', ts')"
  shows "sio_ok sio' \<and> t' = None \<and> ts' = ts \<and>
    sio_contents sio' = sio_contents sio @ take (31 - length (sio_contents sio)) cs \<and>
    s_sw_rx_overruns sio' = s_sw_rx_overruns sio + of_nat (length cs - (31 - length (sio_contents sio)))"
  using assms
proof (induction cs arbitrary: sio)
  case (Cons c cs)
  show ?case
  proof (cases "sio_full sio")
    case True
    then have l: "length (sio_contents sio) = 31" using sq.full_iff [OF Cons.prems(1)] by simp
    show ?thesis
      using Cons.IH [of "sio\<lparr>s_sw_rx_overruns := s_sw_rx_overruns sio + 1\<rparr>"] Cons.prems True l
      by (simp add: sio_rx_char_raw sio_ok_overrun algebra_simps)
  next
    case False
    then have l: "length (sio_contents sio) < 31"
      using sq.full_iff [OF Cons.prems(1)] sq.cap_bound [OF Cons.prems(1)] by simp
    have p: "sio_ok (sio_put sio c)" "sio_contents (sio_put sio c) = sio_contents sio @ [c]"
      using sq.put_invar [OF Cons.prems(1) False] sq.put_contents [OF Cons.prems(1) False] by simp_all
    obtain k where k: "31 - length (sio_contents sio) = Suc k" using l by (metis Suc_diff_Suc)
    then have k': "31 - length (sio_contents (sio_put sio c)) = k" using p(2) by simp
    have o: "s_sw_rx_overruns (sio_put sio c) = s_sw_rx_overruns sio" by (simp add: sio_put_def)
    show ?thesis
      using Cons.IH [OF p(1)] Cons.prems(2) False p(2) k o unfolding k' by (simp add: sio_rx_char_raw)
  qed
qed simp

section \<open>Transmitting\<close>

definition tty_output :: "tty option \<Rightarrow> u8 \<Rightarrow> u8 list" where
  "tty_output t c = (case t of Some t0 \<Rightarrow> if TTY_DO_OPROC t c then tty_oexpand t0 c else [c] | None \<Rightarrow> [c])"

lemma tty_output_nonempty: "tty_output t c \<noteq> []"
  by (simp add: tty_output_def tty_oexpand_def split: option.splits)

lemma SB_scast: "SB dv (scast (c :: u8)) reg port d = dv_store dv (port + reg) c d"
proof -
  have "(ucast (scast c :: u32) :: u8) = c" by (rule bit_word_eqI) (auto simp: bit_simps)
  then show ?thesis by (simp add: SB_def)
qed

lemma sio_write_next:
  "(c, obuf', cs', i') =
     (case obuf of c # ob \<Rightarrow> (c, ob, cs, i)
      | [] \<Rightarrow> (let c = hd cs in
          case t of
            Some t0 \<Rightarrow> if TTY_DO_OPROC t c
              then (let ex = tty_oexpand t0 c in (hd ex, tl ex, tl cs, i + 1))
              else (c, [], tl cs, i + 1)
          | None \<Rightarrow> (c, [], tl cs, i + 1))) \<Longrightarrow>
   obuf \<noteq> [] \<or> cs \<noteq> [] \<Longrightarrow>
   obuf @ concat (map (tty_output t) cs) = c # obuf' @ concat (map (tty_output t) cs')"
  by (cases cs; cases obuf)
     (auto simp: tty_output_def tty_oexpand_def Let_def split: option.splits if_splits)


lemma sio_wait_blocks: "ucast (f_flags fp) AND O_NONBLOCK = 0 \<Longrightarrow> ts_sigf ts AND 2 = 0 \<Longrightarrow> sio_wait fp ts i = None"
  by (simp add: sio_wait_def)

lemma sio_write_loop_sends:
  assumes u: "uart_ok dv (s_io_port (e_sio en)) rx tx busy"
    and fp: "ucast (f_flags fp) AND O_NONBLOCK = 0" and sg: "ts_sigf (e_task en) AND 2 = 0"
    and t: "\<not> TTY_OBLOCKED (e_tty en)" and rx: "rx (e_dev en) = []"
  shows "\<exists>en'. sio_write_loop dv sigh fp n en obuf cs i = Some (en', None, int n) \<and>
    e_sio en' = e_sio en \<and> e_tty en' = e_tty en \<and> e_task en' = e_task en \<and>
    tx (e_dev en') = tx (e_dev en) @ obuf @ concat (map (tty_output (e_tty en)) cs)"
  using u sg t rx
proof (induction "(length (obuf @ concat (map (tty_output (e_tty en)) cs)), busy (e_dev en))"
    arbitrary: en obuf cs i rule: wf_induct_rule [OF wf_lex_prod [OF wf_less_than wf_less_than], case_names less])
  case less
  note unfold = sio_write_loop.simps [of dv sigh fp n en obuf cs i]
  show ?case
  proof (cases "cs = [] \<and> obuf = []")
    case True
    then show ?thesis using unfold by simp
  next
    case ne: False
    obtain d where d: "sio_probe_rx dv sigh (e_sio en) (e_tty en) (e_task en) (e_dev en) =
        Some (e_sio en, e_tty en, e_task en, d, if busy (e_dev en) = 0 then 0 else 2)"
      "rx d = []" "tx d = tx (e_dev en)" "busy d = busy (e_dev en) - 1"
      using sio_probe_rx_idle [OF less.prems(1) less.prems(4)] by blast
    show ?thesis
    proof (cases "busy (e_dev en) = 0")
      case False
      let ?en = "\<lparr>e_sio = e_sio en, e_tty = e_tty en, e_task = e_task en, e_dev = d\<rparr>"
      have "sio_write_loop dv sigh fp n en obuf cs i = sio_write_loop dv sigh fp n ?en obuf cs i"
        using unfold d(1) False ne sio_wait_blocks [OF fp less.prems(2)] by simp
      then show ?thesis
        using less.hyps [of obuf ?en cs i] less.prems d False by simp
    next
      case True
      obtain c obuf' cs' i' where nx: "(c, obuf', cs', i') =
         (case obuf of c # ob \<Rightarrow> (c, ob, cs, i)
          | [] \<Rightarrow> (let c = hd cs in
              case e_tty en of
                Some t0 \<Rightarrow> if TTY_DO_OPROC (e_tty en) c
                  then (let ex = tty_oexpand t0 c in (hd ex, tl ex, tl cs, i + 1))
                  else (c, [], tl cs, i + 1)
              | None \<Rightarrow> (c, [], tl cs, i + 1)))"
        by (metis (no_types, lifting) surj_pair)
      let ?en = "\<lparr>e_sio = e_sio en, e_tty = e_tty en, e_task = e_task en,
        e_dev = dv_store dv (s_io_port (e_sio en) + SIO_REG_DATA) c d\<rparr>"
      have st: "sio_write_loop dv sigh fp n en obuf cs i = sio_write_loop dv sigh fp n ?en obuf' cs' i'"
        using unfold d(1) True ne less.prems(3) by (simp add: SB_scast flip: nx)
      have eq: "obuf @ concat (map (tty_output (e_tty en)) cs) = c # obuf' @ concat (map (tty_output (e_tty en)) cs')"
        using sio_write_next [OF nx] ne by blast
      have "rx (e_dev ?en) = []" "tx (e_dev ?en) = tx (e_dev en) @ [c]"
        using uart_send [OF less.prems(1), of c d] d(2,3) by simp_all
      then show ?thesis
        using less.hyps [of obuf' ?en cs' i'] less.prems st unfolding eq by simp
    qed
  qed
qed

text \<open>A concrete UART for the witnesses: characters waiting, characters sent, busy count.\<close>

type_synonym loopback = "u8 list \<times> u8 list \<times> nat"

definition uart_dev :: "u32 \<Rightarrow> loopback device" where
  "uart_dev port =
     \<lparr>dv_load = (\<lambda>a (r, t, b).
        if a = port + SIO_REG_STATUS then ((if r = [] then 0 else 1) OR (if b = 0 then 0 else 2), (r, t, b - 1))
        else if a = port + SIO_REG_DATA \<and> r \<noteq> [] then (hd r, (tl r, t, b))
        else (0, (r, t, b))),
      dv_store = (\<lambda>a c (r, t, b). if a = port + SIO_REG_DATA then (r, t @ [c], 2) else (r, t, b))\<rparr>"

lemma uart_dev_ok: "uart_ok (uart_dev port) port fst (fst \<circ> snd) (snd \<circ> snd)"
  by (auto simp: uart_ok_def uart_dev_def)

abbreviation idle_task :: task where
  "idle_task \<equiv> \<lparr>ts_files = [], ts_maxfiles = 0, ts_sigh = 0, ts_sigf = 0\<rparr>"

lemma zero_sio_ok: "sio_ok (zero_sio port)" "sio_contents (zero_sio port) = []" "s_io_port (zero_sio port) = port"
  by (simp_all add: sio_ok_def sio_contents_def zero_sio_def ring_ok_def ring_contents_def)

text \<open>C25: On a port without terminal processing, one call of sio_probe_rx moves every
  character that waits in the device, in order, behind those already in the receive buffer as
  long as the buffer holds fewer than 31; the others are dropped and counted in
  s_sw_rx_overruns.  The call always returns.\<close>
theorem sio_probe_rx_raw:
  assumes "uart_ok dv (s_io_port sio) rx tx busy" "sio_ok sio"
  shows "\<exists>sio' d' b. sio_probe_rx dv sigh sio None ts d = Some (sio', None, ts, d', b) \<and>
    rx d' = [] \<and> tx d' = tx d \<and> sio_ok sio' \<and>
    sio_contents sio' = sio_contents sio @ take (31 - length (sio_contents sio)) (rx d) \<and>
    s_sw_rx_overruns sio' = s_sw_rx_overruns sio + of_nat (length (rx d) - (31 - length (sio_contents sio)))"
proof -
  obtain sio' t' ts' d' b where p: "sio_probe_rx dv sigh sio None ts d = Some (sio', t', ts', d', b)"
    "sio_input sigh sio None ts (rx d) = (sio', t', ts')" "rx d' = []" "tx d' = tx d"
    using sio_probe_rx_input [OF assms(1), of sigh None ts d] by metis
  then show ?thesis using sio_input_raw [OF assms(2) p(2)] by blast
qed

theorem sio_probe_rx_raw_witness:
  "\<exists>sio' d' b. sio_probe_rx (uart_dev IO_SIO_0) (\<lambda>_ _ ts. ts) (zero_sio IO_SIO_0) None idle_task
      (replicate 40 7, [], 1) = Some (sio', None, idle_task, d', b) \<and>
    sio_contents sio' = replicate 31 7 \<and> s_sw_rx_overruns sio' = 9"
  using sio_probe_rx_raw [of "uart_dev IO_SIO_0" "zero_sio IO_SIO_0" fst "fst \<circ> snd" "snd \<circ> snd"
      "\<lambda>_ _ ts. ts" idle_task "(replicate 40 7, [], 1)"] uart_dev_ok [of IO_SIO_0] zero_sio_ok [of IO_SIO_0]
  by (auto simp: zero_sio_def)

lemma sint_high_byte: "128 \<le> unat (c :: u8) \<Longrightarrow> sint c < 0"
proof -
  assume a: "128 \<le> unat c"
  have "uint c < 256" using uint_lt2p [of c] by simp
  moreover have "128 \<le> uint c" using a by (metis int_ops(3) of_nat_le_iff uint_nat)
  ultimately have "uint c div 128 = 1" by linarith
  then have "bit (uint c) 7" unfolding bit_iff_odd by simp
  then show ?thesis by (simp add: sint_uint del: bit_uint_iff)
qed

lemma tty_high_byte:
  "128 \<le> unat (c :: u8) \<Longrightarrow> \<exists>t'. sio_rx_char sigh sio (Some t) ts (sint c) = (sio, Some t', ts)"
  using sint_high_byte [of c] by (simp add: sio_rx_char_def TTY_DO_IPROC_def tty_iproc_def Let_def)

lemma word_u8_sint: "0 \<le> sint (c :: u8) \<Longrightarrow> unat c < 128"
  using sint_high_byte [of c] by linarith

text \<open>What terminal processing makes of a character is below 128, or nothing.\<close>

lemma tty_iproc_range:
  "tty_iproc sigh t ts (sint (c :: u8)) = (t', ts', k) \<Longrightarrow> 0 \<le> k \<Longrightarrow> 0 \<le> sint c \<and> unat (word_of_int k :: u8) < 128"
  using word_u8_sint [of c] by (auto simp: tty_iproc_def Let_def split: if_splits)

lemma tty_rx_char:
  assumes "sio_ok sio"
  obtains sio' t' ts' cs k where "sio_rx_char sigh sio (Some t) ts (sint (c :: u8)) = (sio', Some t', ts')" "sio_ok sio'"
    "sio_contents sio' = sio_contents sio @ cs" "s_sw_rx_overruns sio' = s_sw_rx_overruns sio + of_nat k"
    "\<forall>c\<in>set cs. unat c < 128" "length cs + k \<le> (if unat c < 128 then 1 else 0)"
proof -
  obtain t1 ts1 r where i: "(if TTY_DO_IPROC (Some t) (sint c) then tty_iproc sigh t ts (sint c) else (t, ts, sint c)) = (t1, ts1, r)"
    by (metis prod_cases3)
  have r: "0 \<le> r \<Longrightarrow> unat c < 128 \<and> unat (word_of_int r :: u8) < 128"
    using i tty_iproc_range [of sigh t ts c t1 ts1 r] word_u8_sint [of c] by (auto split: if_splits)
  have neg: "r < 0 \<Longrightarrow> TTY_DO_IPROC (Some t) (sint c)" using i by (auto simp: TTY_DO_IPROC_def split: if_splits)
  have e: "sio_rx_char sigh sio (Some t) ts (sint c) = (if r < 0 then sio
     else if sio_full sio then sio\<lparr>s_sw_rx_overruns := s_sw_rx_overruns sio + 1\<rparr> else sio_put sio (word_of_int r), Some t1, ts1)"
    using i neg by (auto simp: sio_rx_char_def Let_def split: if_splits)
  consider "r < 0" | "0 \<le> r" "sio_full sio" | "0 \<le> r" "\<not> sio_full sio" by linarith
  then show ?thesis
  proof cases
    case 1
    then show ?thesis using that [of sio t1 ts1 "[]" 0] e assms by simp
  next
    case 2
    then show ?thesis using that [of _ t1 ts1 "[]" 1] e assms r by (simp add: sio_ok_overrun)
  next
    case 3
    then show ?thesis using that [of _ t1 ts1 "[word_of_int r]" 0] e assms r
      sq.put_invar [OF assms 3(2)] sq.put_contents [OF assms 3(2)] by (simp add: sio_put_def)
  qed
qed

lemma tty_input:
  "sio_ok sio \<Longrightarrow> \<exists>sio' t' ts' cs k. sio_input sigh sio (Some t) ts ds = (sio', Some t', ts') \<and> sio_ok sio' \<and>
    sio_contents sio' = sio_contents sio @ cs \<and> s_sw_rx_overruns sio' = s_sw_rx_overruns sio + of_nat k \<and>
    (\<forall>c\<in>set cs. unat c < 128) \<and> length cs + k \<le> length (filter (\<lambda>c. unat c < 128) ds)"
proof (induction ds arbitrary: sio t ts)
  case Nil
  then show ?case by (auto intro!: exI [of _ "[]"] exI [of _ "0 :: nat"])
next
  case (Cons c ds)
  obtain sio1 t1 ts1 cs1 k1 where 1: "sio_rx_char sigh sio (Some t) ts (sint c) = (sio1, Some t1, ts1)" "sio_ok sio1"
    "sio_contents sio1 = sio_contents sio @ cs1" "s_sw_rx_overruns sio1 = s_sw_rx_overruns sio + of_nat k1"
    "\<forall>c\<in>set cs1. unat c < 128" "length cs1 + k1 \<le> (if unat c < 128 then 1 else 0)"
    by (rule tty_rx_char [OF Cons.prems])
  obtain sio2 t2 ts2 cs2 k2 where 2: "sio_input sigh sio1 (Some t1) ts1 ds = (sio2, Some t2, ts2)" "sio_ok sio2"
    "sio_contents sio2 = sio_contents sio1 @ cs2" "s_sw_rx_overruns sio2 = s_sw_rx_overruns sio1 + of_nat k2"
    "\<forall>c\<in>set cs2. unat c < 128" "length cs2 + k2 \<le> length (filter (\<lambda>c. unat c < 128) ds)"
    using Cons.IH [OF 1(2), of t1 ts1] by blast
  show ?case using 1 2
    by (intro exI [of _ sio2] exI [of _ t2] exI [of _ ts2] exI [of _ "cs1 @ cs2"] exI [of _ "k1 + k2"]) (auto simp: algebra_simps)
qed

text \<open>C33: On a port with terminal processing no character with the top bit set ever reaches
  the receive buffer, whatever other characters it comes with: what one call of sio_probe_rx adds to the
  buffer are characters below 128, and these together with the ones counted as overruns are at most as
  many as the characters below 128 that waited.  The data register is read with sign extension, tty_iproc gives the
  negative value back, and the driver takes it for a character already consumed.\<close>
theorem sio_probe_rx_high_dropped:
  assumes "uart_ok dv (s_io_port sio) rx tx busy" "sio_ok sio"
  shows "\<exists>sio' t' ts' d' b cs k. sio_probe_rx dv sigh sio (Some t) ts d = Some (sio', Some t', ts', d', b) \<and> rx d' = [] \<and>
    sio_contents sio' = sio_contents sio @ cs \<and> s_sw_rx_overruns sio' = s_sw_rx_overruns sio + of_nat k \<and>
    (\<forall>c. c \<in> set cs \<longrightarrow> unat c < 128) \<and> length cs + k \<le> length (filter (\<lambda>c. unat c < 128) (rx d))"
proof -
  obtain sio' t' ts' d' b where p: "sio_probe_rx dv sigh sio (Some t) ts d = Some (sio', t', ts', d', b)"
    "sio_input sigh sio (Some t) ts (rx d) = (sio', t', ts')" "rx d' = []"
    using sio_probe_rx_input [OF assms(1), of sigh "Some t" ts d] by metis
  then show ?thesis using tty_input [OF assms(2), of sigh t ts "rx d"] by fastforce
qed

theorem sio_probe_rx_high_dropped_witness:
  "\<exists>sio' t' ts' d' b. sio_probe_rx (uart_dev IO_SIO_0) (\<lambda>_ _ ts. ts) (zero_sio IO_SIO_0) (Some sio0_tty) idle_task
      ([0xc4, 0x41, 0x8d], [], 0) = Some (sio', t', ts', d', b) \<and> length (sio_contents sio') \<le> 1 \<and> 0xc4 \<notin> set (sio_contents sio')"
proof -
  obtain sio' t' ts' d' b cs k where "sio_probe_rx (uart_dev IO_SIO_0) (\<lambda>_ _ ts. ts) (zero_sio IO_SIO_0) (Some sio0_tty) idle_task
      ([0xc4, 0x41, 0x8d], [], 0) = Some (sio', Some t', ts', d', b)" "sio_contents sio' = [] @ cs"
    "\<forall>c. c \<in> set cs \<longrightarrow> unat c < 128" "length cs + k \<le> length (filter (\<lambda>c. unat c < 128) [0xc4, 0x41, 0x8d :: u8])"
    using sio_probe_rx_high_dropped [of "uart_dev IO_SIO_0" "zero_sio IO_SIO_0" fst "fst \<circ> snd" "snd \<circ> snd" "\<lambda>_ _ ts. ts" sio0_tty idle_task
      "([0xc4, 0x41, 0x8d], [], 0)"] uart_dev_ok [of IO_SIO_0] zero_sio_ok [of IO_SIO_0] by auto
  moreover from this have "0xc4 \<notin> set cs" by fastforce
  ultimately show ?thesis by (intro exI conjI) auto
qed

section \<open>Writing while input arrives\<close>

text \<open>A device on which nothing but a store to the data register sends a character.  Loads may answer
  anything: characters arrive at any time.\<close>

definition sends_only :: "'d device \<Rightarrow> u32 \<Rightarrow> ('d \<Rightarrow> u8 list) \<Rightarrow> bool" where
  "sends_only dv port tx \<longleftrightarrow>
     (\<forall>a d. tx (snd (dv_load dv a d)) = tx d) \<and> (\<forall>b d. tx (dv_store dv (port + SIO_REG_STATUS) b d) = tx d) \<and>
     (\<forall>b d. tx (dv_store dv (port + SIO_REG_DATA) b d) = tx d @ [b])"

lemma tty_iproc_oflag: "tty_iproc sigh t ts c = (t', ts', k) \<Longrightarrow> c_oflag (t_termios t') = c_oflag (t_termios t)"
  by (auto simp: tty_iproc_def Let_def split: if_splits)

abbreviation tty_oflag :: "tty option \<Rightarrow> u16 option" where
  "tty_oflag \<equiv> map_option (c_oflag \<circ> t_termios)"

lemma tty_output_oflag: "tty_oflag t' = tty_oflag t \<Longrightarrow> tty_output t' = tty_output t"
  by (rule ext, cases t; cases t') (auto simp: tty_output_def tty_oexpand_def TTY_DO_OPROC_def)

lemma sio_rx_char_oflag: "sio_rx_char sigh sio t ts c = (sio', t', ts') \<Longrightarrow> tty_oflag t' = tty_oflag t"
  by (auto simp: sio_rx_char_def Let_def split: prod.splits option.splits if_splits dest: tty_iproc_oflag)

definition probe_keeps :: "('d \<Rightarrow> u8 list) \<Rightarrow> 'd device \<Rightarrow> sio_state \<Rightarrow> tty option \<Rightarrow> 'd \<Rightarrow>
    sio_state \<times> tty option \<times> task \<times> 'd \<times> u32 \<Rightarrow> bool" where
  "probe_keeps tx dv sio t d y \<longleftrightarrow> (sends_only dv (s_io_port sio) tx \<longrightarrow>
     s_io_port (fst y) = s_io_port sio \<and> tx (fst (snd (snd (snd y)))) = tx d \<and> tty_oflag (fst (snd y)) = tty_oflag t)"

lemma sio_probe_rx_keeps_aux: "sio_probe_rx dv sigh sio t ts d = Some y \<Longrightarrow> probe_keeps tx dv sio t d y"
proof (rule sio_probe_rx.raw_induct [rotated, where P = "\<lambda>dv sigh sio t ts d y. probe_keeps tx dv sio t d y"], assumption)
  fix probe dv sigh sio t ts d y
  assume ih: "\<And>dv sigh sio t ts d y. probe dv sigh sio t ts d = Some y \<Longrightarrow> probe_keeps tx dv sio t d y"
   and body: "(let (s, d1) = LB dv SIO_REG_STATUS (s_io_port sio) d;
          (sio1, d2) = (if signed_drop_bit 4 s \<noteq> 0
             then (sio\<lparr>s_hw_rx_overruns := s_hw_rx_overruns sio + ucast (signed_drop_bit 4 s AND 0xf)\<rparr>,
                   SB dv 0 SIO_REG_STATUS (s_io_port sio) d1)
             else (sio, d1))
      in if s AND SIO_RX_FULL = 0 then Some (sio1, t, ts, d2, s AND SIO_TX_BUSY)
         else (let (c, d3) = LB dv SIO_REG_DATA (s_io_port sio) d2;
                   (sio2, t2, ts2) = sio_rx_char sigh sio1 t ts (sint c)
               in probe dv sigh sio2 t2 ts2 d3)) = Some y"
  { assume so: "sends_only dv (s_io_port sio) tx"
  obtain b1 d1 where l: "dv_load dv (s_io_port sio + SIO_REG_STATUS) d = (b1, d1)" by fastforce
  define s :: u32 where "s = scast b1"
  obtain sio1 d2 where pr: "(if signed_drop_bit 4 s \<noteq> 0
       then (sio\<lparr>s_hw_rx_overruns := s_hw_rx_overruns sio + ucast (signed_drop_bit 4 s AND 0xf)\<rparr>,
             SB dv 0 SIO_REG_STATUS (s_io_port sio) d1)
       else (sio, d1)) = (sio1, d2)" by fastforce
  have p1: "s_io_port sio1 = s_io_port sio" using pr by (auto split: if_splits)
  have "tx d1 = tx d" using so l unfolding sends_only_def by (metis snd_conv)
  then have t2: "tx d2 = tx d" using so pr by (auto simp: SB_def sends_only_def split: if_splits)
  obtain b2 d3 where l2: "dv_load dv (s_io_port sio) d2 = (b2, d3)" by fastforce
  have t3: "tx d3 = tx d" using so l2 t2 unfolding sends_only_def by (metis snd_conv)
  obtain sio2 t2' ts2 where c: "sio_rx_char sigh sio1 t ts (sint (scast b2 :: u32)) = (sio2, t2', ts2)" by (metis prod_cases3)
  note k = sio_rx_char_port [OF c] sio_rx_char_oflag [OF c]
  have e: "(if s AND SIO_RX_FULL = 0 then Some (sio1, t, ts, d2, s AND SIO_TX_BUSY) else probe dv sigh sio2 t2' ts2 d3) = Some y"
    using body c by (simp add: LB_def l l2 pr flip: s_def split: if_splits)
  have "s_io_port (fst y) = s_io_port sio \<and> tx (fst (snd (snd (snd y)))) = tx d \<and> tty_oflag (fst (snd y)) = tty_oflag t"
  proof (cases "s AND SIO_RX_FULL = 0")
    case True
    then show ?thesis using e p1 t2 by auto
  next
    case False
    then have "probe dv sigh sio2 t2' ts2 d3 = Some y" using e by simp
    then show ?thesis using ih [of dv sigh sio2 t2' ts2 d3 y] so k p1 t3 by (simp add: probe_keeps_def)
  qed
  }
  then show "probe_keeps tx dv sio t d y" by (simp add: probe_keeps_def)
qed

lemma sio_probe_rx_keeps:
  "sio_probe_rx dv sigh sio t ts d = Some (sio', t', ts', d', b) \<Longrightarrow> sends_only dv (s_io_port sio) tx \<Longrightarrow>
   s_io_port sio' = s_io_port sio \<and> tx d' = tx d \<and> tty_oflag t' = tty_oflag t"
  using sio_probe_rx_keeps_aux [of dv sigh sio t ts d "(sio', t', ts', d', b)" tx] by (simp add: probe_keeps_def)

text \<open>What a write has done when it returns \<open>y\<close>: it has sent a part of the characters, all of them when
  it reports success, unless the file does not block.\<close>

definition write_sent :: "('d \<Rightarrow> u8 list) \<Rightarrow> file_rec \<Rightarrow> nat \<Rightarrow> 'd \<Rightarrow> u8 list \<Rightarrow> 'd sio_env \<times> errno option \<times> int \<Rightarrow> bool" where
  "write_sent tx fp n d0 chars y \<longleftrightarrow> (\<exists>out rest. tx (e_dev (fst y)) = tx d0 @ out \<and> out @ rest = chars \<and>
     (case y of (_, None, r) \<Rightarrow> r = int n \<and> rest = [] \<or> 0 < r \<and> ucast (f_flags fp) AND O_NONBLOCK \<noteq> 0
      | (_, Some e, r) \<Rightarrow> r = - 1 \<and> (e = EAGAIN \<and> ucast (f_flags fp) AND O_NONBLOCK \<noteq> 0 \<or> e = EINTR)))"

definition write_keeps :: "('d \<Rightarrow> u8 list) \<Rightarrow> 'd device \<Rightarrow> file_rec \<Rightarrow> nat \<Rightarrow> 'd sio_env \<Rightarrow> u8 list \<Rightarrow> u8 list \<Rightarrow>
    'd sio_env \<times> errno option \<times> int \<Rightarrow> bool" where
  "write_keeps tx dv fp n en obuf cs y \<longleftrightarrow> (sends_only dv (s_io_port (e_sio en)) tx \<longrightarrow>
     write_sent tx fp n (e_dev en) (obuf @ concat (map (tty_output (e_tty en)) cs)) y)"

lemma write_sent_next: "write_sent tx fp n d1 chars y \<Longrightarrow> tx d1 = tx d0 @ [c] \<Longrightarrow> write_sent tx fp n d0 (c # chars) y"
  unfolding write_sent_def
  by (elim exE conjE, rule_tac x = "c # out" in exI, rule_tac x = rest in exI) simp

lemma sio_write_loop_prefix: "sio_write_loop dv sigh fp n en obuf cs i = Some y \<Longrightarrow> write_keeps tx dv fp n en obuf cs y"
proof (rule sio_write_loop.raw_induct [rotated, where P = "\<lambda>dv sigh fp n en obuf cs i y. write_keeps tx dv fp n en obuf cs y"], assumption)
  fix loop dv sigh fp n en obuf cs i y
  assume ih: "\<And>dv sigh fp n en obuf cs i y. loop dv sigh fp n en obuf cs i = Some y \<Longrightarrow> write_keeps tx dv fp n en obuf cs y"
    and body: "(if cs = [] \<and> obuf = [] then Some (en, None, int n)
      else (case sio_probe_rx dv sigh (e_sio en) (e_tty en) (e_task en) (e_dev en) of
              None \<Rightarrow> None
            | Some (sio, t, ts, d, busy) \<Rightarrow>
                if busy AND SIO_TX_BUSY \<noteq> 0 \<or> (TTY_OBLOCKED t \<and> obuf = []) then
                  (case sio_wait fp ts i of
                     Some (ts', e, r) \<Rightarrow> Some (\<lparr>e_sio = sio, e_tty = t, e_task = ts', e_dev = d\<rparr>, e, r)
                   | None \<Rightarrow> loop dv sigh fp n \<lparr>e_sio = sio, e_tty = t, e_task = ts, e_dev = d\<rparr> obuf cs i)
                else
                  (let (c, obuf', cs', i') =
                         (case obuf of c # ob \<Rightarrow> (c, ob, cs, i)
                          | [] \<Rightarrow> (let c = hd cs in
                              case t of
                                Some t0 \<Rightarrow> if TTY_DO_OPROC t c
                                  then (let ex = tty_oexpand t0 c in (hd ex, tl ex, tl cs, i + 1))
                                  else (c, [], tl cs, i + 1)
                              | None \<Rightarrow> (c, [], tl cs, i + 1)))
                   in loop dv sigh fp n
                        \<lparr>e_sio = sio, e_tty = t, e_task = ts,
                         e_dev = SB dv (scast c) SIO_REG_DATA (s_io_port sio) d\<rparr> obuf' cs' i'))) = Some y"
  { assume so: "sends_only dv (s_io_port (e_sio en)) tx"
    have "write_sent tx fp n (e_dev en) (obuf @ concat (map (tty_output (e_tty en)) cs)) y"
    proof (cases "cs = [] \<and> obuf = []")
      case True
      then show ?thesis using body by (auto simp: write_sent_def)
    next
      case ne: False
      then obtain sio t ts d b where p: "sio_probe_rx dv sigh (e_sio en) (e_tty en) (e_task en) (e_dev en) = Some (sio, t, ts, d, b)"
        using body by (auto split: option.splits)
      note k = sio_probe_rx_keeps [OF p so]
      then have to: "tty_output (e_tty en) = tty_output t" by (intro tty_output_oflag) simp
      let ?en = "\<lparr>e_sio = sio, e_tty = t, e_task = ts, e_dev = d\<rparr>"
      show ?thesis
      proof (cases "b AND SIO_TX_BUSY \<noteq> 0 \<or> (TTY_OBLOCKED t \<and> obuf = [])")
        case wait: True
        show ?thesis
        proof (cases "sio_wait fp ts i")
          case None
          then have "loop dv sigh fp n ?en obuf cs i = Some y" using body ne p wait by simp
          from ih [OF this] show ?thesis using so k to by (simp add: write_keeps_def write_sent_def)
        next
          case (Some w)
          obtain ts' e r where w: "w = (ts', e, r)" by (metis prod_cases3)
          then have "y = (\<lparr>e_sio = sio, e_tty = t, e_task = ts', e_dev = d\<rparr>, e, r)" using body ne p wait Some by simp
          then show ?thesis using k Some unfolding w write_sent_def
            by - (rule exI [of _ "[]"], auto simp: sio_wait_def split: if_splits)
        qed
      next
        case False
        obtain c obuf' cs' i' where nx: "(c, obuf', cs', i') =
           (case obuf of c # ob \<Rightarrow> (c, ob, cs, i)
            | [] \<Rightarrow> (let c = hd cs in
                case t of
                  Some t0 \<Rightarrow> if TTY_DO_OPROC t c
                    then (let ex = tty_oexpand t0 c in (hd ex, tl ex, tl cs, i + 1))
                    else (c, [], tl cs, i + 1)
                | None \<Rightarrow> (c, [], tl cs, i + 1)))"
          by (metis (no_types, lifting) surj_pair)
        let ?en = "\<lparr>e_sio = sio, e_tty = t, e_task = ts, e_dev = dv_store dv (s_io_port sio + SIO_REG_DATA) c d\<rparr>"
        have b: "b AND SIO_TX_BUSY = 0" "\<not> (TTY_OBLOCKED t \<and> obuf = [])" using False by simp_all
        have "loop dv sigh fp n ?en obuf' cs' i' = Some y"
          using body unfolding if_not_P [OF ne] p option.case prod.case b(1) if_not_P [OF b(2)]
          by (simp add: b(2) SB_scast flip: nx)
        from ih [OF this] have "write_sent tx fp n (e_dev ?en) (obuf' @ concat (map (tty_output t) cs')) y"
          using so k by (simp add: write_keeps_def)
        moreover have "tx (e_dev ?en) = tx (e_dev en) @ [c]" using so k by (simp add: sends_only_def)
        ultimately show ?thesis
          unfolding to using sio_write_next [OF nx] ne write_sent_next by (metis (no_types, lifting))
      qed
    qed
  }
  then show "write_keeps tx dv fp n en obuf cs y" by (simp add: write_keeps_def)
qed

lemma sio_input_oflag: "sio_input sigh sio t ts ds = (sio', t', ts') \<Longrightarrow> tty_oflag t' = tty_oflag t"
proof (induction ds arbitrary: sio t ts)
  case (Cons c ds)
  obtain sio1 t1 ts1 where "sio_rx_char sigh sio t ts (sint c) = (sio1, t1, ts1)" by (metis prod_cases3)
  moreover from this have "sio_input sigh sio1 t1 ts1 ds = (sio', t', ts')" using Cons.prems by simp
  ultimately show ?case using Cons.IH [of sio1 t1 ts1] sio_rx_char_oflag [of sigh sio t ts "sint c" sio1 t1 ts1] by metis
qed simp

lemma sio_write_loop_input:
  assumes u: "uart_ok dv (s_io_port (e_sio en)) rx tx busy" and fp: "ucast (f_flags fp) AND O_NONBLOCK = 0"
    and i: "sio_input sigh (e_sio en) (e_tty en) (e_task en) (rx (e_dev en)) = (sio', t', ts')"
    and ok: "\<not> TTY_OBLOCKED t'" "ts_sigf ts' AND 2 = 0" and ne: "cs \<noteq> []"
  shows "\<exists>en'. sio_write_loop dv sigh fp n en [] cs k = Some (en', None, int n) \<and> e_sio en' = sio' \<and>
    tx (e_dev en') = tx (e_dev en) @ concat (map (tty_output (e_tty en)) cs)"
proof -
  obtain d b where p: "sio_probe_rx dv sigh (e_sio en) (e_tty en) (e_task en) (e_dev en) = Some (sio', t', ts', d, b)"
    "s_io_port sio' = s_io_port (e_sio en)" "rx d = []" "tx d = tx (e_dev en)"
    using sio_probe_rx_input [OF u, of sigh "e_tty en" "e_task en" "e_dev en"] i by force
  have to: "tty_output t' = tty_output (e_tty en)" using sio_input_oflag [OF i] by (rule tty_output_oflag)
  note unfold = sio_write_loop.simps [of dv sigh fp n en "[]" cs k]
  let ?en = "\<lparr>e_sio = sio', e_tty = t', e_task = ts', e_dev = d\<rparr>"
  have en: "uart_ok dv (s_io_port (e_sio ?en)) rx tx busy" using u p(2) by simp
  show ?thesis
  proof (cases "b AND SIO_TX_BUSY = 0")
    case False
    then have "sio_write_loop dv sigh fp n en [] cs k = sio_write_loop dv sigh fp n ?en [] cs k"
      using unfold ne p(1) sio_wait_blocks [OF fp ok(2)] by simp
    then show ?thesis using sio_write_loop_sends [OF en fp, of sigh n "[]" cs k] ok p(3,4) to by auto
  next
    case True
    obtain c obuf' cs' k' where nx: "(c, obuf', cs', k') =
       (let c = hd cs in
            case t' of
              Some t0 \<Rightarrow> if TTY_DO_OPROC t' c
                then (let ex = tty_oexpand t0 c in (hd ex, tl ex, tl cs, k + 1))
                else (c, [], tl cs, k + 1)
            | None \<Rightarrow> (c, [], tl cs, k + 1))"
      by (metis (no_types, lifting) surj_pair)
    let ?en = "\<lparr>e_sio = sio', e_tty = t', e_task = ts', e_dev = dv_store dv (s_io_port sio' + SIO_REG_DATA) c d\<rparr>"
    have "sio_write_loop dv sigh fp n en [] cs k = sio_write_loop dv sigh fp n ?en obuf' cs' k'"
      using unfold ne p(1) True ok(1) by (simp add: SB_scast flip: nx)
    moreover have "rx (e_dev ?en) = []" "tx (e_dev ?en) = tx (e_dev en) @ [c]"
      using uart_send [OF u, of c d] p by simp_all
    moreover have "concat (map (tty_output t') cs) = c # obuf' @ concat (map (tty_output t') cs')"
      using sio_write_next [where obuf = "[]" and cs = cs and i = k and t = t' and c = c and obuf' = obuf' and cs' = cs' and i' = k'] nx ne
      by simp
    ultimately show ?thesis using sio_write_loop_sends [of dv ?en rx tx busy fp sigh n obuf' cs' k'] u p(2) fp ok to by auto
  qed
qed

text \<open>The characters that the port is to send for a buffer.\<close>

definition onlcr :: "tty option \<Rightarrow> u8 list \<Rightarrow> u8 list" where
  "onlcr t buf = concat (map (\<lambda>c. case t of
      Some t \<Rightarrow> if c = 0xa \<and> c_oflag (t_termios t) AND ONLCR \<noteq> 0 then [0xd, 0xa] else [c] | None \<Rightarrow> [c]) buf)"


lemma uart_dev_sends: "sends_only (uart_dev port) port (fst \<circ> snd)"
  by (auto simp: sends_only_def uart_dev_def)


end
