(* ===== verification/Alloc_Spec.thy ===== *)
theory Alloc_Spec
  imports Memory
begin

text \<open>
  The interface of the allocator that the rest of the library relies on: the
  outcome of a call that may end the program, and the laws of allocation and
  release in terms of the set of live blocks.
\<close>

datatype 'a exec = Ret 'a | Exit u32

text \<open>
  \<open>alloc\<close> and \<open>release\<close> are malloc and free on the allocator state, \<open>invar\<close> is the
  invariant of that state and \<open>live\<close> the set of addresses handed out and not
  released.  NULL is address 0.
\<close>

locale allocator =
  fixes alloc :: "'h \<Rightarrow> u32 \<Rightarrow> ('h \<times> addr) option"
    and release :: "'h \<Rightarrow> addr \<Rightarrow> 'h exec option"
    and invar :: "'h \<Rightarrow> bool"
    and live :: "'h \<Rightarrow> addr set"
  assumes alloc_returns: "invar h \<Longrightarrow> unat n \<le> 2 ^ 32 - 4 \<Longrightarrow> alloc h n \<noteq> None"
    and alloc_invar: "invar h \<Longrightarrow> unat n \<le> 2 ^ 32 - 4 \<Longrightarrow> alloc h n = Some (h', p) \<Longrightarrow> invar h'"
    and alloc_null: "invar h \<Longrightarrow> unat n \<le> 2 ^ 32 - 4 \<Longrightarrow> alloc h n = Some (h', 0) \<Longrightarrow> live h' = live h"
    and alloc_fresh: "invar h \<Longrightarrow> unat n \<le> 2 ^ 32 - 4 \<Longrightarrow> alloc h n = Some (h', p) \<Longrightarrow> p \<noteq> 0 \<Longrightarrow>
      p \<notin> live h \<and> live h' = insert p (live h)"
    and release_live: "invar h \<Longrightarrow> p \<in> live h \<Longrightarrow>
      \<exists>h'. release h p = Some (Ret h') \<and> invar h' \<and> live h' = live h - {p}"
    and release_null: "release h 0 = Some (Ret h)"
begin

text \<open>A run of allocations that stops at the first failure, and a run of releases.\<close>

fun alloc_run :: "'h \<Rightarrow> u32 list \<Rightarrow> ('h \<times> addr list) option" where
  "alloc_run h [] = Some (h, [])"
| "alloc_run h (n # ns) = (case alloc h n of None \<Rightarrow> None
     | Some (h', p) \<Rightarrow> if p = 0 then Some (h', [])
         else map_option (\<lambda>(h'', ps). (h'', p # ps)) (alloc_run h' ns))"

fun release_run :: "'h \<Rightarrow> addr list \<Rightarrow> 'h exec option" where
  "release_run h [] = Some (Ret h)"
| "release_run h (p # ps) = (case release h p of None \<Rightarrow> None
     | Some (Exit c) \<Rightarrow> Some (Exit c) | Some (Ret h') \<Rightarrow> release_run h' ps)"

lemma alloc_run_distinct:
  "invar h \<Longrightarrow> \<forall>n\<in>set ns. unat n \<le> 2 ^ 32 - 4 \<Longrightarrow>
   \<exists>h' ps. alloc_run h ns = Some (h', ps) \<and> invar h' \<and> distinct ps \<and> 0 \<notin> set ps \<and>
     set ps \<inter> live h = {} \<and> live h' = live h \<union> set ps"
proof (induction ns arbitrary: h)
  case (Cons n ns)
  have n: "unat n \<le> 2 ^ 32 - 4" using Cons.prems by simp
  obtain h1 p where a: "alloc h n = Some (h1, p)" using alloc_returns [OF Cons.prems(1) n] by auto
  have i: "invar h1" using alloc_invar [OF Cons.prems(1) n a] .
  show ?case
  proof (cases "p = 0")
    case True
    then show ?thesis using a i alloc_null [OF Cons.prems(1) n, of h1] by simp
  next
    case False
    have f: "p \<notin> live h" "live h1 = insert p (live h)"
      using alloc_fresh [OF Cons.prems(1) n a False] by auto
    obtain h2 ps where r: "alloc_run h1 ns = Some (h2, ps)" "invar h2" "distinct ps" "0 \<notin> set ps"
      "set ps \<inter> live h1 = {}" "live h2 = live h1 \<union> set ps"
      using Cons.IH [OF i] Cons.prems(2) by auto
    then show ?thesis using a False f by auto
  qed
qed auto

lemma release_run_live:
  "invar h \<Longrightarrow> distinct ps \<Longrightarrow> set ps \<subseteq> live h \<Longrightarrow>
   \<exists>h'. release_run h ps = Some (Ret h') \<and> invar h' \<and> live h' = live h - set ps"
proof (induction ps arbitrary: h)
  case (Cons p ps)
  obtain h1 where h1: "release h p = Some (Ret h1)" "invar h1" "live h1 = live h - {p}"
    using release_live [of h p] Cons.prems by auto
  have "\<exists>h'. release_run h1 ps = Some (Ret h') \<and> invar h' \<and> live h' = live h1 - set ps"
    using h1 Cons.prems by (intro Cons.IH) auto
  then show ?case using h1 by auto
qed auto

end

text \<open>The allocator together with the allocation of zeroed arrays.\<close>

locale zero_allocator = allocator alloc release invar live
  for alloc :: "'h \<Rightarrow> u32 \<Rightarrow> ('h \<times> addr) option"
    and release :: "'h \<Rightarrow> addr \<Rightarrow> 'h exec option"
    and invar :: "'h \<Rightarrow> bool"
    and live :: "'h \<Rightarrow> addr set" +
  fixes zalloc :: "'h \<Rightarrow> u32 \<Rightarrow> u32 \<Rightarrow> ('h \<times> addr) option"
  assumes zalloc_cases: "invar h \<Longrightarrow> unat (n * s) \<le> 2 ^ 32 - 4 \<Longrightarrow>
    \<exists>h' p. zalloc h n s = Some (h', p) \<and> invar h' \<and>
      (if p = 0 then live h' = live h else p \<notin> live h \<and> live h' = insert p (live h))"

text \<open>\<open>static h\<close> are the addresses outside the heap, of the program's own objects.\<close>

locale heap_allocator = zero_allocator alloc release invar live zalloc
  for alloc :: "'h \<Rightarrow> u32 \<Rightarrow> ('h \<times> addr) option"
    and release :: "'h \<Rightarrow> addr \<Rightarrow> 'h exec option"
    and invar :: "'h \<Rightarrow> bool"
    and live :: "'h \<Rightarrow> addr set"
    and zalloc :: "'h \<Rightarrow> u32 \<Rightarrow> u32 \<Rightarrow> ('h \<times> addr) option" +
  fixes static :: "'h \<Rightarrow> addr set"
  assumes live_static: "invar h \<Longrightarrow> live h \<inter> static h = {}"
    and alloc_static: "invar h \<Longrightarrow> unat n \<le> 2 ^ 32 - 4 \<Longrightarrow> alloc h n = Some (h', p) \<Longrightarrow> static h' = static h"
    and zalloc_static: "invar h \<Longrightarrow> unat (n * s) \<le> 2 ^ 32 - 4 \<Longrightarrow> zalloc h n s = Some (h', p) \<Longrightarrow> static h' = static h"
    and release_static: "invar h \<Longrightarrow> p \<in> live h \<Longrightarrow> release h p = Some (Ret h') \<Longrightarrow> static h' = static h"
    and null_not_live: "invar h \<Longrightarrow> 0 \<notin> live h"
begin

lemma alloc_cases:
  assumes "invar h" "unat n \<le> 2 ^ 32 - 4"
  obtains h' p where "alloc h n = Some (h', p)" "invar h'" "static h' = static h"
    "if p = 0 then live h' = live h else p \<notin> live h \<and> p \<notin> static h \<and> live h' = insert p (live h)"
proof -
  obtain h' p where a: "alloc h n = Some (h', p)" using alloc_returns [OF assms] by auto
  note i = alloc_invar [OF assms a] and s = alloc_static [OF assms a]
  show ?thesis
    using that [OF a i s] alloc_null [OF assms, of h'] alloc_fresh [OF assms a] live_static [OF i] a s
    by (cases "p = 0") auto
qed

lemma zalloc_outcome:
  assumes "invar h" "unat (n * s) \<le> 2 ^ 32 - 4"
  obtains h' p where "zalloc h n s = Some (h', p)" "invar h'" "static h' = static h"
    "if p = 0 then live h' = live h else p \<notin> live h \<and> p \<notin> static h \<and> live h' = insert p (live h)"
proof -
  obtain h' p where a: "zalloc h n s = Some (h', p)" "invar h'"
    "if p = 0 then live h' = live h else p \<notin> live h \<and> live h' = insert p (live h)"
    using zalloc_cases [OF assms] by metis
  then show ?thesis
    using that [OF a(1,2)] zalloc_static [OF assms a(1)] live_static [OF a(2)] by (auto split: if_splits)
qed

lemma release_outcome:
  assumes "invar h" "p = 0 \<or> p \<in> live h"
  obtains h' where "release h p = Some (Ret h')" "invar h'" "static h' = static h" "live h' = live h - {p}"
proof (cases "p = 0")
  case True
  then show ?thesis using that [of h] release_null [of h] null_not_live [OF assms(1)] assms(1) by simp
next
  case False
  then have p: "p \<in> live h" using assms(2) by simp
  obtain h' where r: "release h p = Some (Ret h')" "invar h'" "live h' = live h - {p}"
    using release_live [OF assms(1) p] by auto
  show ?thesis by (rule that [OF r(1,2) release_static [OF assms(1) p r(1)] r(3)])
qed

end

end
