(* ===== verification/Files.thy ===== *)
theory Files
  imports Sio Alloc_Spec
begin

text \<open>
  Descriptors and streams: sys/file.c, pipe() of sys/pipe.c, sio_open,
  sio_close and sio_getchar of dev/sio.c, the file operations of
  fs/ff_glue.c, gen/termios.c, gen/isatty.c and sys/signal.c.  The state holds
  every structure the code reaches through a pointer in a map from addresses;
  the allocator, the FAT file system under ff_glue.c and the serial devices
  are the operations of an environment.  A call through a null pointer, a
  loop without end and undefined behaviour give None.
\<close>

section \<open>State and environment\<close>

record ('h, 'd, 'f) kern =
  k_heap :: 'h
  k_dev :: 'd
  k_fs :: 'f
  k_files :: "addr \<Rightarrow> file_rec"
  k_pipes :: "addr \<Rightarrow> pipe_state"
  k_sios :: "addr \<Rightarrow> sio_state"
  k_ttys :: "addr \<Rightarrow> tty"
  k_streams :: "addr \<Rightarrow> int"
  k_task :: task
  k_table :: addr
  k_stdout :: addr
  k_errno :: errno
  k_mounts :: "addr list"
  k_mounted :: bool
  k_sio_files :: "addr list"
  k_sio_close :: bool

record ('h, 'd, 'f) sys_env =
  ev_malloc :: "'h \<Rightarrow> u32 \<Rightarrow> ('h \<times> addr) option"
  ev_calloc :: "'h \<Rightarrow> u32 \<Rightarrow> u32 \<Rightarrow> ('h \<times> addr) option"
  ev_free :: "'h \<Rightarrow> addr \<Rightarrow> 'h exec option"
  ev_dev :: "'d device"
  ev_sigh :: sighandler
  ev_fatfs_size :: u32
  ev_attach :: "nat \<Rightarrow> addr \<Rightarrow> 'h \<Rightarrow> 'f \<Rightarrow> 'h \<times> 'f"
  ev_f_mount :: "addr \<Rightarrow> nat \<Rightarrow> 'f \<Rightarrow> 'f"
  ev_f_open :: "addr \<Rightarrow> u8 list \<Rightarrow> u32 \<Rightarrow> 'f \<Rightarrow> 'f \<times> nat"
  ev_f_close :: "addr \<Rightarrow> 'f \<Rightarrow> 'f \<times> nat"
  ev_f_read :: "addr \<Rightarrow> nat \<Rightarrow> 'f \<Rightarrow> 'f \<times> nat \<times> u8 list"
  ev_f_write :: "addr \<Rightarrow> u8 list \<Rightarrow> 'f \<Rightarrow> 'f \<times> nat \<times> nat"
  ev_f_lseek :: "addr \<Rightarrow> int \<Rightarrow> 'f \<Rightarrow> 'f \<times> nat"
  ev_f_tell :: "addr \<Rightarrow> 'f \<Rightarrow> int"
  ev_f_size :: "addr \<Rightarrow> 'f \<Rightarrow> int"

text \<open>Results: a value and a state, the end of the program, or None.\<close>

type_synonym ('a, 'h, 'd, 'f) kres = "('a \<times> ('h, 'd, 'f) kern) exec option"

definition kbind :: "'a exec option \<Rightarrow> ('a \<Rightarrow> 'b exec option) \<Rightarrow> 'b exec option" where
  "kbind r f = (case r of Some (Ret x) \<Rightarrow> f x | Some (Exit c) \<Rightarrow> Some (Exit c) | None \<Rightarrow> None)"

abbreviation kret :: "'a \<Rightarrow> ('h, 'd, 'f) kern \<Rightarrow> ('a, 'h, 'd, 'f) kres" where
  "kret x k \<equiv> Some (Ret (x, k))"

definition k_calloc :: "('h, 'd, 'f) sys_env \<Rightarrow> u32 \<Rightarrow> u32 \<Rightarrow> ('h, 'd, 'f) kern \<Rightarrow> (addr, 'h, 'd, 'f) kres" where
  "k_calloc e n s k = map_option (\<lambda>(h, p). Ret (p, k\<lparr>k_heap := h\<rparr>)) (ev_calloc e (k_heap k) n s)"

definition k_malloc :: "('h, 'd, 'f) sys_env \<Rightarrow> u32 \<Rightarrow> ('h, 'd, 'f) kern \<Rightarrow> (addr, 'h, 'd, 'f) kres" where
  "k_malloc e n k = map_option (\<lambda>(h, p). Ret (p, k\<lparr>k_heap := h\<rparr>)) (ev_malloc e (k_heap k) n)"

definition k_free :: "('h, 'd, 'f) sys_env \<Rightarrow> addr \<Rightarrow> ('h, 'd, 'f) kern \<Rightarrow> (unit, 'h, 'd, 'f) kres" where
  "k_free e p k = map_option (\<lambda>r. case r of Ret h \<Rightarrow> Ret ((), k\<lparr>k_heap := h\<rparr>) | Exit c \<Rightarrow> Exit c) (ev_free e (k_heap k) p)"

definition set_errno :: "errno \<Rightarrow> ('h, 'd, 'f) kern \<Rightarrow> ('h, 'd, 'f) kern" where
  "set_errno n k = k\<lparr>k_errno := n\<rparr>"

definition upd_file :: "addr \<Rightarrow> (file_rec \<Rightarrow> file_rec) \<Rightarrow> ('h, 'd, 'f) kern \<Rightarrow> ('h, 'd, 'f) kern" where
  "upd_file p f k = k\<lparr>k_files := (k_files k)(p := f (k_files k p))\<rparr>"

definition set_fd :: "nat \<Rightarrow> addr \<Rightarrow> ('h, 'd, 'f) kern \<Rightarrow> ('h, 'd, 'f) kern" where
  "set_fd fd p k = k\<lparr>k_task := (k_task k)\<lparr>ts_files := (ts_files (k_task k))[fd := p]\<rparr>\<rparr>"

text \<open>The allocation of a zeroed file structure of 20 bytes.\<close>

definition calloc_file :: "('h, 'd, 'f) sys_env \<Rightarrow> ('h, 'd, 'f) kern \<Rightarrow> (addr, 'h, 'd, 'f) kres" where
  "calloc_file e k = kbind (k_calloc e 1 20 k) (\<lambda>(p, k).
     kret p (if p = 0 then k else upd_file p (\<lambda>_. zero_file) k))"

section \<open>Descriptors\<close>

function fd_scan :: "addr list \<Rightarrow> nat \<Rightarrow> nat \<Rightarrow> int" where
  "fd_scan files fd nfds = (if fd < nfds then (if files ! fd = 0 then int fd else fd_scan files (Suc fd) nfds) else - 1)"
  by pat_completeness auto
termination by (relation "measure (\<lambda>(_, fd, nfds). nfds - fd)") auto

declare fd_scan.simps [simp del]

definition fd_findfree :: "task \<Rightarrow> nat \<Rightarrow> int" where
  "fd_findfree ts lo = fd_scan (ts_files ts) lo (ts_maxfiles ts)"

text \<open>The end of \<^verbatim>\<open>fd_ref\<close>: the descriptor refers to the file.\<close>

definition fd_bind :: "nat \<Rightarrow> addr \<Rightarrow> ('h, 'd, 'f) kern \<Rightarrow> ('h, 'd, 'f) kern" where
  "fd_bind fd fp k = upd_file fp (\<lambda>f. f\<lparr>f_refc := f_refc f + 1\<rparr>) (set_fd fd fp k)"

definition fd_ref :: "('h, 'd, 'f) sys_env \<Rightarrow> addr \<Rightarrow> ('h, 'd, 'f) kern \<Rightarrow> (int, 'h, 'd, 'f) kres" where
  "fd_ref e fp k =
     (if fp = 0 then kret (- 1) k
      else
        (let fd = fd_findfree (k_task k) 0 in
         if fd < 0 then
           (let n = ts_maxfiles (k_task k); nfds = 2 * n in
            kbind (k_calloc e (of_nat nfds) 4 k) (\<lambda>(tab, k).
              if tab = 0 then kret (- 1) k
              else kbind (if n > 3 then k_free e (k_table k) k else kret () k) (\<lambda>(_, k).
                kret (int n) (fd_bind n fp
                  (k\<lparr>k_task := (k_task k)\<lparr>ts_files := ts_files (k_task k) @ replicate n 0, ts_maxfiles := nfds\<rparr>,
                     k_table := tab\<rparr>)))))
         else kret fd (fd_bind (nat fd) fp k)))"

definition fd2fp :: "int \<Rightarrow> ('h, 'd, 'f) kern \<Rightarrow> addr \<times> ('h, 'd, 'f) kern" where
  "fd2fp fd k =
     (if fd < 0 \<or> fd \<ge> int (ts_maxfiles (k_task k)) then (0, set_errno EBADF k)
      else (let fp = ts_files (k_task k) ! nat fd in if fp = 0 then (fp, set_errno EBADF k) else (fp, k)))"

section \<open>Files of the FAT file system\<close>

abbreviation "ENOENT \<equiv> 2 :: errno"
abbreviation "EIO \<equiv> 5 :: errno"
abbreviation "EACCES \<equiv> 13 :: errno"
abbreviation "EEXIST \<equiv> 17 :: errno"
abbreviation "EROFS \<equiv> 30 :: errno"
abbreviation "EOPNOTSUPP \<equiv> 45 :: errno"
abbreviation "ENAMETOOLONG \<equiv> 63 :: errno"
abbreviation "FA_CREATE_ALWAYS \<equiv> 0x08 :: u32"
abbreviation "FA_OPEN_ALWAYS \<equiv> 0x10 :: u32"
abbreviation "O_ACCMODE \<equiv> 0x0003 :: u32"

text \<open>The result codes are those of the enumeration FRESULT, 0 to 19.\<close>

definition ffres2errno :: "nat \<Rightarrow> ('h, 'd, 'f) kern \<Rightarrow> int \<times> ('h, 'd, 'f) kern" where
  "ffres2errno fferr k =
     (if fferr = 0 then (0, k)
      else (- 1, set_errno
        (if fferr = 1 \<or> fferr = 2 \<or> fferr = 3 then EIO
         else if fferr = 4 \<or> fferr = 5 then ENOENT
         else if fferr = 6 then ENAMETOOLONG
         else if fferr = 7 then EACCES
         else if fferr = 8 then EEXIST
         else if fferr = 10 then EROFS
         else if fferr = 19 then EINVAL
         else EOPNOTSUPP) k))"

text \<open>Volume \<open>i\<close> is attached to its device (for volume 3, to the memory at the given address) and
  mounted; FF_VOLUMES is 4.  Attaching a device allocates the string that names it, so it changes the heap too.  The flag is set only when every volume has its FATFS object.\<close>

function automount_loop :: "('h, 'd, 'f) sys_env \<Rightarrow> nat \<Rightarrow> ('h, 'd, 'f) kern \<Rightarrow> (unit, 'h, 'd, 'f) kres" where
  "automount_loop e i k =
     (if i < 4 then
        (if k_mounts k ! i \<noteq> 0 then automount_loop e (Suc i) k
         else
           kbind (k_malloc e (ev_fatfs_size e) k) (\<lambda>(p, k).
             let k = k\<lparr>k_mounts := (k_mounts k)[i := p]\<rparr> in
             if p = 0 then kret () k
             else
               kbind (if i = 3 then k_malloc e (of_nat (i * 1024 * 1024)) k else kret 0 k) (\<lambda>(base, k).
                 let (h, fs) = ev_attach e i base (k_heap k) (k_fs k)
                 in automount_loop e (Suc i) (k\<lparr>k_heap := h, k_fs := ev_f_mount e p i fs\<rparr>))))
      else kret () (k\<lparr>k_mounted := True\<rparr>))"
  by pat_completeness auto
termination by (relation "measure (\<lambda>(_, i, _). 4 - i)") auto

declare automount_loop.simps [simp del]

definition check_automount :: "('h, 'd, 'f) sys_env \<Rightarrow> ('h, 'd, 'f) kern \<Rightarrow> (unit, 'h, 'd, 'f) kres" where
  "check_automount e k = (if k_mounted k then kret () k else automount_loop e 0 k)"

definition ff_flags :: "u32 \<Rightarrow> u32" where
  "ff_flags flags =
     (let ff = (flags AND O_ACCMODE) + 1
      in if flags AND (O_CREAT OR O_TRUNC) \<noteq> 0 then ff OR FA_CREATE_ALWAYS
         else if flags AND O_CREAT \<noteq> 0 then ff OR FA_OPEN_ALWAYS else ff)"

text \<open>\<open>fil_size\<close> is the size of a FIL object.\<close>

definition ff_open :: "('h, 'd, 'f) sys_env \<Rightarrow> u32 \<Rightarrow> addr \<Rightarrow> u8 list \<Rightarrow> u32 \<Rightarrow> ('h, 'd, 'f) kern \<Rightarrow> (int, 'h, 'd, 'f) kres" where
  "ff_open e fil_size fp path flags k =
     kbind (check_automount e k) (\<lambda>(_, k).
      kbind (k_malloc e fil_size k) (\<lambda>(ffp, k).
        if ffp = 0 then kret (- 1) (set_errno ENOMEM k)
        else
          (let k = upd_file fp (\<lambda>f. f\<lparr>f_ops := Some FF_FILEOPS, f_priv := ffp\<rparr>) k;
               (fs, res) = ev_f_open e ffp path (ff_flags flags) (k_fs k)
           in Some (Ret (ffres2errno res (k\<lparr>k_fs := fs\<rparr>))))))"

definition ff_close :: "('h, 'd, 'f) sys_env \<Rightarrow> addr \<Rightarrow> ('h, 'd, 'f) kern \<Rightarrow> int \<times> ('h, 'd, 'f) kern" where
  "ff_close e fp k = (let (fs, res) = ev_f_close e (f_priv (k_files k fp)) (k_fs k) in ffres2errno res (k\<lparr>k_fs := fs\<rparr>))"

definition ff_read :: "('h, 'd, 'f) sys_env \<Rightarrow> addr \<Rightarrow> nat \<Rightarrow> ('h, 'd, 'f) kern \<Rightarrow> u8 list \<times> int \<times> ('h, 'd, 'f) kern" where
  "ff_read e fp n k =
     (let (fs, res, cs) = ev_f_read e (f_priv (k_files k fp)) n (k_fs k); k = k\<lparr>k_fs := fs\<rparr>
      in if res = 0 then (cs, int (length cs), k) else (let (r, k) = ffres2errno res k in (cs, r, k)))"

definition ff_write :: "('h, 'd, 'f) sys_env \<Rightarrow> addr \<Rightarrow> u8 list \<Rightarrow> ('h, 'd, 'f) kern \<Rightarrow> int \<times> ('h, 'd, 'f) kern" where
  "ff_write e fp buf k =
     (let (fs, res, wrote) = ev_f_write e (f_priv (k_files k fp)) buf (k_fs k); k = k\<lparr>k_fs := fs\<rparr>
      in if res \<noteq> 0 then ffres2errno res k else (int wrote, k))"

definition lseek :: "('h, 'd, 'f) sys_env \<Rightarrow> int \<Rightarrow> int \<Rightarrow> int \<Rightarrow> ('h, 'd, 'f) kern \<Rightarrow> int \<times> ('h, 'd, 'f) kern" where
  "lseek e d offset whence k =
     (if 0 \<le> d \<and> d \<le> 2 then (- 1, k)
      else if d < 3 \<or> d \<ge> int (ts_maxfiles (k_task k)) \<or> ts_files (k_task k) ! nat d = 0 then (- 1, set_errno EBADF k)
      else
        (let ffp = f_priv (k_files k (ts_files (k_task k) ! nat d)) in
         if whence = 0 \<or> whence = 1 \<or> whence = 2 then
           (let offset = (if whence = 0 then offset else if whence = 1 then ev_f_tell e ffp (k_fs k) + offset
                          else ev_f_size e ffp (k_fs k) + offset);
                (fs, res) = ev_f_lseek e ffp offset (k_fs k);
                k = k\<lparr>k_fs := fs\<rparr>
            in if res \<noteq> 0 then ffres2errno res k else (ev_f_tell e ffp (k_fs k), k))
         else (- 1, set_errno EINVAL k)))"

section \<open>The serial port as a file\<close>

definition sio_close :: "addr \<Rightarrow> ('h, 'd, 'f) kern \<Rightarrow> int \<times> ('h, 'd, 'f) kern" where
  "sio_close fp k =
     (let sio = k_sios k (f_priv (k_files k fp))
      in (0, k\<lparr>k_sio_files := (k_sio_files k)[unat ((s_io_port sio - IO_SIO_0) div 16) := 0]\<rparr>))"

text \<open>A sio_state occupies 44 bytes.\<close>

definition sio_open :: "('h, 'd, 'f) sys_env \<Rightarrow> int \<Rightarrow> ('h, 'd, 'f) kern \<Rightarrow> (int, 'h, 'd, 'f) kres" where
  "sio_open e unt k =
     (if unt < 0 \<or> unt \<ge> 4 \<or> k_sio_files k ! nat unt \<noteq> 0 then kret (- 1) (set_errno EINVAL k)
      else
        kbind (k_calloc e 1 44 k) (\<lambda>(sio, k).
          if sio = 0 then kret (- 1) (set_errno EINVAL k)
          else
            kbind (calloc_file e k) (\<lambda>(fp, k).
              kbind (fd_ref e fp k) (\<lambda>(fd, k).
                if fd < 0 then
                  kbind (k_free e fp k) (\<lambda>(_, k).
                    kbind (k_free e sio k) (\<lambda>(_, k). kret fd (set_errno ENFILE k)))
                else
                  kret fd (upd_file fp (\<lambda>f. f\<lparr>f_priv := sio, f_mflags := F_MF_FILE_MALLOCED OR F_MF_PRIV_MALLOCED,
                       f_ops := Some SIO_FILEOPS\<rparr>)
                     (k\<lparr>k_sio_files := (k_sio_files k)[nat unt := fp],
                        k_sios := (k_sios k)(sio := zero_sio (IO_SIO_0 + 16 * word_of_int unt)),
                        k_sio_close := True\<rparr>))))))"

section \<open>Opening and closing\<close>

definition pipe :: "('h, 'd, 'f) sys_env \<Rightarrow> ('h, 'd, 'f) kern \<Rightarrow> (int \<times> int \<times> int, 'h, 'd, 'f) kres" where
  "pipe e k =
     kbind (k_calloc e 1 (of_nat (PIPE_BUFSIZE + 4)) k) (\<lambda>(p, k).
       if p = 0 then kret (- 1, 0, 0) (set_errno ENOMEM k)
       else
         kbind (calloc_file e k) (\<lambda>(fp, k).
           kbind (fd_ref e fp k) (\<lambda>(fd0, k).
             kbind (fd_ref e fp k) (\<lambda>(fd1, k).
               if fd0 < 0 \<or> fd1 < 0 then
                 kbind (k_free e fp k) (\<lambda>(_, k).
                   kbind (k_free e p k) (\<lambda>(_, k). kret (- 1, fd0, fd1) (set_errno ENFILE k)))
               else
                 kret (0, fd0, fd1)
                   (upd_file fp (\<lambda>f. f\<lparr>f_priv := p, f_mflags := F_MF_FILE_MALLOCED OR F_MF_PRIV_MALLOCED,
                      f_ops := Some PIPE_FILEOPS\<rparr>) (k\<lparr>k_pipes := (k_pipes k)(p := zero_pipe)\<rparr>))))))"

definition k_open :: "('h, 'd, 'f) sys_env \<Rightarrow> u32 \<Rightarrow> u8 list \<Rightarrow> u32 \<Rightarrow> ('h, 'd, 'f) kern \<Rightarrow> (int, 'h, 'd, 'f) kres" where
  "k_open e fil_size path flags k =
     kbind (calloc_file e k) (\<lambda>(fp, k).
       kbind (fd_ref e fp k) (\<lambda>(fd, k).
         if fd < 0 then kbind (k_free e fp k) (\<lambda>(_, k). kret fd (set_errno ENFILE k))
         else
           kbind (ff_open e fil_size fp path flags
                    (upd_file fp (\<lambda>f. f\<lparr>f_mflags := F_MF_FILE_MALLOCED OR F_MF_PRIV_MALLOCED\<rparr>) k)) (\<lambda>(r, k).
             if r = 0 then kret fd k
             else
               (let k = set_fd (nat fd) 0 k in
                kbind (k_free e (f_priv (k_files k fp)) k) (\<lambda>(_, k).
                  kbind (k_free e fp k) (\<lambda>(_, k). kret (- 1) k))))))"

text \<open>The call through \<^verbatim>\<open>fo_close\<close>: the operations of a pipe have none, those of the serial
  port get theirs at the first sio_open.\<close>

definition fo_close :: "('h, 'd, 'f) sys_env \<Rightarrow> addr \<Rightarrow> ('h, 'd, 'f) kern \<Rightarrow> (int, 'h, 'd, 'f) kres" where
  "fo_close e fp k =
     (case f_ops (k_files k fp) of
        Some FF_FILEOPS \<Rightarrow> Some (Ret (ff_close e fp k))
      | Some SIO_FILEOPS \<Rightarrow> if k_sio_close k then Some (Ret (sio_close fp k)) else None
      | Some PIPE_FILEOPS \<Rightarrow> None
      | None \<Rightarrow> None)"

definition k_close :: "('h, 'd, 'f) sys_env \<Rightarrow> int \<Rightarrow> ('h, 'd, 'f) kern \<Rightarrow> (int, 'h, 'd, 'f) kres" where
  "k_close e fd k =
     (let (fp, k) = fd2fp fd k in
      if fp = 0 then kret (- 1) k
      else
        (let k = upd_file fp (\<lambda>f. f\<lparr>f_refc := f_refc f - 1\<rparr>) (set_fd (nat fd) 0 k) in
         if f_refc (k_files k fp) \<noteq> 0 then kret 0 k
         else if f_mflags (k_files k fp) AND F_MF_FILE_MALLOCED = 0 then kret 0 k
         else
           kbind (fo_close e fp k) (\<lambda>(res, k).
             kbind (k_free e (f_priv (k_files k fp)) k) (\<lambda>(_, k).
               kbind (k_free e fp k) (\<lambda>(_, k). kret res k)))))"

section \<open>Reading and writing\<close>

definition opt_errno :: "errno option \<Rightarrow> ('h, 'd, 'f) kern \<Rightarrow> ('h, 'd, 'f) kern" where
  "opt_errno e k = (case e of None \<Rightarrow> k | Some n \<Rightarrow> set_errno n k)"

definition tty_at :: "('h, 'd, 'f) kern \<Rightarrow> addr \<Rightarrow> tty option" where
  "tty_at k a = (if a = 0 then None else Some (k_ttys k a))"

definition sio_env_of :: "('h, 'd, 'f) kern \<Rightarrow> addr \<Rightarrow> 'd sio_env" where
  "sio_env_of k fp = \<lparr>e_sio = k_sios k (f_priv (k_files k fp)), e_tty = tty_at k (f_tty (k_files k fp)),
     e_task = k_task k, e_dev = k_dev k\<rparr>"

definition sio_env_back :: "'d sio_env \<Rightarrow> addr \<Rightarrow> ('h, 'd, 'f) kern \<Rightarrow> ('h, 'd, 'f) kern" where
  "sio_env_back en fp k = k\<lparr>k_sios := (k_sios k)(f_priv (k_files k fp) := e_sio en),
     k_ttys := (case e_tty en of None \<Rightarrow> k_ttys k | Some t \<Rightarrow> (k_ttys k)(f_tty (k_files k fp) := t)),
     k_task := e_task en, k_dev := e_dev en\<rparr>"

definition fo_read :: "('h, 'd, 'f) sys_env \<Rightarrow> addr \<Rightarrow> nat \<Rightarrow> ('h, 'd, 'f) kern \<Rightarrow> (u8 list \<times> io, 'h, 'd, 'f) kres" where
  "fo_read e fp n k =
     (case f_ops (k_files k fp) of
        Some FF_FILEOPS \<Rightarrow> (let (cs, r, k) = ff_read e fp n k in kret (cs, Value r) k)
      | Some PIPE_FILEOPS \<Rightarrow>
          (let (cs, ts, p, en, r) = pipe_read (k_files k fp) (k_task k) (k_pipes k (f_priv (k_files k fp))) n
           in kret (cs, r) (opt_errno en (k\<lparr>k_task := ts, k_pipes := (k_pipes k)(f_priv (k_files k fp) := p)\<rparr>)))
      | Some SIO_FILEOPS \<Rightarrow>
          (case sio_read (ev_dev e) (ev_sigh e) (k_files k fp) (sio_env_of k fp) n [] of
             None \<Rightarrow> None
           | Some (en, cs, er, r) \<Rightarrow> kret (cs, Value r) (opt_errno er (sio_env_back en fp k)))
      | None \<Rightarrow> None)"

definition fo_write :: "('h, 'd, 'f) sys_env \<Rightarrow> addr \<Rightarrow> u8 list \<Rightarrow> ('h, 'd, 'f) kern \<Rightarrow> (io, 'h, 'd, 'f) kres" where
  "fo_write e fp buf k =
     (case f_ops (k_files k fp) of
        Some FF_FILEOPS \<Rightarrow> (let (r, k) = ff_write e fp buf k in kret (Value r) k)
      | Some PIPE_FILEOPS \<Rightarrow>
          (let (ts, p, en, r) = pipe_write (k_files k fp) (k_task k) (k_pipes k (f_priv (k_files k fp))) buf
           in kret r (opt_errno en (k\<lparr>k_task := ts, k_pipes := (k_pipes k)(f_priv (k_files k fp) := p)\<rparr>)))
      | Some SIO_FILEOPS \<Rightarrow>
          (case sio_write (ev_dev e) (ev_sigh e) (k_files k fp) (sio_env_of k fp) buf of
             None \<Rightarrow> None
           | Some (en, er, r) \<Rightarrow> kret (Value r) (opt_errno er (sio_env_back en fp k)))
      | None \<Rightarrow> None)"

definition k_read :: "('h, 'd, 'f) sys_env \<Rightarrow> int \<Rightarrow> nat \<Rightarrow> ('h, 'd, 'f) kern \<Rightarrow> (u8 list \<times> io, 'h, 'd, 'f) kres" where
  "k_read e fd n k = (let (fp, k) = fd2fp fd k in if fp = 0 then kret ([], Value (- 1)) k else fo_read e fp n k)"

definition k_write :: "('h, 'd, 'f) sys_env \<Rightarrow> int \<Rightarrow> u8 list \<Rightarrow> ('h, 'd, 'f) kern \<Rightarrow> (io, 'h, 'd, 'f) kres" where
  "k_write e fd buf k = (let (fp, k) = fd2fp fd k in if fp = 0 then kret (Value (- 1)) k else fo_write e fp buf k)"

section \<open>Terminal attributes and signals\<close>

abbreviation "TCSASOFT \<equiv> 0x10 :: u32"
abbreviation "CIGNORE \<equiv> 0x0001 :: u16"
abbreviation "TIOCGETA \<equiv> 0x0101 :: u32"
abbreviation "TIOCSETA \<equiv> 0x0102 :: u32"
abbreviation "TIOCSETAF \<equiv> 0x0103 :: u32"
abbreviation "TIOCSETAW \<equiv> 0x0104 :: u32"

text \<open>The structure the argument points to goes in and comes out.\<close>

definition termios_ioctl :: "addr \<Rightarrow> u32 \<Rightarrow> termios \<Rightarrow> ('h, 'd, 'f) kern \<Rightarrow> int \<times> termios \<times> ('h, 'd, 'f) kern" where
  "termios_ioctl fp cmd tp k =
     (let t = f_tty (k_files k fp); c = cmd AND NOT TCSASOFT in
      if t = 0 then (- 1, tp, set_errno ENOTTY k)
      else if c = 0x0100 OR TIOCGETA then (0, t_termios (k_ttys k t), k)
      else if c = 0x0100 OR TIOCSETA \<or> c = 0x0100 OR TIOCSETAW \<or> c = 0x0100 OR TIOCSETAF
        then (0, tp, k\<lparr>k_ttys := (k_ttys k)(t := (k_ttys k t)\<lparr>t_termios := tp\<rparr>)\<rparr>)
      else (- 1, tp, set_errno EINVAL k))"

definition k_fcntl :: "int \<Rightarrow> u32 \<Rightarrow> termios \<Rightarrow> ('h, 'd, 'f) kern \<Rightarrow> int \<times> termios \<times> ('h, 'd, 'f) kern" where
  "k_fcntl fd cmd arg k =
     (let (fp, k) = fd2fp fd k in
      if fp = 0 then (- 1, arg, k)
      else if cmd AND 0xff00 = 0x0100 then termios_ioctl fp cmd arg k
      else (- 1, arg, set_errno EINVAL k))"

definition tcgetattr :: "int \<Rightarrow> termios \<Rightarrow> ('h, 'd, 'f) kern \<Rightarrow> int \<times> termios \<times> ('h, 'd, 'f) kern" where
  "tcgetattr fd t k = k_fcntl fd TIOCGETA t k"

definition tcsetattr :: "int \<Rightarrow> u32 \<Rightarrow> termios \<Rightarrow> ('h, 'd, 'f) kern \<Rightarrow> int \<times> ('h, 'd, 'f) kern" where
  "tcsetattr fd opt t k =
     (let t = (if opt AND TCSASOFT \<noteq> 0 then t\<lparr>c_cflag := c_cflag t OR CIGNORE\<rparr> else t);
          o' = opt AND NOT TCSASOFT
      in if o' = 0 then (let (r, _, k) = k_fcntl fd TIOCSETA t k in (r, k))
         else if o' = 1 then (let (r, _, k) = k_fcntl fd TIOCSETAW t k in (r, k))
         else if o' = 2 then (let (r, _, k) = k_fcntl fd TIOCSETAF t k in (r, k))
         else (- 1, set_errno EINVAL k))"

definition isatty :: "int \<Rightarrow> termios \<Rightarrow> ('h, 'd, 'f) kern \<Rightarrow> bool \<times> ('h, 'd, 'f) kern" where
  "isatty fd t k = (let (r, _, k) = tcgetattr fd t k in (r \<noteq> - 1, k))"

definition signal :: "u32 \<Rightarrow> addr \<Rightarrow> task \<Rightarrow> addr \<times> task" where
  "signal sig func ts = (ts_sigh ts, ts\<lparr>ts_sigh := func\<rparr>)"

definition siginterrupt :: "u32 \<Rightarrow> bool \<Rightarrow> task \<Rightarrow> int \<times> task" where
  "siginterrupt sig flag ts =
     (0, if flag then ts\<lparr>ts_sigf := ts_sigf ts OR 1\<rparr> else ts\<lparr>ts_sigf := ts_sigf ts AND NOT 1\<rparr>)"

definition k_fstat :: "int \<Rightarrow> int" where
  "k_fstat fd = - 1"

definition ftruncate :: "int \<Rightarrow> int \<Rightarrow> int" where
  "ftruncate fd len = - 1"

section \<open>Streams\<close>

text \<open>A stream is the address of a FILE, of which \<open>k_streams\<close> keeps the field \<^verbatim>\<open>_fd\<close>; a FILE
  has 4 bytes.  A call that spins in a driver spins.\<close>

definition fputc :: "('h, 'd, 'f) sys_env \<Rightarrow> u32 \<Rightarrow> addr \<Rightarrow> ('h, 'd, 'f) kern \<Rightarrow> (io, 'h, 'd, 'f) kres" where
  "fputc e c fp k = kbind (k_write e (k_streams k fp) [ucast c] k) (\<lambda>(r, k).
     kret (case r of Spins i \<Rightarrow> Spins i | Value v \<Rightarrow> if v \<noteq> 1 then Value (- 1) else Value (sint c)) k)"

definition putchar :: "('h, 'd, 'f) sys_env \<Rightarrow> u32 \<Rightarrow> ('h, 'd, 'f) kern \<Rightarrow> (io, 'h, 'd, 'f) kres" where
  "putchar e c k = fputc e c (k_stdout k) k"

definition fputs :: "('h, 'd, 'f) sys_env \<Rightarrow> u8 list \<Rightarrow> addr \<Rightarrow> ('h, 'd, 'f) kern \<Rightarrow> (io, 'h, 'd, 'f) kres" where
  "fputs e s fp k = k_write e (k_streams k fp) s k"

definition puts :: "('h, 'd, 'f) sys_env \<Rightarrow> u8 list \<Rightarrow> ('h, 'd, 'f) kern \<Rightarrow> (io, 'h, 'd, 'f) kres" where
  "puts e s k = kbind (fputs e s (k_stdout k) k) (\<lambda>(r, k).
     case r of Spins i \<Rightarrow> kret (Spins i) k
     | Value v \<Rightarrow> if v \<ge> 0 then fputc e 0xa (k_stdout k) k else kret (Value v) k)"

definition fgetc :: "('h, 'd, 'f) sys_env \<Rightarrow> addr \<Rightarrow> ('h, 'd, 'f) kern \<Rightarrow> (io, 'h, 'd, 'f) kres" where
  "fgetc e fp k = kbind (k_read e (k_streams k fp) 1 k) (\<lambda>((cs, r), k).
     kret (case r of Spins i \<Rightarrow> Spins i | Value v \<Rightarrow> if v \<noteq> 1 then Value (- 1) else Value (int (unat (hd cs)))) k)"

definition fdopen :: "('h, 'd, 'f) sys_env \<Rightarrow> int \<Rightarrow> ('h, 'd, 'f) kern \<Rightarrow> (addr, 'h, 'd, 'f) kres" where
  "fdopen e fd k = kbind (k_calloc e 1 4 k) (\<lambda>(fp, k).
     let (f, k) = fd2fp fd k in
     if f = 0 \<or> fp = 0 then
       kbind (k_free e fp (if fp = 0 then set_errno ENOMEM k else k)) (\<lambda>(_, k). kret 0 k)
     else kret fp (k\<lparr>k_streams := (k_streams k)(fp := fd)\<rparr>))"

fun fopen_flags :: "u8 list \<Rightarrow> u32 \<Rightarrow> u32 option" where
  "fopen_flags [] flags = Some flags"
| "fopen_flags (c # cs) flags =
     (if c = 0x72 then fopen_flags cs (flags OR 0)
      else if c = 0x77 then fopen_flags cs (flags OR O_WRONLY)
      else if c = 0x61 then fopen_flags cs (flags OR O_APPEND)
      else if c = 0x2b then fopen_flags cs (flags OR O_CREAT)
      else None)"

text \<open>\<^verbatim>\<open>fopen\<close> stores through the result of calloc without a test.\<close>

definition fopen :: "('h, 'd, 'f) sys_env \<Rightarrow> u32 \<Rightarrow> u8 list \<Rightarrow> u8 list \<Rightarrow> ('h, 'd, 'f) kern \<Rightarrow> (addr, 'h, 'd, 'f) kres" where
  "fopen e fil_size path mode k =
     (case fopen_flags mode 0 of
        None \<Rightarrow> kret 0 (set_errno EINVAL k)
      | Some flags \<Rightarrow>
          kbind (k_open e fil_size path flags k) (\<lambda>(fd, k).
            if fd < 0 then kret 0 k
            else kbind (k_calloc e 1 4 k) (\<lambda>(fp, k).
              if fp = 0 then None else kret fp (k\<lparr>k_streams := (k_streams k)(fp := fd)\<rparr>))))"

definition fclose :: "('h, 'd, 'f) sys_env \<Rightarrow> addr \<Rightarrow> ('h, 'd, 'f) kern \<Rightarrow> (int, 'h, 'd, 'f) kres" where
  "fclose e fp k = kbind (k_close e (k_streams k fp) k) (\<lambda>(res, k). kbind (k_free e fp k) (\<lambda>(_, k). kret res k))"

text \<open>The legacy \<^verbatim>\<open>sio_getchar\<close>; the result is sign-extended.\<close>

definition sio_getchar :: "('h, 'd, 'f) sys_env \<Rightarrow> bool \<Rightarrow> ('h, 'd, 'f) kern \<Rightarrow> (io, 'h, 'd, 'f) kres" where
  "sio_getchar e blocking k =
     (let fp = ts_files (k_task k) ! 0;
          k = (if \<not> blocking then upd_file fp (\<lambda>f. f\<lparr>f_flags := f_flags f OR ucast O_NONBLOCK\<rparr>) k else k)
      in kbind (k_read e 0 1 k) (\<lambda>((cs, r), k).
           let k = (if \<not> blocking then upd_file fp (\<lambda>f. f\<lparr>f_flags := f_flags f AND NOT (ucast O_NONBLOCK)\<rparr>) k else k)
           in kret (case r of Spins i \<Rightarrow> Spins i | Value v \<Rightarrow> if v < 0 then Value v else Value (sint (hd cs))) k))"

end
