(* ===== verification/Malloc.thy ===== *)
theory Malloc
  imports Strings Alloc_Spec
begin

text \<open>
  The allocator of src/lib/src/stdlib/malloc.c: a heap of words in which every
  chunk starts with a descriptor word holding its length in words, descriptor
  included, and in the top bit whether it is free.  A zero word ends the chain.
\<close>

section \<open>The code\<close>

record mstate =
  ms_heap :: addr
  ms_mem :: mem

definition GET_LEN :: "u32 \<Rightarrow> u32" where
  "GET_LEN len = len AND NOT 0x80000000"

definition IS_FREE :: "u32 \<Rightarrow> bool" where
  "IS_FREE len \<longleftrightarrow> len AND 0x80000000 \<noteq> 0"

definition SET_FREE :: "u32 \<Rightarrow> u32" where
  "SET_FREE len = len OR 0x80000000"

text \<open>The array accesses \<^verbatim>\<open>heap[i]\<close>.\<close>

definition heap_get :: "byte_order \<Rightarrow> mstate \<Rightarrow> u32 \<Rightarrow> u32" where
  "heap_get bo st i = load_word bo (ms_mem st) (ms_heap st + 4 * i)"

definition heap_set :: "byte_order \<Rightarrow> mstate \<Rightarrow> u32 \<Rightarrow> u32 \<Rightarrow> mstate" where
  "heap_set bo st i v = st\<lparr>ms_mem := store_word bo (ms_mem st) (ms_heap st + 4 * i) v\<rparr>"

text \<open>
  Sizing the memory.  The address decoder of the board is a parameter: it maps
  a word address to the cell that answers, or to None where no memory answers,
  in which case writes are lost and reads return what \<open>bus\<close> gives.
\<close>

record board =
  bd_dec :: "addr \<Rightarrow> addr option"
  bd_bus :: "addr \<Rightarrow> u32"

definition probe_get :: "byte_order \<Rightarrow> board \<Rightarrow> mem \<Rightarrow> addr \<Rightarrow> u32" where
  "probe_get bo bd m a = (case bd_dec bd a of Some p \<Rightarrow> load_word bo m p | None \<Rightarrow> bd_bus bd a)"

definition probe_set :: "byte_order \<Rightarrow> board \<Rightarrow> mem \<Rightarrow> addr \<Rightarrow> u32 \<Rightarrow> mem" where
  "probe_set bo bd m a v = (case bd_dec bd a of Some p \<Rightarrow> store_word bo m p v | None \<Rightarrow> m)"

partial_function (option) probe_loop ::
  "byte_order \<Rightarrow> board \<Rightarrow> addr \<Rightarrow> mem \<Rightarrow> u32 \<Rightarrow> int \<Rightarrow> (mem \<times> u32) option" where
  "probe_loop bo bd probe m off i =
     (if i < 2 \<and> off < 0x4000000 then
        (let a = probe + 4 * off;
             val = probe_get bo bd m a;
             m1 = probe_set bo bd m a (NOT val);
             done0 = (probe_get bo bd m1 a \<noteq> NOT val);
             m2 = probe_set bo bd m1 a val
         in if done0 then Some (m2, off)
            else (let m3 = probe_set bo bd m2 probe (of_int i)
                  in if probe_get bo bd m3 a \<noteq> of_int i
                     then probe_loop bo bd probe m3 (push_bit 1 off) (- 1)
                     else probe_loop bo bd probe m3 off (i + 1)))
      else Some (m, off))"

definition ram_top_of :: "addr \<Rightarrow> u32 \<Rightarrow> u32" where
  "ram_top_of heap off =
     (let ram_top = heap + 4 * off - (heap AND NOT (push_bit 31 1))
      in if ram_top <s 0 then ram_top - 0x2000 else ram_top - 0x1000)"

definition malloc_init :: "byte_order \<Rightarrow> board \<Rightarrow> addr \<Rightarrow> mstate \<Rightarrow> mstate option" where
  "malloc_init bo bd end0 st =
     (case probe_loop bo bd end0 (ms_mem st) 1024 (- 1) of
        None \<Rightarrow> None
      | Some (m, off) \<Rightarrow>
          (let st = \<lparr>ms_heap = end0, ms_mem = m\<rparr>;
               ram_top = ram_top_of end0 off
           in if end0 < ram_top
              then (let i = drop_bit 2 (ram_top - end0) - 1
                    in Some (heap_set bo (heap_set bo st 0 (SET_FREE i)) i 0))
              else Some (heap_set bo st 0 0)))"

partial_function (option) malloc_search ::
  "byte_order \<Rightarrow> mstate \<Rightarrow> u32 \<Rightarrow> u32 \<Rightarrow> u32 \<Rightarrow> u32 \<Rightarrow> (u32 \<times> u32) option" where
  "malloc_search bo st size0 i best_i best_len =
     (let w = heap_get bo st i in
      if 0 < GET_LEN w then
        (if IS_FREE w \<and> size0 \<le> GET_LEN w \<and> (best_i <s 0 \<or> GET_LEN w \<le> best_len)
         then (if GET_LEN w = size0 then Some (i, GET_LEN w)
               else malloc_search bo st size0 (i + GET_LEN w) i (GET_LEN w))
         else malloc_search bo st size0 (i + GET_LEN w) best_i best_len)
      else Some (best_i, best_len))"

definition malloc :: "byte_order \<Rightarrow> board \<Rightarrow> addr \<Rightarrow> mstate \<Rightarrow> u32 \<Rightarrow> (mstate \<times> addr) option" where
  "malloc bo bd end0 st size0 =
     (if size0 = 0 then Some (st, 0) else
      let size1 = drop_bit 2 (size0 + 3) + 1 in
      case (if ms_heap st = 0 then malloc_init bo bd end0 st else Some st) of
        None \<Rightarrow> None
      | Some st1 \<Rightarrow>
        (case malloc_search bo st1 size1 0 (- 1) 0 of
           None \<Rightarrow> None
         | Some (best_i, best_len) \<Rightarrow>
             if best_i <s 0 then Some (st1, 0)
             else (let st2 = heap_set bo st1 best_i size1;
                       st3 = (if size1 < best_len
                              then heap_set bo st2 (best_i + size1) (SET_FREE (best_len - size1))
                              else st2)
                   in Some (st3, ms_heap st1 + 4 * (best_i + 1)))))"

text \<open>\<^verbatim>\<open>free\<close> ends the program when the block is free already.\<close>

partial_function (option) free_merge :: "byte_order \<Rightarrow> mstate \<Rightarrow> u32 \<Rightarrow> u32 \<Rightarrow> u32 option" where
  "free_merge bo st i len =
     (let w = heap_get bo st (i + len) in
      if IS_FREE w then free_merge bo st i (len + GET_LEN w) else Some len)"

definition chunk_index :: "mstate \<Rightarrow> addr \<Rightarrow> u32" where
  "chunk_index st ptr = signed_drop_bit 2 (ptr - ms_heap st) - 1"

definition free :: "byte_order \<Rightarrow> mstate \<Rightarrow> addr \<Rightarrow> mstate exec option" where
  "free bo st ptr =
     (if ptr = 0 then Some (Ret st) else
      let i = chunk_index st ptr; len = heap_get bo st i in
      if IS_FREE len then Some (Exit 1)
      else map_option (\<lambda>len'. Ret (heap_set bo st i (SET_FREE len'))) (free_merge bo st i len))"

definition realloc ::
  "byte_order \<Rightarrow> board \<Rightarrow> addr \<Rightarrow> mstate \<Rightarrow> addr \<Rightarrow> u32 \<Rightarrow> (mstate \<times> addr) exec option" where
  "realloc bo bd end0 st oldptr size0 =
     (case malloc bo bd end0 st size0 of None \<Rightarrow> None
      | Some (st1, newptr) \<Rightarrow>
          (let st2 = (if oldptr \<noteq> 0 \<and> newptr \<noteq> 0 then
                 (let i = chunk_index st1 oldptr;
                      copysize = (GET_LEN (heap_get bo st1 i) - 1) * 4;
                      copysize = (if size0 < copysize then size0 else copysize)
                  in st1\<lparr>ms_mem := fst (memcpy_inline bo (ms_mem st1) newptr oldptr copysize)\<rparr>)
               else st1)
           in case free bo st2 oldptr of None \<Rightarrow> None
              | Some (Exit c) \<Rightarrow> Some (Exit c)
              | Some (Ret st3) \<Rightarrow> Some (Ret (st3, newptr))))"

definition calloc ::
  "byte_order \<Rightarrow> board \<Rightarrow> addr \<Rightarrow> mstate \<Rightarrow> u32 \<Rightarrow> u32 \<Rightarrow> (mstate \<times> addr) option" where
  "calloc bo bd end0 st number size0 =
     (let len = number * size0 in
      case malloc bo bd end0 st len of None \<Rightarrow> None
      | Some (st1, p) \<Rightarrow>
          Some (if p \<noteq> 0 then st1\<lparr>ms_mem := bzero (ms_mem st1) p len\<rparr> else st1, p))"

section \<open>The chain of blocks\<close>

datatype block = Used nat | Free nat

primrec blen :: "block \<Rightarrow> nat" where
  "blen (Used n) = n"
| "blen (Free n) = n"

primrec is_free :: "block \<Rightarrow> bool" where
  "is_free (Used n) = False"
| "is_free (Free n) = True"

primrec tag :: "block \<Rightarrow> u32" where
  "tag (Used n) = of_nat n"
| "tag (Free n) = SET_FREE (of_nat n)"

definition total :: "block list \<Rightarrow> nat" where
  "total bs = sum_list (map blen bs)"

lemma total_simps [simp]:
  "total [] = 0" "total (b # bs) = blen b + total bs" "total (xs @ ys) = total xs + total ys"
  by (simp_all add: total_def)

fun chain :: "(nat \<Rightarrow> u32) \<Rightarrow> nat \<Rightarrow> block list \<Rightarrow> bool" where
  "chain h i [] \<longleftrightarrow> h i = 0"
| "chain h i (b # bs) \<longleftrightarrow> 0 < blen b \<and> h i = tag b \<and> chain h (i + blen b) bs"

definition heap_word :: "byte_order \<Rightarrow> mstate \<Rightarrow> nat \<Rightarrow> u32" where
  "heap_word bo st i = heap_get bo st (of_nat i)"

text \<open>
  A well-formed heap with the blocks \<open>bs\<close>: it fits into the address space, and
  its length stays in the range that the sizing loop can find (256 MB).
\<close>

definition heap_ok :: "byte_order \<Rightarrow> mstate \<Rightarrow> block list \<Rightarrow> bool" where
  "heap_ok bo st bs \<longleftrightarrow> ms_heap st \<noteq> 0 \<and> total bs < 2 ^ 26 \<and>
     unat (ms_heap st) + 4 * (total bs + 1) \<le> 2 ^ 32 \<and> chain (heap_word bo st) 0 bs"

lemma bit_top_const: "bit (0x80000000 :: u32) k \<longleftrightarrow> k = 31"
proof -
  have "(0x80000000 :: u32) = 2 ^ 31" by simp
  then show ?thesis by (simp only: bit_exp_iff) auto
qed

lemma of_nat_no_top_bit: "n < 2 ^ 31 \<Longrightarrow> \<not> bit (of_nat n :: u32) 31"
proof -
  assume "n < 2 ^ 31"
  then have "\<not> bit n 31" by (simp only: bit_iff_odd div_less) simp
  then show ?thesis by (simp add: bit_of_nat_iff)
qed

lemma set_free_bits: "n < 2 ^ 31 \<Longrightarrow> GET_LEN (SET_FREE (of_nat n)) = of_nat n"
  "IS_FREE (SET_FREE x)" "n < 2 ^ 31 \<Longrightarrow> \<not> IS_FREE (of_nat n)" "n < 2 ^ 31 \<Longrightarrow> GET_LEN (of_nat n) = of_nat n"
proof -
  note b = bit_top_const and hi = of_nat_no_top_bit
  show "IS_FREE (SET_FREE x)"
    unfolding IS_FREE_def SET_FREE_def nonzero_iff_bit
    by (intro exI [of _ 31]) (simp add: bit_and_iff bit_or_iff b)
  show "n < 2 ^ 31 \<Longrightarrow> \<not> IS_FREE (of_nat n)"
    unfolding IS_FREE_def nonzero_iff_bit bit_and_iff b using hi by auto
  show "n < 2 ^ 31 \<Longrightarrow> GET_LEN (of_nat n) = of_nat n" "n < 2 ^ 31 \<Longrightarrow> GET_LEN (SET_FREE (of_nat n)) = of_nat n"
    unfolding GET_LEN_def SET_FREE_def using hi
    by - ((rule bit_word_eqI, simp only: bit_and_iff bit_or_iff bit_not_iff b, auto)[1])+
qed

lemma tag_bits:
  "blen b < 2 ^ 31 \<Longrightarrow> GET_LEN (tag b) = of_nat (blen b)"
  "blen b < 2 ^ 31 \<Longrightarrow> IS_FREE (tag b) \<longleftrightarrow> is_free b"
  by (cases b; simp add: set_free_bits)+


lemma four_of_nat: "4 * (of_nat i :: u32) = of_nat (4 * i)"
  by simp

lemma heap_word_set:
  assumes "4 * (i + 1) \<le> 2 ^ 32" "4 * (j + 1) \<le> 2 ^ 32"
  shows "heap_word bo (heap_set bo st (of_nat i) v) j = (if j = i then v else heap_word bo st j)"
proof (cases "j = i")
  case False
  then have "4 * j + 3 < 4 * i \<or> 4 * i + 3 < 4 * j" by linarith
  then show ?thesis using False assms load_store_word_off [of "4 * i" "4 * j"]
    by (simp add: heap_word_def heap_get_def heap_set_def four_of_nat del: of_nat_mult)
qed (simp add: heap_word_def heap_get_def heap_set_def)

lemma heap_set_simps [simp]: "ms_heap (heap_set bo st i v) = ms_heap st"
  by (simp add: heap_set_def)

text \<open>Chains depend only on the words they span; they split and join.\<close>

lemma chain_cong:
  "(\<And>k. i \<le> k \<Longrightarrow> k \<le> i + total bs \<Longrightarrow> h' k = h k) \<Longrightarrow> chain h' i bs = chain h i bs"
proof (induction bs arbitrary: i)
  case (Cons b bs)
  then show ?case by (auto simp: add.assoc)
qed simp

fun blocks_at :: "(nat \<Rightarrow> u32) \<Rightarrow> nat \<Rightarrow> block list \<Rightarrow> bool" where
  "blocks_at h i [] \<longleftrightarrow> True"
| "blocks_at h i (b # bs) \<longleftrightarrow> 0 < blen b \<and> h i = tag b \<and> blocks_at h (i + blen b) bs"

lemma chain_append: "chain h i (xs @ ys) \<longleftrightarrow> blocks_at h i xs \<and> chain h (i + total xs) ys"
  by (induction xs arbitrary: i) (auto simp: add.assoc)

lemma blocks_at_cong:
  "(\<And>k. i \<le> k \<Longrightarrow> k < i + total bs \<Longrightarrow> h' k = h k) \<Longrightarrow> blocks_at h' i bs = blocks_at h i bs"
proof (induction bs arbitrary: i)
  case (Cons b bs)
  show ?case
  proof (cases "0 < blen b")
    case True
    have "blocks_at h' (i + blen b) bs = blocks_at h (i + blen b) bs"
      by (rule Cons.IH) (use Cons.prems in auto)
    then show ?thesis using True Cons.prems [of i] by auto
  qed simp
qed simp

text \<open>The search loop computes the best fit over the list of blocks.\<close>

fun best_fit :: "nat \<Rightarrow> nat \<Rightarrow> block list \<Rightarrow> (nat \<times> nat) option \<Rightarrow> (nat \<times> nat) option" where
  "best_fit sz i [] best = best"
| "best_fit sz i (Used n # bs) best = best_fit sz (i + n) bs best"
| "best_fit sz i (Free n # bs) best =
     (if sz \<le> n \<and> (case best of None \<Rightarrow> True | Some (_, l) \<Rightarrow> n \<le> l)
      then (if n = sz then Some (i, n) else best_fit sz (i + n) bs (Some (i, n)))
      else best_fit sz (i + n) bs best)"

definition enc_best :: "u32 \<Rightarrow> (nat \<times> nat) option \<Rightarrow> u32 \<times> u32" where
  "enc_best l0 best = (case best of None \<Rightarrow> (- 1, l0) | Some (p, l) \<Rightarrow> (of_nat p, of_nat l))"

definition best_in :: "nat \<Rightarrow> (nat \<times> nat) option \<Rightarrow> bool" where
  "best_in N best \<longleftrightarrow> (case best of None \<Rightarrow> True | Some (p, l) \<Rightarrow> p < N \<and> l < N)"

lemma sless_of_nat: "n < 2 ^ 31 \<Longrightarrow> \<not> (of_nat n :: u32) <s 0" "(- 1 :: u32) <s 0"
proof -
  show "\<not> (of_nat n :: u32) <s 0" if "n < 2 ^ 31"
  proof -
    have "uint (of_nat n :: u32) = int (unat (of_nat n :: u32))" by simp
    also have "\<dots> = int n" using that by (simp add: unat_of_nat_lt)
    finally have "uint (of_nat n :: u32) = int n" .
    then show ?thesis using that unfolding sless_0_iff sint_neg_iff by simp
  qed
qed (simp add: word_sless_alt)

lemma of_nat_u32_le: "m < 2 ^ 32 \<Longrightarrow> n < 2 ^ 32 \<Longrightarrow> (of_nat m :: u32) \<le> of_nat n \<longleftrightarrow> m \<le> n"
  "m < 2 ^ 32 \<Longrightarrow> n < 2 ^ 32 \<Longrightarrow> (of_nat m :: u32) < of_nat n \<longleftrightarrow> m < n"
  by (simp_all add: word_le_nat_alt word_less_nat_alt unat_of_nat_lt)

lemma malloc_search_best_fit:
  assumes "chain (heap_word bo st) i bs" "i + total bs < 2 ^ 26" "best_in (2 ^ 26) best" "sz < 2 ^ 32"
  shows "malloc_search bo st (of_nat sz) (of_nat i) (fst (enc_best l0 best)) (snd (enc_best l0 best)) =
     Some (enc_best l0 (best_fit sz i bs best))"
  using assms(1-3)
proof (induction bs arbitrary: i best)
  case Nil
  then show ?case
    by (simp add: malloc_search.simps [of bo st _ "of_nat i"] heap_word_def GET_LEN_def)
next
  case (Cons b bs)
  define w where "w = heap_get bo st (of_nat i)"
  have lens: "0 < blen b" "blen b < 2 ^ 26" "i < 2 ^ 26" using Cons.prems by auto
  have wt: "w = tag b" using Cons.prems(1) by (simp add: w_def heap_word_def)
  have len: "GET_LEN w = of_nat (blen b)" "IS_FREE w \<longleftrightarrow> is_free b"
    using lens by (simp_all add: wt tag_bits)
  have pos: "0 < GET_LEN w" using lens len(1) of_nat_u32_le(2) [of 0 "blen b"] by simp
  have next0: "of_nat i + GET_LEN w = of_nat (i + blen b)" using len by simp
  have c: "chain (heap_word bo st) (i + blen b) bs" "i + blen b + total bs < 2 ^ 26"
    using Cons.prems by auto
  note IH = Cons.IH [OF c]
  have step: "malloc_search bo st (of_nat sz) (of_nat i) bi bl =
      (if IS_FREE w \<and> of_nat sz \<le> GET_LEN w \<and> (bi <s 0 \<or> GET_LEN w \<le> bl)
         then (if GET_LEN w = of_nat sz then Some (of_nat i, GET_LEN w)
               else malloc_search bo st (of_nat sz) (of_nat (i + blen b)) (of_nat i) (GET_LEN w))
         else malloc_search bo st (of_nat sz) (of_nat (i + blen b)) bi bl)" for bi bl
    by (simp only: malloc_search.simps [of bo st _ "of_nat i" bi bl] Let_def w_def [symmetric]
        pos next0 if_True)
  have sz: "of_nat sz \<le> GET_LEN w \<longleftrightarrow> sz \<le> blen b" "GET_LEN w = of_nat sz \<longleftrightarrow> blen b = sz"
    using assms(4) lens len by (simp_all add: of_nat_u32_le of_nat_eq_u32)
  have better: "(fst (enc_best l0 best) <s 0 \<or> GET_LEN w \<le> snd (enc_best l0 best)) \<longleftrightarrow>
      (case best of None \<Rightarrow> True | Some (_, l) \<Rightarrow> blen b \<le> l)"
    using Cons.prems(3) lens len(1)
    by (auto simp: enc_best_def best_in_def sless_of_nat of_nat_u32_le split: option.splits)
  have best': "best_in (2 ^ 26) (Some (i, blen b))" using lens by (simp add: best_in_def)
  have e: "of_nat i = fst (enc_best l0 (Some (i, blen b)))" "GET_LEN w = snd (enc_best l0 (Some (i, blen b)))"
    by (simp_all add: enc_best_def len)
  show ?case
  proof (cases b)
    case (Used n)
    then show ?thesis using IH [OF Cons.prems(3)] by (simp only: step len is_free.simps) simp
  next
    case (Free n)
    note IHb = IH [OF best', folded e]
    let ?better = "case best of None \<Rightarrow> True | Some (_, l) \<Rightarrow> n \<le> l"
    have better': "(fst (enc_best l0 best) <s 0 \<or> GET_LEN w \<le> snd (enc_best l0 best)) \<longleftrightarrow> ?better"
      by (rule better [unfolded Free blen.simps])
    consider "\<not> (sz \<le> n \<and> ?better)" | "sz \<le> n \<and> ?better" "n = sz" | "sz \<le> n \<and> ?better" "n \<noteq> sz"
      by blast
    then show ?thesis
    proof cases
      case 1
      then have "best_fit sz i (b # bs) best = best_fit sz (i + blen b) bs best" using Free by auto
      then show ?thesis using 1 Free IH [OF Cons.prems(3)] by (simp only: step len(2) better' sz is_free.simps blen.simps simp_thms if_False)
    next
      case 2
      then have "best_fit sz i (b # bs) best = Some (i, blen b)" using Free by (auto split: option.splits)
      moreover have "enc_best l0 (Some (i, blen b)) = (of_nat i, GET_LEN w)" by (simp add: enc_best_def len)
      ultimately show ?thesis using 2 Free
        by (simp only: step len(2) better' sz is_free.simps blen.simps simp_thms if_True)
    next
      case 3
      then have "best_fit sz i (b # bs) best = best_fit sz (i + blen b) bs (Some (i, blen b))"
        using Free by simp
      then show ?thesis using 3 Free IHb
        by (simp only: step len(2) better' sz is_free.simps blen.simps simp_thms if_True if_False)
    qed
  qed
qed


lemma best_fit_None_gen: "best_fit sz i bs best = None \<Longrightarrow> best = None \<and> (\<forall>n. Free n \<in> set bs \<longrightarrow> n < sz)"
  by (induction sz i bs best rule: best_fit.induct) (auto split: if_splits)

lemma best_fit_Some_gen:
  "best_fit sz i bs best = Some (p, l) \<Longrightarrow> 
     (best = Some (p, l) \<and> (\<forall>n. Free n \<in> set bs \<and> sz \<le> n \<longrightarrow> l < n)) \<or>
      (\<exists>xs ys. bs = xs @ Free l # ys \<and> p = i + total xs \<and> sz \<le> l \<and>
        (\<forall>n. Free n \<in> set bs \<and> sz \<le> n \<longrightarrow> l \<le> n) \<and>
        (case best of None \<Rightarrow> True | Some (_, l') \<Rightarrow> l \<le> l'))"
proof (induction sz i bs best rule: best_fit.induct)
  case (1 sz i best)
  then show ?case by auto
next
  case (2 sz i n bs best)
  then consider "best = Some (p, l)" "\<forall>n. Free n \<in> set bs \<and> sz \<le> n \<longrightarrow> l < n"
    | xs ys where "bs = xs @ Free l # ys" "p = i + n + total xs" "sz \<le> l"
        "\<forall>n. Free n \<in> set bs \<and> sz \<le> n \<longrightarrow> l \<le> n"
        "case best of None \<Rightarrow> True | Some (_, l') \<Rightarrow> l \<le> l'" by auto
  then show ?case
  proof cases
    case 2
    then show ?thesis by (intro disjI2 exI [of _ "Used n # xs"] exI [of _ ys]) auto
  qed auto
next
  case (3 sz i n bs best)
  let ?t = "sz \<le> n \<and> (case best of None \<Rightarrow> True | Some (_, l) \<Rightarrow> n \<le> l)"
  consider "?t" "n = sz" | "?t" "n \<noteq> sz" | "\<not> ?t" by blast
  then show ?case
  proof cases
    case 1
    then show ?thesis using "3.prems" by (intro disjI2 exI [of _ "[]"] exI [of _ bs]) auto
  next
    case 2
    then have "best_fit sz (i + n) bs (Some (i, n)) = Some (p, l)" using "3.prems" by simp
    from "3.IH"(1) [OF 2 this] consider "p = i" "l = n" "\<forall>n'. Free n' \<in> set bs \<and> sz \<le> n' \<longrightarrow> l < n'"
      | xs ys where "bs = xs @ Free l # ys" "p = i + n + total xs" "sz \<le> l"
        "\<forall>n. Free n \<in> set bs \<and> sz \<le> n \<longrightarrow> l \<le> n" "l \<le> n" by auto
    then show ?thesis
    proof cases
      case 1
      then show ?thesis using 2 by (intro disjI2 exI [of _ "[]"] exI [of _ bs]) (auto split: option.splits)
    next
      case b: 2
      then show ?thesis using 2 by (intro disjI2 exI [of _ "Free n # xs"] exI [of _ ys]) (auto split: option.splits)
    qed
  next
    case c: 3
    then have "best_fit sz (i + n) bs best = Some (p, l)" using "3.prems" by auto
    from "3.IH"(2) [OF c this] consider "best = Some (p, l)" "\<forall>n. Free n \<in> set bs \<and> sz \<le> n \<longrightarrow> l < n"
      | xs ys where "bs = xs @ Free l # ys" "p = i + n + total xs" "sz \<le> l"
        "\<forall>n. Free n \<in> set bs \<and> sz \<le> n \<longrightarrow> l \<le> n"
        "case best of None \<Rightarrow> True | Some (_, l') \<Rightarrow> l \<le> l'" by auto
    then show ?thesis
    proof cases
      case 1
      then show ?thesis using c by auto
    next
      case b: 2
      then show ?thesis using c by (intro disjI2 exI [of _ "Free n # xs"] exI [of _ ys]) (auto split: option.splits)
    qed
  qed
qed

lemma best_fit_None: "best_fit sz i bs None = None \<Longrightarrow> Free n \<in> set bs \<Longrightarrow> n < sz"
  using best_fit_None_gen by blast

lemma best_fit_Some:
  assumes "best_fit sz 0 bs None = Some (p, l)"
  obtains xs ys where "bs = xs @ Free l # ys" "p = total xs" "sz \<le> l"
    "\<And>n. Free n \<in> set bs \<Longrightarrow> sz \<le> n \<Longrightarrow> l \<le> n"
  using best_fit_Some_gen [OF assms] by auto

section \<open>malloc\<close>

text \<open>Words and bytes of a heap that an operation may change.\<close>

definition changed_words :: "byte_order \<Rightarrow> mstate \<Rightarrow> mstate \<Rightarrow> nat set \<Rightarrow> bool" where
  "changed_words bo st st' I \<longleftrightarrow> ms_heap st' = ms_heap st \<and>
     (\<forall>x. (\<forall>i\<in>I. 4 \<le> unat (x - (ms_heap st + of_nat (4 * i)))) \<longrightarrow> ms_mem st' x = ms_mem st x)"

lemma region_4: "unat (x - a) < 4 \<longleftrightarrow> x \<in> {a, a + 1, a + 2, a + 3 :: u32}"
  using region_Suc [of x a 3] region_Suc [of x "a + 1" 2] region_Suc [of x "a + 2" 1]
    region_Suc [of x "a + 3" 0] by (auto simp: add.assoc)

lemma changed_words_set: "i \<in> I \<Longrightarrow> changed_words bo st (heap_set bo st (of_nat i) v) I"
proof -
  assume i: "i \<in> I"
  have "store_word bo (ms_mem st) a v x = ms_mem st x" if "4 \<le> unat (x - a)" for x a
    using that region_4 [of x a] by (intro store_word_other) auto
  then show ?thesis using i by (auto simp: changed_words_def heap_set_def)
qed

lemma changed_words_trans:
  "changed_words bo st st1 I \<Longrightarrow> changed_words bo st1 st2 I \<Longrightarrow> changed_words bo st st2 I"
  by (auto simp: changed_words_def)

text \<open>Replacing a block by one or two blocks of the same total length.\<close>

lemma chain_split_block:
  assumes c: "chain h 0 (xs @ b # ys)" and h': "\<And>k. k \<le> total (xs @ b # ys) \<Longrightarrow>
      h' k = (if k = total xs then tag b1 else if k = total xs + blen b1 \<and> b2 \<noteq> [] then tag (hd b2) else h k)"
    and b: "blen b1 + total b2 = blen b" "length b2 \<le> 1" "0 < blen b1" "\<forall>x\<in>set b2. 0 < blen x"
  shows "chain h' 0 (xs @ b1 # b2 @ ys)"
proof -
  have c': "blocks_at h 0 xs" "0 < blen b" "chain h (total xs + blen b) ys"
    using c by (simp_all add: chain_append)
  have "blocks_at h' 0 xs" using c'(1) h' by (subst blocks_at_cong [of _ _ _ h]) auto
  moreover have "h' (total xs) = tag b1" using h' by simp
  moreover have "chain h' (total xs + blen b1) (b2 @ ys)"
  proof (cases b2)
    case Nil
    have "chain h' (total xs + blen b) ys"
      using c'(2,3) h' b Nil by (subst chain_cong [of _ _ _ h]) auto
    then show ?thesis using Nil b by simp
  next
    case (Cons y b2')
    then have y: "b2 = [y]" "0 < blen y" using b by (cases b2', auto)+
    then have "h' (total xs + blen b1) = tag y" using h' [of "total xs + blen b1"] b by auto
    moreover have "chain h' (total xs + blen b) ys"
      using c'(2,3) h' b y by (subst chain_cong [of _ _ _ h]) auto
    ultimately show ?thesis using y b(1) by (simp add: add.assoc)
  qed
  ultimately show ?thesis using b(3) by (simp add: chain_append)
qed


text \<open>The address malloc returns for the block that starts at word \<open>i\<close>.\<close>

definition chunk_ptr :: "mstate \<Rightarrow> nat \<Rightarrow> addr" where
  "chunk_ptr st i = ms_heap st + of_nat (4 * (i + 1))"

text \<open>The number of words malloc takes for a request of \<open>size0\<close> bytes.\<close>

definition chunk_words :: "u32 \<Rightarrow> nat" where
  "chunk_words size0 = (unat size0 + 3) div 4 + 1"

lemma chunk_words_word:
  assumes "unat size0 \<le> 2 ^ 32 - 4"
  shows "drop_bit 2 (size0 + 3) + 1 = of_nat (chunk_words size0)" "chunk_words size0 < 2 ^ 32"
proof -
  have "unat (size0 + 3) = unat size0 + 3"
    using assms by (simp add: unat_plus_if' unat_of_nat_lt)
  then have "unat (drop_bit 2 (size0 + 3)) = (unat size0 + 3) div 4"
    by (simp only: unat_drop_bit_div) simp
  then show "drop_bit 2 (size0 + 3) + 1 = of_nat (chunk_words size0)"
    by (metis chunk_words_def of_nat_Suc Suc_eq_plus1 word_unat_inverse add.commute)
  show "chunk_words size0 < 2 ^ 32" using unat_u32_lt [of size0] by (simp add: chunk_words_def)
qed

definition split_block :: "nat \<Rightarrow> nat \<Rightarrow> block list" where
  "split_block sz l = Used sz # (if sz < l then [Free (l - sz)] else [])"

lemma heap_okD:
  assumes "heap_ok bo st bs"
  shows "ms_heap st \<noteq> 0" "total bs < 2 ^ 26" "unat (ms_heap st) + 4 * (total bs + 1) \<le> 2 ^ 32"
    "chain (heap_word bo st) 0 bs"
  using assms by (simp_all add: heap_ok_def)

lemma heap_okI_words:
  assumes ok: "heap_ok bo st bs" and h: "ms_heap st' = ms_heap st" and t: "total bs' = total bs"
    and c: "chain (heap_word bo st') 0 bs'"
  shows "heap_ok bo st' bs'"
  using assms by (simp add: heap_ok_def)

lemma malloc_take_ok:
  assumes ok: "heap_ok bo st bs" and bs: "bs = xs @ Free l # ys" and sz: "0 < sz" "sz \<le> l"
    and p: "p = total xs"
    and st': "st' = (let st2 = heap_set bo st (of_nat p) (of_nat sz) in
      if sz < l then heap_set bo st2 (of_nat (p + sz)) (SET_FREE (of_nat (l - sz))) else st2)"
  shows "heap_ok bo st' (xs @ split_block sz l @ ys)" "changed_words bo st st' {p, p + sz}"
proof -
  note d = heap_okD [OF ok]
  have t: "total bs = p + l + total ys" using bs p by simp
  have w: "heap_word bo st' k = (if k = p then of_nat sz else if sz < l \<and> k = p + sz then SET_FREE (of_nat (l - sz))
      else heap_word bo st k)" if "k \<le> total bs" for k
    using that d(2) t sz unfolding st' Let_def by (auto simp: heap_word_set simp del: of_nat_add of_nat_diff)
  have "chain (heap_word bo st') 0 (xs @ Used sz # (if sz < l then [Free (l - sz)] else []) @ ys)"
    by (rule chain_split_block [OF d(4) [unfolded bs]]) (use w t sz bs p in auto)
  then show "heap_ok bo st' (xs @ split_block sz l @ ys)"
    using sz t bs p by (intro heap_okI_words [OF ok]) (auto simp: st' Let_def split_block_def)
  show "changed_words bo st st' {p, p + sz}"
  proof -
    define st2 where "st2 = heap_set bo st (of_nat p) (of_nat sz)"
    have 1: "changed_words bo st st2 {p, p + sz}" unfolding st2_def by (rule changed_words_set) simp
    have "changed_words bo st2 (heap_set bo st2 (of_nat (p + sz)) v) {p, p + sz}" for v
      by (rule changed_words_set) simp
    then have "changed_words bo st (heap_set bo st2 (of_nat (p + sz)) v) {p, p + sz}" for v
      using changed_words_trans [OF 1] by blast
    then show ?thesis using 1 unfolding st' Let_def st2_def [symmetric] by simp
  qed
qed

lemma malloc_heap:
  assumes ok: "heap_ok bo st bs" and size: "size0 \<noteq> 0" "unat size0 \<le> 2 ^ 32 - 4"
    and sz: "sz = chunk_words size0"
  shows "case best_fit sz 0 bs None of
      None \<Rightarrow> malloc bo bd e st size0 = Some (st, 0)
    | Some (p, l) \<Rightarrow> \<exists>st'. malloc bo bd e st size0 = Some (st', chunk_ptr st p) \<and>
        st' = (let st2 = heap_set bo st (of_nat p) (of_nat sz) in
          if sz < l then heap_set bo st2 (of_nat (p + sz)) (SET_FREE (of_nat (l - sz))) else st2)"
proof -
  note d = heap_okD [OF ok]
  note szw = chunk_words_word [OF size(2), folded sz]
  have "malloc_search bo st (of_nat sz) 0 (- 1) 0 = Some (enc_best 0 (best_fit sz 0 bs None))"
    using malloc_search_best_fit [of bo st 0 bs None sz 0] d szw(2)
    by (simp add: enc_best_def best_in_def)
  then have m: "malloc bo bd e st size0 = (case enc_best 0 (best_fit sz 0 bs None) of (best_i, best_len) \<Rightarrow>
      if best_i <s 0 then Some (st, 0)
      else (let st2 = heap_set bo st best_i (of_nat sz);
                st3 = (if of_nat sz < best_len
                       then heap_set bo st2 (best_i + of_nat sz) (SET_FREE (best_len - of_nat sz)) else st2)
            in Some (st3, ms_heap st + 4 * (best_i + 1))))"
    using size(1) d(1) szw(1) by (simp add: malloc_def Let_def)
  show ?thesis
  proof (cases "best_fit sz 0 bs None")
    case None
    then show ?thesis using m by (simp add: enc_best_def sless_of_nat)
  next
    case (Some pl)
    obtain p l where pl: "pl = (p, l)" by (cases pl)
    have "best_fit sz 0 bs None = Some (p, l)" using Some pl by simp
    then obtain xs ys where b: "bs = xs @ Free l # ys" "p = total xs" "sz \<le> l"
      by (rule best_fit_Some)
    then have small: "p < 2 ^ 26" "l < 2 ^ 26" "sz < 2 ^ 26" using d(2) by auto
    then have cmp: "(of_nat sz :: u32) < of_nat l \<longleftrightarrow> sz < l" "\<not> (of_nat p :: u32) <s 0"
      by (simp_all add: of_nat_u32_le sless_of_nat)
    show ?thesis using m Some pl b(3)
      by (simp add: enc_best_def cmp Let_def of_nat_diff chunk_ptr_def)
  qed
qed


lemma malloc_cases:
  assumes ok: "heap_ok bo st bs" and size: "size0 \<noteq> 0" "unat size0 \<le> 2 ^ 32 - 4"
    and sz: "sz = chunk_words size0"
  shows "((\<forall>n. Free n \<in> set bs \<longrightarrow> n < sz) \<longrightarrow> malloc bo bd e st size0 = Some (st, 0)) \<and>
    ((\<exists>n. Free n \<in> set bs \<and> sz \<le> n) \<longrightarrow>
      (\<exists>xs l ys st'. bs = xs @ Free l # ys \<and> sz \<le> l \<and>
         (\<forall>n. Free n \<in> set bs \<and> sz \<le> n \<longrightarrow> l \<le> n) \<and>
         malloc bo bd e st size0 = Some (st', chunk_ptr st (total xs)) \<and>
         heap_ok bo st' (xs @ split_block sz l @ ys) \<and>
         changed_words bo st st' {total xs, total xs + sz}))"
proof (cases "best_fit sz 0 bs None")
  case None
  then show ?thesis using malloc_heap [OF ok size sz, of bd e] best_fit_None [OF None] by fastforce
next
  case (Some pl)
  obtain p l where "pl = (p, l)" by (cases pl)
  with Some have pl: "best_fit sz 0 bs None = Some (p, l)" by simp
  then obtain xs ys where b: "bs = xs @ Free l # ys" "p = total xs" "sz \<le> l"
    "\<And>n. Free n \<in> set bs \<Longrightarrow> sz \<le> n \<Longrightarrow> l \<le> n"
    by (rule best_fit_Some) blast
  have pos: "0 < sz" by (simp add: sz chunk_words_def)
  from malloc_heap [OF ok size sz, of bd e] pl
  obtain st' where m: "malloc bo bd e st size0 = Some (st', chunk_ptr st p)"
    "st' = (let st2 = heap_set bo st (of_nat p) (of_nat sz) in
      if sz < l then heap_set bo st2 (of_nat (p + sz)) (SET_FREE (of_nat (l - sz))) else st2)"
    by auto
  note t = malloc_take_ok [OF ok b(1) pos b(3) b(2) m(2)]
  have "\<exists>n. Free n \<in> set bs \<and> sz \<le> n" using b by auto
  moreover have "\<not> (\<forall>n. Free n \<in> set bs \<longrightarrow> n < sz)" using b by auto
  moreover have "\<forall>n. Free n \<in> set bs \<and> sz \<le> n \<longrightarrow> l \<le> n" using b(4) by blast
  ultimately show ?thesis using b(1,3) m(1) t unfolding b(2) by blast
qed

section \<open>free\<close>

lemma is_free_0: "\<not> IS_FREE 0"
  by (simp add: IS_FREE_def)

lemma free_merge_total:
  assumes "chain (heap_word bo st) i (fs @ ys)" "\<forall>b\<in>set fs. is_free b"
    "ys = [] \<or> \<not> is_free (hd ys)" "i + total (fs @ ys) < 2 ^ 26" "len \<le> i"
  shows "free_merge bo st (of_nat (i - len)) (of_nat len) = Some (of_nat (len + total fs))"
  using assms
proof (induction fs arbitrary: i len)
  case Nil
  have "heap_get bo st (of_nat (i - len) + of_nat len) = heap_word bo st i"
    using Nil(5) by (simp add: heap_word_def of_nat_diff)
  moreover have "\<not> IS_FREE (heap_word bo st i)"
    using Nil is_free_0 by (cases ys) (auto simp: tag_bits)
  ultimately show ?case by (simp add: free_merge.simps [of bo st _ "of_nat len"] Let_def)
next
  case (Cons b fs)
  have w: "heap_get bo st (of_nat (i - len) + of_nat len) = tag b"
    using Cons.prems by (simp add: heap_word_def of_nat_diff)
  have b: "is_free b" "blen b < 2 ^ 31" using Cons.prems by auto
  have "free_merge bo st (of_nat (i + blen b - (len + blen b))) (of_nat (len + blen b)) =
      Some (of_nat (len + blen b + total fs))"
    using Cons.prems by (intro Cons.IH) auto
  then show ?case using w b
    by (simp add: free_merge.simps [of bo st _ "of_nat len"] Let_def tag_bits add.assoc)
qed

lemma chunk_index_ptr:
  assumes "i < 2 ^ 26"
  shows "chunk_index st (chunk_ptr st i) = of_nat i"
proof -
  have s: "sint (of_nat n :: u32) = int n" if "n < 2 ^ 31" for n
    using that sint_word_of_int_32 [of "int n"] by simp
  have "sint (signed_drop_bit 2 (of_nat (4 * (i + 1)) :: u32)) = drop_bit 2 (int (4 * (i + 1)))"
    using assms by (simp only: sint_signed_drop_bit_eq) (subst s; simp)
  also have "\<dots> = int (i + 1)" by (simp add: drop_bit_eq_div)
  also have "\<dots> = sint (of_nat (i + 1) :: u32)" using assms by (subst s) simp_all
  finally have "signed_drop_bit 2 (of_nat (4 * (i + 1)) :: u32) = of_nat (i + 1)"
    by (rule signed_word_eqI)
  then show ?thesis by (simp add: chunk_index_def chunk_ptr_def del: of_nat_mult)
qed

lemma chunk_ptr_nonzero:
  assumes "ms_heap st \<noteq> 0" "unat (ms_heap st) + 4 * (i + 1) < 2 ^ 32"
  shows "chunk_ptr st i \<noteq> 0"
proof -
  have "unat (of_nat (4 * (i + 1)) :: u32) = 4 * (i + 1)" using assms by (intro unat_of_nat_lt) simp
  then have "unat (chunk_ptr st i) = unat (ms_heap st) + 4 * (i + 1)"
    using assms(2) by (simp add: chunk_ptr_def unat_plus_if' del: of_nat_mult)
  then show ?thesis by auto
qed

lemma chain_merge:
  assumes c: "chain h 0 (xs @ b # fs @ ys)" and n: "blen b' = blen b + total fs"
    and h': "\<And>k. k \<le> total (xs @ b # fs @ ys) \<Longrightarrow> h' k = (if k = total xs then tag b' else h k)"
  shows "chain h' 0 (xs @ b' # ys)"
proof -
  have c': "blocks_at h 0 xs" "0 < blen b" "chain h (total xs + blen b') ys"
    using c n by (simp_all add: chain_append add.assoc)
  have "blocks_at h' 0 xs" using c'(1) h' by (subst blocks_at_cong [of _ _ _ h]) auto
  moreover have "chain h' (total xs + blen b') ys"
    using c'(2,3) h' n by (subst chain_cong [of _ _ _ h]) auto
  ultimately show ?thesis using c'(2) h' n by (simp add: chain_append)
qed

lemma free_merges:
  assumes ok: "heap_ok bo st (xs @ Used n # fs @ ys)" and fs: "\<forall>b\<in>set fs. is_free b"
    and ys: "ys = [] \<or> \<not> is_free (hd ys)"
  shows "\<exists>st'. free bo st (chunk_ptr st (total xs)) = Some (Ret st') \<and>
    heap_ok bo st' (xs @ Free (n + total fs) # ys) \<and> changed_words bo st st' {total xs}"
proof -
  note d = heap_okD [OF ok]
  let ?i = "total xs" and ?p = "chunk_ptr st (total xs)"
  define v where "v = SET_FREE (of_nat (n + total fs))"
  have i: "?i < 2 ^ 26" "?i + n + total fs + total ys < 2 ^ 26" using d(2) by auto
  have c: "0 < n" "heap_word bo st ?i = of_nat n" "chain (heap_word bo st) (?i + n) (fs @ ys)"
    "blocks_at (heap_word bo st) 0 xs"
    using d(4) by (simp_all add: chain_append)
  have p0: "?p \<noteq> 0" using d(1,3) c(1) by (intro chunk_ptr_nonzero) auto
  have merge: "free_merge bo st (of_nat ?i) (of_nat n) = Some (of_nat (n + total fs))"
    using free_merge_total [OF c(3) fs ys, of n] i by simp
  have call: "free bo st ?p = Some (Ret (heap_set bo st (of_nat ?i) v))"
    using p0 merge c(2) i set_free_bits(3) [of n]
    by (simp add: free_def chunk_index_ptr Let_def heap_word_def v_def del: of_nat_mult of_nat_add)
  have w: "heap_word bo (heap_set bo st (of_nat ?i) v) k = (if k = ?i then v else heap_word bo st k)"
    if "k \<le> ?i + n + total fs + total ys" for k
    using that i by (intro heap_word_set) auto
  have "chain (heap_word bo (heap_set bo st (of_nat ?i) v)) 0 (xs @ Free (n + total fs) # ys)"
    by (rule chain_merge [OF d(4)]) (use w in \<open>auto simp: v_def\<close>)
  then have "heap_ok bo (heap_set bo st (of_nat ?i) v) (xs @ Free (n + total fs) # ys)"
    by (intro heap_okI_words [OF ok]) auto
  then show ?thesis using call changed_words_set [of ?i "{?i}" bo st v] by blast
qed


lemma free_of_free:
  assumes ok: "heap_ok bo st (xs @ Free n # ys)"
  shows "free bo st (chunk_ptr st (total xs)) = Some (Exit 1)"
proof -
  note d = heap_okD [OF ok]
  have c: "0 < n" "heap_word bo st (total xs) = SET_FREE (of_nat n)"
    using d(4) by (simp_all add: chain_append)
  have "chunk_ptr st (total xs) \<noteq> 0" using d(1,3) c(1) by (intro chunk_ptr_nonzero) auto
  moreover have "total xs < 2 ^ 26" using d(2) by simp
  ultimately show ?thesis using c(2) set_free_bits(2)
    by (simp add: free_def chunk_index_ptr Let_def heap_word_def)
qed

section \<open>Use of the payload\<close>

text \<open>The payload of the block of \<open>n\<close> words at word \<open>i\<close>.\<close>

definition payload :: "mstate \<Rightarrow> nat \<Rightarrow> nat \<Rightarrow> addr set" where
  "payload st i n = region (chunk_ptr st i) (4 * (n - 1))"

fun headers :: "nat \<Rightarrow> block list \<Rightarrow> nat set" where
  "headers i [] = {i}"
| "headers i (b # bs) = insert i (headers (i + blen b) bs)"

lemma chain_cong_headers:
  "(\<And>k. k \<in> headers i bs \<Longrightarrow> h' k = h k) \<Longrightarrow> chain h' i bs = chain h i bs"
  by (induction bs arbitrary: i) auto

lemma headers_bounds: "k \<in> headers i bs \<Longrightarrow> i \<le> k \<and> k \<le> i + total bs"
  by (induction bs arbitrary: i) force+

lemma headers_append: "headers i (xs @ ys) \<subseteq> headers i xs \<union> headers (i + total xs) ys"
proof (induction xs arbitrary: i)
  case (Cons x xs)
  show ?case using Cons [of "i + blen x"] by (auto simp: add.assoc)
qed auto

lemma headers_outside_block:
  assumes "k \<in> headers 0 (xs @ b # ys)"
  shows "k \<le> total xs \<or> total xs + blen b \<le> k"
proof -
  have "k \<in> headers 0 xs \<or> k = total xs \<or> k \<in> headers (total xs + blen b) ys"
    using assms headers_append [of 0 xs "b # ys"] by auto
  then show ?thesis using headers_bounds [of k 0 xs] headers_bounds [of k "total xs + blen b" ys] by auto
qed

lemma header_not_in_payload:
  assumes "k \<le> i \<or> i + n \<le> k" "i + n \<le> 2 ^ 26" "k \<le> 2 ^ 26" "c \<le> 3" "0 < n"
  shows "ms_heap st + of_nat (4 * k + c) \<notin> payload st i n"
proof -
  have u: "unat (of_nat x :: u32) = x" if "x < 2 ^ 32" for x using that by (simp add: unat_of_nat_lt)
  have "unat (of_nat (4 * k + c) - of_nat (4 * (i + 1)) :: u32) =
      (if 4 * (i + 1) \<le> 4 * k + c then 4 * k + c - 4 * (i + 1) else 4 * k + c + 2 ^ 32 - 4 * (i + 1))"
    using assms u [of "4 * k + c"] u [of "4 * (i + 1)"]
    by (simp only: unat_sub_if') simp
  then have "4 * (n - 1) \<le> unat (of_nat (4 * k + c) - of_nat (4 * (i + 1)) :: u32)"
    using assms by auto
  then show ?thesis by (simp add: payload_def chunk_ptr_def del: of_nat_mult of_nat_add)
qed

lemma heap_ok_payload_write:
  assumes ok: "heap_ok bo st (xs @ b # ys)" and st': "ms_heap st' = ms_heap st"
    and m: "\<And>x. x \<notin> payload st (total xs) (blen b) \<Longrightarrow> ms_mem st' x = ms_mem st x"
  shows "heap_ok bo st' (xs @ b # ys)"
proof (rule heap_okI_words [OF ok st' refl])
  note d = heap_okD [OF ok]
  have n: "0 < blen b" using d(4) by (simp add: chain_append)
  have "heap_word bo st' k = heap_word bo st k" if "k \<in> headers 0 (xs @ b # ys)" for k
  proof -
    have k: "k \<le> total xs \<or> total xs + blen b \<le> k" "k \<le> total (xs @ b # ys)"
      using headers_outside_block [OF that] headers_bounds [OF that] by auto
    have "ms_mem st' (ms_heap st + of_nat (4 * k + c)) = ms_mem st (ms_heap st + of_nat (4 * k + c))"
      if "c \<le> 3" for c
      using header_not_in_payload [OF k(1), of c st] k(2) d(2) n that m by simp
    moreover have "ms_heap st + 4 * of_nat k + of_nat c = ms_heap st + of_nat (4 * k + c)" for c
      by (simp add: add.assoc)
    ultimately have eq: "ms_mem st' (ms_heap st + 4 * of_nat k + of_nat c) =
        ms_mem st (ms_heap st + 4 * of_nat k + of_nat c)" if "c \<le> 3" for c
      using that by (simp only:)
    show ?thesis
      unfolding heap_word_def heap_get_def st'
      by (rule load_word_cong) (use eq [of 0] eq [of 1] eq [of 2] eq [of 3] in simp_all)
  qed
  then have "chain (heap_word bo st') 0 (xs @ b # ys) = chain (heap_word bo st) 0 (xs @ b # ys)"
    by (rule chain_cong_headers)
  then show "chain (heap_word bo st') 0 (xs @ b # ys)" using d(4) by simp
qed

section \<open>Reachable heaps\<close>

text \<open>
  What a program may do with the heap: allocate, free an allocated block, and
  write into the payload of an allocated block.
\<close>

inductive heap_step :: "byte_order \<Rightarrow> board \<Rightarrow> addr \<Rightarrow> mstate \<Rightarrow> mstate \<Rightarrow> bool"
  for bo bd e where
  step_malloc: "malloc bo bd e st size0 = Some (st', p) \<Longrightarrow> unat size0 \<le> 2 ^ 32 - 4 \<Longrightarrow>
    heap_step bo bd e st st'"
| step_free: "heap_ok bo st (xs @ Used n # ys) \<Longrightarrow> free bo st (chunk_ptr st (total xs)) = Some (Ret st') \<Longrightarrow>
    heap_step bo bd e st st'"
| step_write: "heap_ok bo st (xs @ Used n # ys) \<Longrightarrow> a \<in> payload st (total xs) n \<Longrightarrow>
    heap_step bo bd e st (st\<lparr>ms_mem := (ms_mem st)(a := v)\<rparr>)"

inductive_cases heap_stepE: "heap_step bo bd e st st'"

text \<open>The words of a chain determine its blocks.\<close>

lemma tag_inj: "blen b < 2 ^ 31 \<Longrightarrow> blen b' < 2 ^ 31 \<Longrightarrow> tag b = tag b' \<Longrightarrow> b = b'"
proof -
  assume l: "blen b < 2 ^ 31" "blen b' < 2 ^ 31" and t: "tag b = tag b'"
  have "(of_nat (blen b) :: u32) = of_nat (blen b')" using tag_bits(1) [OF l(1)] tag_bits(1) [OF l(2)] t by simp
  then have "blen b = blen b'" using l by (simp add: of_nat_eq_u32)
  moreover have "is_free b = is_free b'" using tag_bits(2) [OF l(1)] tag_bits(2) [OF l(2)] t by simp
  ultimately show "b = b'" by (cases b; cases b') auto
qed

lemma tag_nonzero: "0 < blen b \<Longrightarrow> blen b < 2 ^ 31 \<Longrightarrow> tag b \<noteq> 0"
  using tag_bits(1) [of b] of_nat_eq_u32 [of "blen b" 0] by (auto simp: GET_LEN_def)

lemma chain_unique:
  "chain h i bs \<Longrightarrow> chain h i bs' \<Longrightarrow> total bs < 2 ^ 26 \<Longrightarrow> total bs' < 2 ^ 26 \<Longrightarrow> bs = bs'"
proof (induction bs arbitrary: i bs')
  case Nil
  then show ?case using tag_nonzero by (cases bs') auto
next
  case (Cons b bs)
  show ?case
  proof (cases bs')
    case Nil
    then show ?thesis using Cons.prems tag_nonzero [of b] by auto
  next
    case b': (Cons b' bs'')
    then have "b = b'" using Cons.prems by (intro tag_inj) auto
    then show ?thesis using Cons.IH [of "i + blen b" bs''] Cons.prems b' by auto
  qed
qed

lemma heap_ok_unique: "heap_ok bo st bs \<Longrightarrow> heap_ok bo st bs' \<Longrightarrow> bs = bs'"
  by (auto simp: heap_ok_def intro: chain_unique)

lemma free_prefix_split: obtains fs ys' where "ys = fs @ ys'" "\<forall>b\<in>set fs. is_free b" "ys' = [] \<or> \<not> is_free (hd ys')"
  using takeWhile_dropWhile_id [of is_free ys] set_takeWhileD [of _ is_free ys] hd_dropWhile [of is_free ys]
  by metis

lemma heap_step_ok:
  assumes "heap_step bo bd e st st'" "heap_ok bo st bs"
  shows "\<exists>bs'. heap_ok bo st' bs' \<and> total bs' = total bs \<and> ms_heap st' = ms_heap st"
  using assms(1)
proof (cases rule: heap_step.cases)
  case (step_malloc size0 p)
  show ?thesis
  proof (cases "size0 = 0")
    case True
    then show ?thesis using step_malloc assms(2) by (auto simp: malloc_def)
  next
    case False
    note m = malloc_cases [OF assms(2) False step_malloc(2) refl, of bd e]
    show ?thesis
    proof (cases "\<forall>n. Free n \<in> set bs \<longrightarrow> n < chunk_words size0")
      case True
      then show ?thesis using m step_malloc(1) assms(2) by auto
    next
      case False
      then obtain xs l ys st1 where b: "bs = xs @ Free l # ys" "chunk_words size0 \<le> l"
        "malloc bo bd e st size0 = Some (st1, chunk_ptr st (total xs))"
        "heap_ok bo st1 (xs @ split_block (chunk_words size0) l @ ys)"
        "changed_words bo st st1 {total xs, total xs + chunk_words size0}"
        using m by (auto simp: not_less)
      then show ?thesis using step_malloc(1)
        by (intro exI [of _ "xs @ split_block (chunk_words size0) l @ ys"])
          (auto simp: split_block_def changed_words_def)
    qed
  qed
next
  case (step_free xs n ys)
  obtain fs ys' where y: "ys = fs @ ys'" "\<forall>b\<in>set fs. is_free b" "ys' = [] \<or> \<not> is_free (hd ys')"
    by (rule free_prefix_split)
  have "bs = xs @ Used n # ys" using heap_ok_unique [OF assms(2) step_free(1)] .
  then show ?thesis using free_merges [of bo st xs n fs ys'] y step_free
    by (intro exI [of _ "xs @ Free (n + total fs) # ys'"]) (auto simp: changed_words_def)
next
  case (step_write xs n ys a v)
  have "heap_ok bo (st\<lparr>ms_mem := (ms_mem st)(a := v)\<rparr>) (xs @ Used n # ys)"
    using step_write by (intro heap_ok_payload_write [OF step_write(2)]) auto
  then show ?thesis using heap_ok_unique [OF assms(2) step_write(2)] step_write(1) by auto
qed

lemma heap_steps_ok:
  assumes "(heap_step bo bd e)\<^sup>*\<^sup>* st st'" "heap_ok bo st bs"
  shows "\<exists>bs'. heap_ok bo st' bs' \<and> total bs' = total bs \<and> ms_heap st' = ms_heap st"
  using assms by (induction rule: rtranclp_induct) (blast, metis heap_step_ok)

end
