(* ===== verification/Malloc_Props.thy ===== *)
theory Malloc_Props
  imports Malloc
begin

text \<open>
  Correctness of the allocator as a whole: calloc and realloc, the sizing of
  the memory by malloc_init, and the interpretation of the allocator interface
  on malloc and free.
\<close>

section \<open>calloc and realloc\<close>

lemma malloc_Some:
  assumes ok: "heap_ok bo st bs" and size: "size0 \<noteq> 0" "unat size0 \<le> 2 ^ 32 - 4"
    and m: "malloc bo bd e st size0 = Some (st', p)" and p: "p \<noteq> 0"
  obtains xs l ys where "bs = xs @ Free l # ys" "chunk_words size0 \<le> l" "p = chunk_ptr st (total xs)"
    "heap_ok bo st' (xs @ split_block (chunk_words size0) l @ ys)"
    "changed_words bo st st' {total xs, total xs + chunk_words size0}"
  using malloc_cases [OF ok size refl, of bd e] m p by (auto simp: not_less)

lemma chunk_words_payload: "unat size0 \<le> 4 * (chunk_words size0 - 1)"
  by (simp add: chunk_words_def)

lemma calloc_zeroes:
  assumes ok: "heap_ok bo st bs" and len: "len = number * size0" "len \<noteq> 0" "unat len \<le> 2 ^ 32 - 4"
    and c: "calloc bo bd e st number size0 = Some (st', p)" and p: "p \<noteq> 0"
  shows "\<exists>xs l ys. bs = xs @ Free l # ys \<and> p = chunk_ptr st (total xs) \<and>
    heap_ok bo st' (xs @ split_block (chunk_words len) l @ ys) \<and>
    (\<forall>x\<in>region p (unat len). ms_mem st' x = 0) \<and> chunk_words len \<le> l \<and> ms_heap st' = ms_heap st"
proof -
  obtain st1 where m: "malloc bo bd e st len = Some (st1, p)" "st' = st1\<lparr>ms_mem := bzero (ms_mem st1) p len\<rparr>"
    using c p by (auto simp: calloc_def Let_def len(1) split: option.splits if_splits)
  obtain xs l ys where le: "chunk_words len \<le> l" and b: "bs = xs @ Free l # ys" "p = chunk_ptr st (total xs)"
    "heap_ok bo st1 (xs @ split_block (chunk_words len) l @ ys)"
    "changed_words bo st st1 {total xs, total xs + chunk_words len}"
    using malloc_Some [OF ok len(2,3) m(1) p] by metis
  define r where "r = (if chunk_words len < l then [Free (l - chunk_words len)] else [])"
  have ok1: "heap_ok bo st1 (xs @ Used (chunk_words len) # r @ ys)"
    using b(3) by (simp add: split_block_def r_def)
  have h1: "ms_heap st1 = ms_heap st" using b(4) by (simp add: changed_words_def)
  then have p1: "p = chunk_ptr st1 (total xs)" using b(2) by (simp add: chunk_ptr_def)
  have "heap_ok bo st' (xs @ Used (chunk_words len) # r @ ys)"
  proof (rule heap_ok_payload_write [OF ok1])
    fix x assume "x \<notin> payload st1 (total xs) (blen (Used (chunk_words len)))"
    then have "unat len \<le> unat (x - p)"
      using chunk_words_payload [of len] p1 by (simp add: payload_def)
    then show "ms_mem st' x = ms_mem st1 x" by (simp add: m(2) bzero_fills filled_def)
  qed (simp add: m(2))
  moreover have "\<forall>x\<in>region p (unat len). ms_mem st' x = 0" by (simp add: m(2) bzero_fills filled_def)
  moreover have "Used (chunk_words len) # r @ ys = split_block (chunk_words len) l @ ys"
    by (simp add: split_block_def r_def)
  moreover have "ms_heap st' = ms_heap st" using h1 by (simp add: m(2))
  ultimately show ?thesis using b(1,2) le by metis
qed

lemma two_splits:
  "xs @ x # ys = A @ y # B \<Longrightarrow> x \<noteq> y \<Longrightarrow>
   (\<exists>C. A = xs @ x # C \<and> ys = C @ y # B) \<or> (\<exists>C. xs = A @ y # C \<and> B = C @ x # ys)"
  by (auto simp: append_eq_append_conv2 Cons_eq_append_conv append_eq_Cons_conv)

lemma payload_not_header:
  assumes x: "x \<in> payload st i n" and k: "k \<le> i \<or> i + n \<le> k" "i + n \<le> 2 ^ 26" "k \<le> 2 ^ 26" "0 < n"
  shows "4 \<le> unat (x - (ms_heap st + of_nat (4 * k)))"
proof (rule ccontr)
  assume "\<not> 4 \<le> unat (x - (ms_heap st + of_nat (4 * k)))"
  then obtain c where c: "c \<le> 3" "unat (x - (ms_heap st + of_nat (4 * k))) = c" by fastforce
  then have "x = ms_heap st + of_nat (4 * k) + of_nat c" using offset_eq [of c] by simp
  then have "x = ms_heap st + of_nat (4 * k + c)" by (simp add: add.assoc)
  then show False using header_not_in_payload [OF k(1-3) c(1) k(4)] x by simp
qed

text \<open>Old and new block of a reallocation lie side by side in the chain.\<close>

lemma realloc_blocks:
  assumes ok: "heap_ok bo st (xs @ Used n # ys)" and size: "size0 \<noteq> 0" "unat size0 \<le> 2 ^ 32 - 4"
    and m: "malloc bo bd e st size0 = Some (st1, p)" and p: "p \<noteq> 0" and sz: "sz = chunk_words size0"
  obtains xs1 ys1 xs2 ys2 where "p = chunk_ptr st (total xs2)" "total xs1 = total xs"
    "heap_ok bo st1 (xs1 @ Used n # ys1)" "xs1 @ Used n # ys1 = xs2 @ Used sz # ys2"
    "total xs2 + sz \<le> total xs \<or> total xs + n \<le> total xs2"
    "changed_words bo st st1 {total xs2, total xs2 + sz}"
proof -
  obtain A l B where a: "xs @ Used n # ys = A @ Free l # B" "sz \<le> l" "p = chunk_ptr st (total A)"
    "heap_ok bo st1 (A @ split_block sz l @ B)" "changed_words bo st st1 {total A, total A + sz}"
    using malloc_Some [OF ok size m p] sz by metis
  define r where "r = (if sz < l then [Free (l - sz)] else [])"
  have r: "split_block sz l = Used sz # r" "total r = l - sz" by (simp_all add: split_block_def r_def)
  from two_splits [OF a(1)] consider C where "A = xs @ Used n # C" "ys = C @ Free l # B"
    | C where "xs = A @ Free l # C" "B = C @ Used n # ys" by auto
  then show ?thesis
  proof cases
    case 1
    then show ?thesis using a r by (intro that [of A xs "C @ Used sz # r @ B" "r @ B"]) auto
  next
    case 2
    then show ?thesis using a r by (intro that [of A "A @ Used sz # r @ C" ys "r @ C @ Used n # ys"]) auto
  qed
qed


lemma chunk_ptr_diff:
  assumes "i + n \<le> j \<or> j \<le> i" "i + n \<le> 2 ^ 26" "j < 2 ^ 26" "j \<noteq> i"
  shows "4 * (n - 1) \<le> unat (chunk_ptr st j - chunk_ptr st i)"
proof -
  have u: "unat (of_nat x :: u32) = x" if "x < 2 ^ 32" for x using that by (simp add: unat_of_nat_lt)
  have "unat (of_nat (4 * (j + 1)) - of_nat (4 * (i + 1)) :: u32) =
      (if i \<le> j then 4 * (j - i) else 2 ^ 32 - 4 * (i - j))"
    using assms u [of "4 * (j + 1)"] u [of "4 * (i + 1)"] by (simp only: unat_sub_if') auto
  then show ?thesis using assms by (auto simp: chunk_ptr_def simp del: of_nat_mult)
qed

lemma heap_get_block:
  assumes "heap_ok bo st (xs @ b # ys)"
  shows "heap_get bo st (of_nat (total xs)) = tag b"
  using heap_okD(4) [OF assms] by (simp add: chain_append heap_word_def)

lemma realloc_copysize:
  assumes ok: "heap_ok bo st (xs @ Used n # ys)" and i: "i = chunk_index st (chunk_ptr st (total xs))"
    and cs: "cs = min (unat size0) (4 * (n - 1))"
  shows "(let c = (GET_LEN (heap_get bo st i) - 1) * 4 in if size0 < c then size0 else c) = of_nat cs"
proof -
  have b: "total xs < 2 ^ 26" "n < 2 ^ 26" "0 < n"
    using heap_okD(2,4) [OF ok] by (simp_all add: chain_append)
  then have "i = of_nat (total xs)" using chunk_index_ptr i by simp
  then have "GET_LEN (heap_get bo st i) = of_nat n"
    using heap_get_block [OF ok] b set_free_bits(4) [of n] by simp
  then have c: "(GET_LEN (heap_get bo st i) - 1) * 4 = of_nat (4 * (n - 1))"
    using b(3) by (simp add: of_nat_diff algebra_simps)
  have "unat (of_nat (4 * (n - 1)) :: u32) = 4 * (n - 1)" using b(2) by (intro unat_of_nat_lt) simp
  then show ?thesis unfolding Let_def c cs by (simp add: word_less_nat_alt min_def word_unat_inverse del: of_nat_mult)
qed

lemma free_any:
  assumes "heap_ok bo st (xs @ Used n # ys)"
  obtains st' bs' where "free bo st (chunk_ptr st (total xs)) = Some (Ret st')" "heap_ok bo st' bs'"
    "changed_words bo st st' {total xs}"
proof -
  obtain fs ys' where "ys = fs @ ys'" "\<forall>b\<in>set fs. is_free b" "ys' = [] \<or> \<not> is_free (hd ys')"
    by (rule free_prefix_split)
  then show ?thesis using free_merges [of bo st xs n fs ys'] assms that by auto
qed

lemma changed_words_payload:
  assumes "changed_words bo st st' I" "x \<in> payload st i n" "i + n \<le> 2 ^ 26" "0 < n"
    "\<And>k. k \<in> I \<Longrightarrow> (k \<le> i \<or> i + n \<le> k) \<and> k \<le> 2 ^ 26"
  shows "ms_mem st' x = ms_mem st x"
  using assms payload_not_header [OF assms(2)] unfolding changed_words_def by blast

lemma in_payload: "k < 4 * (n - 1) \<Longrightarrow> k < 2 ^ 32 \<Longrightarrow> chunk_ptr st i + of_nat k \<in> payload st i n"
  by (simp add: payload_def unat_of_nat_lt)

lemma realloc_copies:
  assumes ok: "heap_ok bo st (xs @ Used n # ys)" and size: "size0 \<noteq> 0" "unat size0 \<le> 2 ^ 32 - 4"
    and m: "malloc bo bd e st size0 = Some (st1, p)" and p: "p \<noteq> 0"
    and old: "old = chunk_ptr st (total xs)"
  shows "\<exists>st' bs'. realloc bo bd e st old size0 = Some (Ret (st', p)) \<and> heap_ok bo st' bs' \<and>
    (\<forall>k < min (unat size0) (4 * (n - 1)). ms_mem st' (p + of_nat k) = ms_mem st (old + of_nat k))"
proof -
  define sz where "sz = chunk_words size0"
  obtain xs1 ys1 xs2 ys2 where b: "p = chunk_ptr st (total xs2)" "total xs1 = total xs"
    "heap_ok bo st1 (xs1 @ Used n # ys1)" "xs1 @ Used n # ys1 = xs2 @ Used sz # ys2"
    "total xs2 + sz \<le> total xs \<or> total xs + n \<le> total xs2"
    "changed_words bo st st1 {total xs2, total xs2 + sz}"
    by (rule realloc_blocks [OF ok size m p sz_def])
  have heap1: "ms_heap st1 = ms_heap st" using b(6) by (simp add: changed_words_def)
  have ptr1: "chunk_ptr st1 i = chunk_ptr st i" for i by (simp add: chunk_ptr_def heap1)
  have bnd: "total xs + n < 2 ^ 26" "total xs2 + sz < 2 ^ 26" "0 < n" "0 < sz"
    using heap_okD(2,4) [OF b(3)] heap_okD(2) [OF b(3) [unfolded b(4)]] b(2)
    by (simp_all add: chain_append sz_def chunk_words_def)
  have old1: "old = chunk_ptr st1 (total xs1)" using old ptr1 b(2) by simp
  have old0: "old \<noteq> 0"
    using heap_okD(1,3) [OF b(3)] bnd(3) unfolding old1 by (intro chunk_ptr_nonzero) auto
  define cs where "cs = min (unat size0) (4 * (n - 1))"
  have cs: "cs < 2 ^ 32" "cs \<le> 4 * (n - 1)" "cs \<le> 4 * (sz - 1)"
    using chunk_words_payload [of size0] bnd(1) by (auto simp: cs_def sz_def)
  define st2 where "st2 = st1\<lparr>ms_mem := copied (ms_mem st1) p old cs\<rparr>"
  have "cs \<le> unat (p - old)"
    using chunk_ptr_diff [of "total xs" n "total xs2" st] b(1,5) bnd cs(2) old by auto
  then have mc: "memcpy_inline bo (ms_mem st1) p old (of_nat cs) = (copied (ms_mem st1) p old cs, p)"
    using memcpy_inline_copies [of p old "of_nat cs"] cs(1) by (simp add: unat_of_nat_lt)
  have ok2: "heap_ok bo st2 (xs1 @ Used n # ys1)"
    unfolding b(4)
  proof (rule heap_ok_payload_write [OF b(3) [unfolded b(4)]])
    fix x assume "x \<notin> payload st1 (total xs2) (blen (Used sz))"
    then show "ms_mem st2 x = ms_mem st1 x"
      using cs(3) b(1) by (auto simp: payload_def ptr1 st2_def copied_def)
  qed (simp add: st2_def)
  have "old = chunk_ptr st2 (total xs1)" using old1 by (simp add: st2_def chunk_ptr_def)
  then obtain st' bs' where f: "free bo st2 old = Some (Ret st')" "heap_ok bo st' bs'"
    "changed_words bo st2 st' {total xs}"
    using free_any [OF ok2] b(2) by metis
  have call: "realloc bo bd e st old size0 = Some (Ret (st', p))"
    using m p old0 f(1) realloc_copysize [OF b(3) refl cs_def]
    by (simp add: realloc_def Let_def mc flip: old1 st2_def)
  have "ms_mem st' (p + of_nat k) = ms_mem st (old + of_nat k)" if "k < cs" for k
  proof -
    have "p + of_nat k \<in> payload st2 (total xs2) sz"
      using in_payload [of k sz st "total xs2"] that cs b(1) by (simp add: payload_def chunk_ptr_def st2_def heap1)
    then have "ms_mem st' (p + of_nat k) = ms_mem st2 (p + of_nat k)"
      using bnd b(5) by (intro changed_words_payload [OF f(3), of _ "total xs2" sz]) auto
    also have "\<dots> = ms_mem st1 (old + of_nat k)"
      using copied_byte [of k cs] that cs(1) by (simp add: st2_def)
    also have "\<dots> = ms_mem st (old + of_nat k)"
      using in_payload [of k n st "total xs"] that cs bnd b(5) old
      by (intro changed_words_payload [OF b(6), of _ "total xs" n]) auto
    finally show ?thesis .
  qed
  then show ?thesis using call f(2) cs_def by blast
qed

section \<open>Sizing the memory\<close>

lemma store_word_self: "store_word bo m a (load_word bo m a) = m"
  by (simp add: store_word_bytes)

lemma store_store_word: "store_word bo (store_word bo m a v) a w = store_word bo m a w"
  by (simp add: store_word_def fun_upd_twist)

text \<open>
  A board with one memory of \<open>2 ^ (k + 2)\<close> bytes at address \<open>base\<close> that repeats through
  the address space.
\<close>

definition mirrored_ram :: "board \<Rightarrow> addr \<Rightarrow> nat \<Rightarrow> bool" where
  "mirrored_ram bd base k \<longleftrightarrow>
     (\<forall>x. bd_dec bd (base + of_nat x) = Some (base + of_nat (x mod 2 ^ (k + 2))))"

lemma probe_cells:
  assumes r: "mirrored_ram bd base k" and E: "E < 2 ^ (k + 2)" "k \<le> 26"
    and F: "F = (E + 2 ^ (j + 2)) mod 2 ^ (k + 2)" and j: "j \<le> k"
  shows "probe_get bo bd m (base + of_nat E + 4 * 2 ^ j) = load_word bo m (base + of_nat F)"
    "probe_set bo bd m (base + of_nat E + 4 * 2 ^ j) v = store_word bo m (base + of_nat F) v"
    "probe_set bo bd m (base + of_nat E) v = store_word bo m (base + of_nat E) v"
proof -
  have "base + of_nat E + 4 * 2 ^ j = base + of_nat (E + 2 ^ (j + 2))"
    by (simp add: add.assoc mult.commute)
  then have "bd_dec bd (base + of_nat E + 4 * 2 ^ j) = Some (base + of_nat F)"
    using r F unfolding mirrored_ram_def by metis
  moreover have "bd_dec bd (base + of_nat E) = Some (base + of_nat E)"
    using r E unfolding mirrored_ram_def by (metis mod_less)
  ultimately show "probe_get bo bd m (base + of_nat E + 4 * 2 ^ j) = load_word bo m (base + of_nat F)"
    "probe_set bo bd m (base + of_nat E + 4 * 2 ^ j) v = store_word bo m (base + of_nat F) v"
    "probe_set bo bd m (base + of_nat E) v = store_word bo m (base + of_nat E) v"
    by (simp_all only: probe_get_def probe_set_def option.case)
qed

lemma off_less: "j < 32 \<Longrightarrow> (2 ^ j :: u32) < 0x4000000 \<longleftrightarrow> j < 26"
proof -
  assume j: "j < 32"
  have "unat (2 ^ j :: u32) = 2 ^ j" using j by (intro unat_exp_lt) simp
  then have "(2 ^ j :: u32) < 0x4000000 \<longleftrightarrow> (2::nat) ^ j < 2 ^ 26"
    by (simp add: word_less_nat_alt)
  then show ?thesis by (simp only: power_strict_increasing_iff one_less_numeral_iff semiring_norm)
qed

text \<open>One round of the probe at an offset below 2 ^ 26 words.\<close>

lemma probe_loop_round:
  assumes r: "mirrored_ram bd base k" "E < 2 ^ (k + 2)" "k \<le> 26" "F = (E + 2 ^ (j + 2)) mod 2 ^ (k + 2)"
    and j: "j \<le> k" "j < 26" and i: "i < 2"
  shows "probe_loop bo bd (base + of_nat E) m (2 ^ j) i =
    (let m3 = store_word bo m (base + of_nat E) (of_int i) in
     if load_word bo m3 (base + of_nat F) \<noteq> of_int i
     then probe_loop bo bd (base + of_nat E) m3 (2 ^ Suc j) (- 1)
     else probe_loop bo bd (base + of_nat E) m3 (2 ^ j) (i + 1))"
proof -
  note c = probe_cells [OF r(1-4) j(1)]
  have off: "(2 ^ j :: u32) < 0x4000000" using j off_less [of j] by simp
  have "push_bit 1 (2 ^ j :: u32) = 2 ^ Suc j" by (simp add: push_bit_eq_mult)
  then show ?thesis
    using i off
    by (simp add: probe_loop.simps [of bo bd _ m "2 ^ j"] Let_def c store_store_word store_word_self
        del: power_Suc)
qed

lemma probe_loop_end:
  assumes r: "mirrored_ram bd base k" "E < 2 ^ (k + 2)" "k \<le> 26"
  shows "\<exists>m'. probe_loop bo bd (base + of_nat E) m (2 ^ k) (- 1) = Some (m', 2 ^ k) \<and>
    (\<forall>x. 4 \<le> unat (x - (base + of_nat E)) \<longrightarrow> m' x = m x)"
proof (cases "k < 26")
  case True
  have F: "E = (E + 2 ^ (k + 2)) mod 2 ^ (k + 2)" using r(2) by simp
  have "probe_loop bo bd (base + of_nat E) m (2 ^ k) i =
      probe_loop bo bd (base + of_nat E) (store_word bo m (base + of_nat E) (of_int i)) (2 ^ k) (i + 1)"
    if "i < 2" for i m
    using probe_loop_round [OF r F le_refl True that, of bo m] by (simp add: Let_def)
  note s = this
  define m3 where "m3 = store_word bo (store_word bo (store_word bo m (base + of_nat E) (- 1)) (base + of_nat E) 0) (base + of_nat E) 1"
  have "probe_loop bo bd (base + of_nat E) m (2 ^ k) (- 1) = probe_loop bo bd (base + of_nat E) m3 (2 ^ k) 2"
    using s [of "- 1" m] s [of 0] s [of 1] by (simp add: m3_def)
  also have "\<dots> = Some (m3, 2 ^ k)" by (simp add: probe_loop.simps [of bo bd _ m3 "2 ^ k" 2])
  finally have l: "probe_loop bo bd (base + of_nat E) m (2 ^ k) (- 1) = Some (m3, 2 ^ k)" .
  have "m3 x = m x" if "4 \<le> unat (x - (base + of_nat E))" for x
    using that region_4 [of x "base + of_nat E"] unfolding m3_def store_store_word
    by (intro store_word_other) auto
  then show ?thesis using l by blast
next
  case False
  then have "k = 26" using r(3) by simp
  then have "probe_loop bo bd (base + of_nat E) m (2 ^ k) (- 1) = Some (m, 2 ^ k)"
    by (simp add: probe_loop.simps [of bo bd _ m _ "- 1"])
  then show ?thesis by blast
qed

lemma mult4_apart: "a mod 4 = 0 \<Longrightarrow> b mod 4 = 0 \<Longrightarrow> b \<noteq> a \<Longrightarrow> b + 3 < a \<or> a + 3 < (b :: nat)"
proof -
  assume "a mod 4 = 0" "b mod 4 = 0" "b \<noteq> a"
  then obtain x y where "a = 4 * x" "b = 4 * y" by (metis mult_div_mod_eq add.right_neutral)
  with \<open>b \<noteq> a\<close> show ?thesis by auto
qed

lemma mod_once_ne: "a < M \<Longrightarrow> 0 < d \<Longrightarrow> d < M \<Longrightarrow> (a + d) mod M \<noteq> (a :: nat)"
  by (cases "a + d < M") (simp_all add: le_mod_geq not_less)

lemma probe_cell_distinct:
  fixes E :: nat
  assumes E: "E < 2 ^ (k + 2)" "E mod 4 = 0" and j: "j < k"
  shows "(E + 2 ^ (j + 2)) mod 2 ^ (k + 2) \<noteq> E" "(E + 2 ^ (j + 2)) mod 2 ^ (k + 2) mod 4 = 0"
proof -
  have d: "(2::nat) ^ (j + 2) < 2 ^ (k + 2)" using j by simp
  show "(E + 2 ^ (j + 2)) mod 2 ^ (k + 2) \<noteq> E" using E(1) d by (intro mod_once_ne) simp_all
  have "4 dvd (2::nat) ^ (k + 2)" by simp
  then have "(E + 2 ^ (j + 2)) mod 2 ^ (k + 2) mod 4 = (E + 2 ^ (j + 2)) mod 4" by (rule mod_mod_cancel)
  also have "\<dots> = 0" using E(2) by (simp add: mod_add_eq [symmetric])
  finally show "(E + 2 ^ (j + 2)) mod 2 ^ (k + 2) mod 4 = 0" .
qed

lemma probe_loop_double:
  assumes r: "mirrored_ram bd base k" "E < 2 ^ (k + 2)" "k \<le> 26" and E4: "E mod 4 = 0" and j: "j < k"
  shows "\<exists>m'. probe_loop bo bd (base + of_nat E) m (2 ^ j) (- 1) =
      probe_loop bo bd (base + of_nat E) m' (2 ^ Suc j) (- 1) \<and>
    (\<forall>x. 4 \<le> unat (x - (base + of_nat E)) \<longrightarrow> m' x = m x)"
proof -
  define F where "F = (E + 2 ^ (j + 2)) mod 2 ^ (k + 2)"
  have F: "F \<noteq> E" "F mod 4 = 0" "F < 2 ^ (k + 2)"
    using probe_cell_distinct [OF r(2) E4 j] by (simp_all add: F_def)
  have b: "(2::nat) ^ (k + 2) \<le> 2 ^ 28" using r(3) by (intro power_increasing) auto
  then have ne: "E + 3 < 2 ^ 32" "F + 3 < 2 ^ 32" "F + 3 < E \<or> E + 3 < F"
    using F r(2) mult4_apart [OF E4 F(2)] by auto
  have keep: "load_word bo (store_word bo m (base + of_nat E) v) (base + of_nat F) = load_word bo m (base + of_nat F)" for m v
    by (rule load_store_word_off) (use ne in auto)
  note round = probe_loop_round [OF r F_def _ _, of _ bo]
  have frame: "store_word bo m (base + of_nat E) v x = m x" if "4 \<le> unat (x - (base + of_nat E))" for x v m
    using that region_4 [of x "base + of_nat E"] by (intro store_word_other) auto
  have j': "j \<le> k" "j < 26" using j r(3) by auto
  show ?thesis
  proof (cases "load_word bo m (base + of_nat F) = - 1")
    case False
    then show ?thesis
      using round [OF j', of "- 1" m] frame by (auto simp: Let_def keep simp del: power_Suc)
  next
    case True
    then have "probe_loop bo bd (base + of_nat E) m (2 ^ j) (- 1) =
      probe_loop bo bd (base + of_nat E) (store_word bo (store_word bo m (base + of_nat E) (- 1)) (base + of_nat E) 0) (2 ^ Suc j) (- 1)"
      using round [OF j', of "- 1" m] round [OF j', of 0 "store_word bo m (base + of_nat E) (- 1)"]
      by (simp add: Let_def keep del: power_Suc)
    then show ?thesis
      using frame by (intro exI [of _ "store_word bo (store_word bo m (base + of_nat E) (- 1)) (base + of_nat E) 0"]) simp
  qed
qed


lemma probe_loop_finds:
  assumes r: "mirrored_ram bd base k" "E < 2 ^ (k + 2)" "k \<le> 26" and E4: "E mod 4 = 0"
  shows "j \<le> k \<Longrightarrow> \<exists>m'. probe_loop bo bd (base + of_nat E) m (2 ^ j) (- 1) = Some (m', 2 ^ k) \<and>
    (\<forall>x. 4 \<le> unat (x - (base + of_nat E)) \<longrightarrow> m' x = m x)"
proof (induction "k - j" arbitrary: j m)
  case 0
  then show ?case using probe_loop_end [OF r, of bo m] by simp
next
  case (Suc d)
  then have j: "j < k" by simp
  obtain m1 where m1: "probe_loop bo bd (base + of_nat E) m (2 ^ j) (- 1) =
      probe_loop bo bd (base + of_nat E) m1 (2 ^ Suc j) (- 1)"
    "\<forall>x. 4 \<le> unat (x - (base + of_nat E)) \<longrightarrow> m1 x = m x"
    using probe_loop_double [OF r E4 j, of bo m] by blast
  have "d = k - Suc j" "Suc j \<le> k" using Suc j by auto
  from Suc.hyps(1) [OF this, of m1] m1 show ?case by (metis (no_types, lifting))
qed

text \<open>What malloc_init makes of a memory of \<open>2 ^ (k + 2)\<close> bytes.\<close>

definition stack_reserve :: "addr \<Rightarrow> nat" where
  "stack_reserve base = (if base = 0 then 0x1000 else 0x2000)"

lemma set_free_add: "n < 2 ^ 31 \<Longrightarrow> SET_FREE (of_nat n) = 0x80000000 + of_nat n"
proof -
  assume "n < 2 ^ 31"
  then have "SET_FREE (of_nat n) = of_nat n + 0x80000000"
    unfolding SET_FREE_def using of_nat_no_top_bit [of n] bit_top_const
    by (intro disjunctive_add [symmetric]) metis
  then show ?thesis by (simp add: add.commute)
qed

lemma high_half_negative: "n < 2 ^ 31 \<Longrightarrow> 0x80000000 + (of_nat n :: u32) <s 0"
proof -
  assume "n < 2 ^ 31"
  then have "unat (0x80000000 + (of_nat n :: u32)) = 2 ^ 31 + n"
    by (simp add: unat_plus_if' unat_of_nat_lt)
  moreover have "uint (0x80000000 + (of_nat n :: u32)) = int (unat (0x80000000 + (of_nat n :: u32)))" by simp
  ultimately show ?thesis unfolding sless_0_iff sint_neg_iff by simp
qed

lemma ram_top_mirrored:
  assumes b: "base = 0 \<or> base = 0x80000000" and k: "k \<le> 26" and E: "E < 2 ^ (k + 2)"
    and R: "stack_reserve base \<le> 2 ^ (k + 2)"
  shows "ram_top_of (base + of_nat E) (2 ^ k) = base + of_nat (2 ^ (k + 2) - stack_reserve base)"
proof -
  have big: "(2::nat) ^ (k + 2) \<le> 2 ^ 28" using k by (intro power_increasing) auto
  have "GET_LEN (base + of_nat E) = of_nat E"
    using b set_free_bits(1,4) [of E] set_free_add [of E] big E by auto
  then have "(base + of_nat E) AND NOT (push_bit 31 1) = of_nat E" by (simp add: GET_LEN_def)
  then have t: "base + of_nat E + 4 * 2 ^ k - ((base + of_nat E) AND NOT (push_bit 31 1)) = base + of_nat (2 ^ (k + 2))"
    by (simp add: mult.commute)
  have sgn: "base + of_nat (2 ^ (k + 2)) <s 0 \<longleftrightarrow> base \<noteq> 0"
    using b high_half_negative [of "2 ^ (k + 2)"] sless_of_nat(1) [of "2 ^ (k + 2)"] big by auto
  show ?thesis unfolding ram_top_of_def Let_def t using b R sgn
    by (auto simp: stack_reserve_def of_nat_diff)
qed


lemma malloc_init_ok:
  assumes r: "mirrored_ram bd base k" and b: "base = 0 \<or> base = 0x80000000" and k: "10 \<le> k" "k \<le> 26"
    and E: "end0 = base + of_nat E" "E mod 4 = 0" "end0 \<noteq> 0"
    and room: "E + stack_reserve base + 8 \<le> 2 ^ (k + 2)"
  shows "\<exists>st'. malloc_init bo bd end0 st = Some st' \<and>
    heap_ok bo st' [Free ((2 ^ (k + 2) - stack_reserve base - E) div 4 - 1)]"
proof -
  define R where "R = 2 ^ (k + 2) - stack_reserve base"
  define i where "i = (R - E) div 4 - 1"
  have big: "(2::nat) ^ (k + 2) \<le> 2 ^ 28" using k by (intro power_increasing) auto
  have EL: "E < 2 ^ (k + 2)" and RE: "E + 8 \<le> R" "R \<le> 2 ^ 28" "stack_reserve base \<le> 2 ^ (k + 2)"
    using room big unfolding R_def by auto
  have "(1024 :: u32) = 2 ^ 10" by simp
  then obtain m' where m': "probe_loop bo bd end0 (ms_mem st) 1024 (- 1) = Some (m', 2 ^ k)"
    using probe_loop_finds [OF r EL k(2) E(2) k(1), of bo "ms_mem st"] E(1) by metis
  have top: "ram_top_of end0 (2 ^ k) = base + of_nat R"
    using ram_top_mirrored [OF b k(2) EL RE(3)] E(1) R_def by simp
  have d: "base + of_nat R - end0 = of_nat (R - E)" using RE(1) E(1) by (simp add: of_nat_diff)
  have u: "unat (base + of_nat x) = unat base + x" if "x \<le> 2 ^ 28" for x
    using that b by (auto simp: unat_plus_if' unat_of_nat_lt)
  have lt: "end0 < base + of_nat R"
    using u [of E] u [of R] RE E(1) by (simp add: word_less_nat_alt)
  have iw: "drop_bit 2 (base + of_nat R - end0) - 1 = (of_nat i :: u32)"
  proof -
    have "unat (of_nat (R - E) :: u32) = R - E" using RE by (intro unat_of_nat_lt) simp
    then have "unat (drop_bit 2 (of_nat (R - E) :: u32)) = (R - E) div 4"
      by (simp only: unat_drop_bit_div) simp
    then have "drop_bit 2 (of_nat (R - E) :: u32) = of_nat ((R - E) div 4)" by (metis word_unat_inverse)
    then show ?thesis unfolding d i_def using RE(1) by (simp add: of_nat_diff)
  qed
  have ipos: "0 < i" "i < 2 ^ 26" "4 * (i + 1) \<le> R - E" using RE unfolding i_def by auto
  define st0 where "st0 = \<lparr>ms_heap = end0, ms_mem = m'\<rparr>"
  define st' where "st' = heap_set bo (heap_set bo st0 (of_nat 0) (SET_FREE (of_nat i))) (of_nat i) 0"
  have call: "malloc_init bo bd end0 st = Some st'"
    using m' lt by (simp add: malloc_init_def top iw Let_def st'_def flip: st0_def)
  have "heap_word bo st' 0 = SET_FREE (of_nat i)" "heap_word bo st' i = 0"
    using ipos heap_word_set [of i 0 bo] heap_word_set [of 0 0 bo st0] heap_word_set [of i i bo] unfolding st'_def by simp_all
  moreover have "unat end0 + 4 * (i + 1) \<le> 2 ^ 32"
    using u [of E] E(1) ipos(3) RE b by auto
  ultimately have "heap_ok bo st' [Free i]"
    using ipos E(3) by (simp add: heap_ok_def st'_def st0_def)
  then show ?thesis using call unfolding i_def R_def by blast
qed

section \<open>The allocator interface\<close>

text \<open>The word positions of the allocated blocks.\<close>

fun used_at :: "nat \<Rightarrow> block list \<Rightarrow> nat set" where
  "used_at i [] = {}"
| "used_at i (Used n # bs) = insert i (used_at (i + n) bs)"
| "used_at i (Free n # bs) = used_at (i + n) bs"

lemma used_at_append: "used_at i (xs @ ys) = used_at i xs \<union> used_at (i + total xs) ys"
  by (induction i xs rule: used_at.induct) (auto simp: add.assoc)

lemma used_at_free: "\<forall>b\<in>set fs. is_free b \<Longrightarrow> used_at i fs = {}"
  by (induction i fs rule: used_at.induct) auto

lemma used_at_bounds: "\<forall>b\<in>set bs. 0 < blen b \<Longrightarrow> k \<in> used_at i bs \<Longrightarrow> i \<le> k \<and> k < i + total bs"
  by (induction i bs rule: used_at.induct) force+

lemma used_at_split:
  "k \<in> used_at i bs \<Longrightarrow> \<exists>xs n ys. bs = xs @ Used n # ys \<and> k = i + total xs"
proof (induction i bs rule: used_at.induct)
  case (2 i n bs)
  show ?case
  proof (cases "k = i")
    case True
    then show ?thesis by (intro exI [of _ "[]"] exI [of _ n] exI [of _ bs]) simp
  next
    case False
    then obtain xs m ys where "bs = xs @ Used m # ys" "k = i + n + total xs" using 2 by auto
    then show ?thesis by (intro exI [of _ "Used n # xs"] exI [of _ m] exI [of _ ys]) simp
  qed
next
  case (3 i n bs)
  then obtain xs m ys where "bs = xs @ Used m # ys" "k = i + n + total xs" by auto
  then show ?case by (intro exI [of _ "Free n # xs"] exI [of _ m] exI [of _ ys]) simp
qed simp

lemma chain_pos: "chain h i bs \<Longrightarrow> \<forall>b\<in>set bs. 0 < blen b"
  by (induction bs arbitrary: i) auto

definition live_at :: "mstate \<Rightarrow> block list \<Rightarrow> addr set" where
  "live_at st bs = chunk_ptr st ` used_at 0 bs"

definition malloc_live :: "byte_order \<Rightarrow> mstate \<Rightarrow> addr set" where
  "malloc_live bo st = \<Union> {live_at st bs | bs. heap_ok bo st bs}"

definition malloc_invar :: "byte_order \<Rightarrow> mstate \<Rightarrow> bool" where
  "malloc_invar bo st \<longleftrightarrow> (\<exists>bs. heap_ok bo st bs)"

lemma malloc_live_ok: "heap_ok bo st bs \<Longrightarrow> malloc_live bo st = live_at st bs"
  using heap_ok_unique [of bo st] by (auto simp: malloc_live_def)

lemma chunk_ptr_inj: "i < 2 ^ 26 \<Longrightarrow> j < 2 ^ 26 \<Longrightarrow> chunk_ptr st i = chunk_ptr st j \<longleftrightarrow> i = j"
  using of_nat_eq_u32 [of "4 * (i + 1)" "4 * (j + 1)"] by (auto simp: chunk_ptr_def simp del: of_nat_mult of_nat_add)

lemma used_at_heap: "heap_ok bo st bs \<Longrightarrow> k \<in> used_at 0 bs \<Longrightarrow> k < 2 ^ 26"
  using used_at_bounds [OF chain_pos [OF heap_okD(4)], of bo st bs k 0] heap_okD(2) [of bo st bs] by auto

lemma live_insert:
  assumes ok: "heap_ok bo st (xs @ Free l # ys)" and sz: "0 < sz" "sz \<le> l"
    and ok': "heap_ok bo st' (xs @ split_block sz l @ ys)" and h: "ms_heap st' = ms_heap st"
  shows "chunk_ptr st (total xs) \<notin> malloc_live bo st"
    "malloc_live bo st' = insert (chunk_ptr st (total xs)) (malloc_live bo st)"
proof -
  note d = heap_okD [OF ok]
  have t: "total xs < 2 ^ 26" using d(2) by simp
  have p: "\<forall>b\<in>set (xs @ Free l # ys). 0 < blen b" using chain_pos [OF d(4)] .
  have "total xs \<notin> used_at 0 (xs @ Free l # ys)"
    using used_at_bounds [of xs "total xs" 0] used_at_bounds [of ys "total xs" "total xs + l"] p
    by (auto simp: used_at_append)
  then show "chunk_ptr st (total xs) \<notin> malloc_live bo st"
    using t used_at_heap [OF ok] chunk_ptr_inj [of "total xs" _ st]
    by (auto simp: malloc_live_ok [OF ok] live_at_def)
  have "used_at 0 (xs @ split_block sz l @ ys) = insert (total xs) (used_at 0 (xs @ Free l # ys))"
    using sz by (auto simp: split_block_def used_at_append)
  then show "malloc_live bo st' = insert (chunk_ptr st (total xs)) (malloc_live bo st)"
    using h by (simp add: malloc_live_ok [OF ok] malloc_live_ok [OF ok'] live_at_def chunk_ptr_def)
qed

lemma live_remove:
  assumes ok: "heap_ok bo st (xs @ Used n # fs @ ys)" and fs: "\<forall>b\<in>set fs. is_free b"
    and ok': "heap_ok bo st' (xs @ Free (n + total fs) # ys)" and h: "ms_heap st' = ms_heap st"
  shows "malloc_live bo st' = malloc_live bo st - {chunk_ptr st (total xs)}"
proof -
  note d = heap_okD [OF ok]
  have p: "\<forall>b\<in>set (xs @ Used n # fs @ ys). 0 < blen b" using chain_pos [OF d(4)] .
  have "total xs \<notin> used_at 0 xs \<union> used_at (total xs + n + total fs) ys"
    using used_at_bounds [of xs "total xs" 0] used_at_bounds [of ys "total xs" "total xs + n + total fs"] p
    by auto
  then have u: "used_at 0 (xs @ Free (n + total fs) # ys) = used_at 0 (xs @ Used n # fs @ ys) - {total xs}"
    using used_at_free [OF fs] by (auto simp: used_at_append add.assoc)
  have "total xs < 2 ^ 26" using d(2) by simp
  then have "inj_on (chunk_ptr st) (insert (total xs) (used_at 0 (xs @ Used n # fs @ ys)))"
    using used_at_heap [OF ok] chunk_ptr_inj [of _ _ st] by (intro inj_onI) auto
  then have "chunk_ptr st ` (used_at 0 (xs @ Used n # fs @ ys) - {total xs}) =
      chunk_ptr st ` used_at 0 (xs @ Used n # fs @ ys) - chunk_ptr st ` {total xs}"
    by (rule inj_on_image_set_diff) auto
  then show ?thesis using u h
    by (simp add: malloc_live_ok [OF ok] malloc_live_ok [OF ok'] live_at_def chunk_ptr_def)
qed

text \<open>The two outcomes of malloc on a well-formed heap.\<close>

lemma malloc_outcome:
  assumes ok: "heap_ok bo st bs" and n: "unat n \<le> 2 ^ 32 - 4"
  obtains (fail) "malloc bo bd e st n = Some (st, 0)"
  | (take) xs l ys st' where "bs = xs @ Free l # ys" "0 < chunk_words n" "chunk_words n \<le> l"
      "malloc bo bd e st n = Some (st', chunk_ptr st (total xs))" "chunk_ptr st (total xs) \<noteq> 0"
      "heap_ok bo st' (xs @ split_block (chunk_words n) l @ ys)" "ms_heap st' = ms_heap st"
proof (cases "n = 0 \<or> (\<forall>k. Free k \<in> set bs \<longrightarrow> k < chunk_words n)")
  case True
  then show ?thesis using malloc_cases [OF ok _ n refl, of bd e] fail by (cases "n = 0") (auto simp: malloc_def)
next
  case False
  then obtain xs l ys st' where b: "bs = xs @ Free l # ys" "chunk_words n \<le> l"
    "malloc bo bd e st n = Some (st', chunk_ptr st (total xs))"
    "heap_ok bo st' (xs @ split_block (chunk_words n) l @ ys)"
    "changed_words bo st st' {total xs, total xs + chunk_words n}"
    using malloc_cases [OF ok _ n refl, of bd e] by (auto simp: not_less)
  have "0 < l" using chain_pos [OF heap_okD(4) [OF ok]] b(1) by simp
  then have "chunk_ptr st (total xs) \<noteq> 0"
    using heap_okD(1,3) [OF ok] b(1) by (intro chunk_ptr_nonzero) auto
  then show ?thesis using b(5)
    by (intro take [OF b(1) _ b(2,3) _ b(4)]) (simp_all add: chunk_words_def changed_words_def)
qed

interpretation ml: allocator "malloc bo bd e" "free bo" "malloc_invar bo" "malloc_live bo"
proof
  fix h h' :: mstate and n :: u32 and p :: addr
  assume i: "malloc_invar bo h" and n: "unat n \<le> 2 ^ 32 - 4"
  then obtain bs where ok: "heap_ok bo h bs" by (auto simp: malloc_invar_def)
  show "malloc bo bd e h n \<noteq> None"
    by (rule malloc_outcome [OF ok n, of bd e]) simp_all
  show "malloc bo bd e h n = Some (h', p) \<Longrightarrow> malloc_invar bo h'"
    using i by (cases rule: malloc_outcome [OF ok n, of bd e]) (auto simp: malloc_invar_def)
  show "malloc bo bd e h n = Some (h', 0) \<Longrightarrow> malloc_live bo h' = malloc_live bo h"
    by (cases rule: malloc_outcome [OF ok n, of bd e]) auto
  show "p \<notin> malloc_live bo h \<and> malloc_live bo h' = insert p (malloc_live bo h)"
    if m: "malloc bo bd e h n = Some (h', p)" and p: "p \<noteq> 0"
  proof (cases rule: malloc_outcome [OF ok n, of bd e, case_names fail take])
    case fail
    then show ?thesis using m p by simp
  next
    case (take xs l ys st')
    then show ?thesis using m live_insert [OF ok [unfolded take(1)] take(2,3,6,7)] by simp
  qed
next
  fix h :: mstate and p :: addr
  assume i: "malloc_invar bo h" and p: "p \<in> malloc_live bo h"
  then obtain bs where ok: "heap_ok bo h bs" by (auto simp: malloc_invar_def)
  then obtain k where k: "k \<in> used_at 0 bs" "p = chunk_ptr h k" using p by (auto simp: malloc_live_ok live_at_def)
  then obtain xs n ys where b: "bs = xs @ Used n # ys" "k = total xs" using used_at_split [OF k(1)] by auto
  obtain fs ys' where y: "ys = fs @ ys'" "\<forall>b\<in>set fs. is_free b" "ys' = [] \<or> \<not> is_free (hd ys')"
    by (rule free_prefix_split)
  have ok1: "heap_ok bo h (xs @ Used n # fs @ ys')" using ok b y by simp
  from free_merges [OF ok1 y(2,3)] obtain st' where f: "free bo h p = Some (Ret st')"
    "heap_ok bo st' (xs @ Free (n + total fs) # ys')" "ms_heap st' = ms_heap h"
    using k b by (auto simp: changed_words_def)
  then show "\<exists>h'. free bo h p = Some (Ret h') \<and> malloc_invar bo h' \<and> malloc_live bo h' = malloc_live bo h - {p}"
    using live_remove [OF ok1 y(2) f(2,3)] k(2) b(2) by (auto simp: malloc_invar_def)
qed (simp add: free_def)

interpretation zl: zero_allocator "malloc bo bd e" "free bo" "malloc_invar bo" "malloc_live bo" "calloc bo bd e"
proof
  fix h :: mstate and n s :: u32
  assume i: "malloc_invar bo h" and n: "unat (n * s) \<le> 2 ^ 32 - 4"
  then obtain bs where ok: "heap_ok bo h bs" by (auto simp: malloc_invar_def)
  obtain h1 p where m: "malloc bo bd e h (n * s) = Some (h1, p)" using ml.alloc_returns [OF i n, of bd e] by auto
  show "\<exists>h' p. calloc bo bd e h n s = Some (h', p) \<and> malloc_invar bo h' \<and>
      (if p = 0 then malloc_live bo h' = malloc_live bo h
       else p \<notin> malloc_live bo h \<and> malloc_live bo h' = insert p (malloc_live bo h))"
  proof (cases "p = 0")
    case True
    then show ?thesis using m ml.alloc_invar [OF i n m] ml.alloc_null [OF i n, of bd e h1] by (simp add: calloc_def)
  next
    case False
    then obtain h' where c: "calloc bo bd e h n s = Some (h', p)" using m by (simp add: calloc_def)
    have nz: "n * s \<noteq> 0" using m False by (auto simp: malloc_def)
    obtain xs l ys where b: "bs = xs @ Free l # ys" "p = chunk_ptr h (total xs)"
      "heap_ok bo h' (xs @ split_block (chunk_words (n * s)) l @ ys)" "chunk_words (n * s) \<le> l" "ms_heap h' = ms_heap h"
      using calloc_zeroes [OF ok refl nz n c False] by metis
    have "0 < chunk_words (n * s)" by (simp add: chunk_words_def)
    then show ?thesis
      using live_insert [OF ok [unfolded b(1)] _ b(4,3,5)] b(2,3) c False by (auto simp: malloc_invar_def)
  qed
qed

text \<open>Every block lies above the start of the heap, which no operation moves.\<close>

definition below_heap :: "mstate \<Rightarrow> addr set" where
  "below_heap st = {p. p < ms_heap st}"

lemma live_above_heap:
  assumes ok: "heap_ok bo st bs" and p: "p \<in> malloc_live bo st"
  shows "p \<notin> below_heap st \<and> p \<noteq> 0"
proof -
  obtain k where k: "k \<in> used_at 0 bs" "p = chunk_ptr st k" using p by (auto simp: malloc_live_ok [OF ok] live_at_def)
  then obtain xs n ys where b: "bs = xs @ Used n # ys" "k = total xs" using used_at_split [OF k(1)] by auto
  have "0 < n" using chain_pos [OF heap_okD(4) [OF ok]] b(1) by simp
  then have le: "unat (ms_heap st) + 4 * (k + 1) < 2 ^ 32" using heap_okD(3) [OF ok] b by simp
  have "unat (of_nat (4 * (k + 1)) :: u32) = 4 * (k + 1)" using le by (intro unat_of_nat_lt) simp
  then have "unat p = unat (ms_heap st) + 4 * (k + 1)"
    using le by (simp add: k(2) chunk_ptr_def unat_plus_if' del: of_nat_mult)
  then show ?thesis by (auto simp: below_heap_def word_less_nat_alt)
qed

interpretation hl: heap_allocator "malloc bo bd e" "free bo" "malloc_invar bo" "malloc_live bo" "calloc bo bd e" below_heap
proof
  fix h h' :: mstate and n s :: u32 and p :: addr
  assume i: "malloc_invar bo h"
  then obtain bs where ok: "heap_ok bo h bs" by (auto simp: malloc_invar_def)
  show "malloc_live bo h \<inter> below_heap h = {}" "0 \<notin> malloc_live bo h" using live_above_heap [OF ok] by auto
  have mh: "ms_heap h1 = ms_heap h" if "unat n \<le> 2 ^ 32 - 4" "malloc bo bd e h n = Some (h1, p)" for n h1 p
    using that by (cases rule: malloc_outcome [OF ok that(1), of bd e]) auto
  show "below_heap h' = below_heap h" if "unat n \<le> 2 ^ 32 - 4" "malloc bo bd e h n = Some (h', p)"
    using mh [OF that] by (simp add: below_heap_def)
  show "below_heap h' = below_heap h" if "unat (n * s) \<le> 2 ^ 32 - 4" "calloc bo bd e h n s = Some (h', p)"
    using that(2) mh [OF that(1)] by (auto simp: below_heap_def calloc_def Let_def split: option.splits if_splits)
  show "below_heap h' = below_heap h" if "p \<in> malloc_live bo h" "free bo h p = Some (Ret h')"
    using that(2) by (auto simp: free_def Let_def below_heap_def heap_set_def split: if_splits)
qed

text \<open>A realloc that fails releases the old block, unlike C specifies.\<close>

lemma realloc_fail_releases:
  "malloc bo bd e st size0 = Some (st, 0) \<Longrightarrow> free bo st old = Some (Ret st') \<Longrightarrow>
   realloc bo bd e st old size0 = Some (Ret (st', 0))"
  by (simp add: realloc_def Let_def)

section \<open>Properties\<close>

text \<open>Two small heaps at address 64, to run the operations on.\<close>

definition demo_heap :: mstate where
  "demo_heap = heap_set LITTLE_ENDIAN \<lparr>ms_heap = 64, ms_mem = \<lambda>_. 0\<rparr> (of_nat 0) (SET_FREE (of_nat 10))"

definition demo_heap2 :: mstate where
  "demo_heap2 = heap_set LITTLE_ENDIAN (heap_set LITTLE_ENDIAN \<lparr>ms_heap = 64, ms_mem = \<lambda>_. 0\<rparr>
     (of_nat 0) (of_nat 3)) (of_nat 3) (SET_FREE (of_nat 7))"

definition demo_board :: board where
  "demo_board = \<lparr>bd_dec = Some, bd_bus = \<lambda>_. 0\<rparr>"

lemma malloc_heap_fit:
  assumes "heap_ok bo st bs" "size0 \<noteq> 0" "unat size0 \<le> 2 ^ 32 - 4"
    "best_fit (chunk_words size0) 0 bs None = Some (p, l)"
  shows "\<exists>st'. malloc bo bd e st size0 = Some (st', chunk_ptr st p)"
  using malloc_heap [OF assms(1-3) refl, of bd e] assms(4) by auto

lemma demo_heap_ok: "heap_ok LITTLE_ENDIAN demo_heap [Free 10]"
  "heap_ok LITTLE_ENDIAN demo_heap2 [Used 3, Free 7]"
proof -
  have z: "heap_word LITTLE_ENDIAN \<lparr>ms_heap = 64, ms_mem = \<lambda>_. 0\<rparr> k = 0" for k
    by (simp add: heap_word_def heap_get_def load_word_def)
  have "heap_word LITTLE_ENDIAN demo_heap k = (if k = 0 then SET_FREE (of_nat 10) else 0)" if "k \<le> 10" for k
    using that unfolding demo_heap_def by (subst heap_word_set) (simp_all add: z)
  then show "heap_ok LITTLE_ENDIAN demo_heap [Free 10]"
    by (simp add: heap_ok_def) (simp add: demo_heap_def heap_set_def)
  have 1: "heap_word LITTLE_ENDIAN (heap_set LITTLE_ENDIAN \<lparr>ms_heap = 64, ms_mem = \<lambda>_. 0\<rparr> (of_nat 0) (of_nat 3)) k =
      (if k = 0 then of_nat 3 else 0)" if "k \<le> 10" for k
    using that by (subst heap_word_set) (simp_all add: z)
  have "heap_word LITTLE_ENDIAN demo_heap2 k = (if k = 3 then SET_FREE (of_nat 7) else if k = 0 then of_nat 3 else 0)"
    if "k \<le> 10" for k
    using that 1 [OF that] unfolding demo_heap2_def by (subst heap_word_set) simp_all
  then show "heap_ok LITTLE_ENDIAN demo_heap2 [Used 3, Free 7]"
    by (simp add: heap_ok_def) (simp add: demo_heap2_def heap_set_def)
qed

text \<open>C1: malloc on a well-formed heap, for every request that does not wrap around: it returns
  NULL and changes nothing exactly when no free block is large enough; otherwise it takes
  a free block of minimal sufficient length, splits off what is left as a free block,
  returns the address after the descriptor, keeps the heap well-formed and changes no
  memory but the two descriptor words inside the chosen block.\<close>
theorem malloc_best_fit:
  assumes "heap_ok bo st bs" "size0 \<noteq> 0" "unat size0 \<le> 2 ^ 32 - 4" "sz = chunk_words size0"
  shows "((\<forall>n. Free n \<in> set bs \<longrightarrow> n < sz) \<longrightarrow> malloc bo bd e st size0 = Some (st, 0)) \<and>
    ((\<exists>n. Free n \<in> set bs \<and> sz \<le> n) \<longrightarrow>
      (\<exists>xs l ys st'. bs = xs @ Free l # ys \<and> sz \<le> l \<and>
         (\<forall>n. Free n \<in> set bs \<and> sz \<le> n \<longrightarrow> l \<le> n) \<and>
         malloc bo bd e st size0 = Some (st', chunk_ptr st (total xs)) \<and>
         heap_ok bo st' (xs @ split_block sz l @ ys) \<and>
         changed_words bo st st' {total xs, total xs + sz}))"
  using assms by (rule malloc_cases)

theorem malloc_best_fit_witness:
  "\<exists>st'. malloc LITTLE_ENDIAN demo_board 64 demo_heap 8 = Some (st', 68) \<and>
     heap_ok LITTLE_ENDIAN st' [Used 3, Free 7]"
proof -
  have "chunk_words 8 = 3" by (simp add: chunk_words_def)
  moreover have "chunk_ptr demo_heap 0 = 68" by (simp add: chunk_ptr_def demo_heap_def heap_set_def)
  ultimately show ?thesis
    using malloc_best_fit [OF demo_heap_ok(1), of 8 3 demo_board 64]
    by (auto simp: Cons_eq_append_conv split_block_def)
qed

text \<open>C2: free of an allocated block merges it with all free blocks that follow it directly and
  keeps the heap well-formed; only the descriptor of the freed block changes.\<close>
theorem free_coalesces:
  assumes "heap_ok bo st (xs @ Used n # fs @ ys)" "\<forall>b\<in>set fs. is_free b"
    "ys = [] \<or> \<not> is_free (hd ys)"
  shows "\<exists>st'. free bo st (chunk_ptr st (total xs)) = Some (Ret st') \<and>
    heap_ok bo st' (xs @ Free (n + total fs) # ys) \<and> changed_words bo st st' {total xs}"
  using assms by (rule free_merges)

theorem free_coalesces_witness:
  "\<exists>st'. free LITTLE_ENDIAN demo_heap2 68 = Some (Ret st') \<and> heap_ok LITTLE_ENDIAN st' [Free 10]"
proof -
  have "chunk_ptr demo_heap2 0 = 68" by (simp add: chunk_ptr_def demo_heap2_def heap_set_def)
  then show ?thesis
    using free_coalesces [of LITTLE_ENDIAN demo_heap2 "[]" 3 "[Free 7]" "[]"] demo_heap_ok(2) by auto
qed

text \<open>C37: Freeing a block that is free already ends the program with status 1.\<close>
theorem free_twice_exits:
  assumes "heap_ok bo st (xs @ Free n # ys)"
  shows "free bo st (chunk_ptr st (total xs)) = Some (Exit 1)"
  using assms by (rule free_of_free)

theorem free_twice_exits_witness: "free LITTLE_ENDIAN demo_heap2 80 = Some (Exit 1)"
proof -
  have "chunk_ptr demo_heap2 3 = 80" by (simp add: chunk_ptr_def demo_heap2_def heap_set_def)
  then show ?thesis using free_twice_exits [of LITTLE_ENDIAN demo_heap2 "[Used 3]" 7 "[]"] demo_heap_ok(2) by simp
qed

text \<open>C3: Any sequence of allocations, frees of allocated blocks and writes into allocated
  blocks keeps the heap a chain of blocks that covers the same words.\<close>
theorem heap_reachable_ok:
  assumes "(heap_step bo bd e)\<^sup>*\<^sup>* st st'" "heap_ok bo st bs"
  shows "\<exists>bs'. heap_ok bo st' bs' \<and> total bs' = total bs \<and> ms_heap st' = ms_heap st"
  using assms by (rule heap_steps_ok)

theorem heap_reachable_ok_witness:
  "\<exists>st'. heap_step LITTLE_ENDIAN demo_board 64 demo_heap2 st' \<and>
     (\<exists>bs'. heap_ok LITTLE_ENDIAN st' bs' \<and> total bs' = 10)"
proof -
  obtain st' where s: "heap_step LITTLE_ENDIAN demo_board 64 demo_heap2 st'"
    using step_free [of LITTLE_ENDIAN demo_heap2 "[]" 3 "[Free 7]"] demo_heap_ok(2)
      free_any [of LITTLE_ENDIAN demo_heap2 "[]" 3 "[Free 7]"]
    by (metis append_Nil total_simps(1))
  then show ?thesis
    using heap_reachable_ok [OF r_into_rtranclp [of "heap_step LITTLE_ENDIAN demo_board 64"] demo_heap_ok(2)]
    by fastforce
qed

text \<open>C9: realloc of an allocated block, when the new block can be allocated, keeps the
  contents up to the smaller of the two sizes, releases the old block and leaves a
  well-formed heap.\<close>
theorem realloc_keeps_contents:
  assumes "heap_ok bo st (xs @ Used n # ys)" "size0 \<noteq> 0" "unat size0 \<le> 2 ^ 32 - 4"
    "malloc bo bd e st size0 = Some (st1, p)" "p \<noteq> 0" "old = chunk_ptr st (total xs)"
  shows "\<exists>st' bs'. realloc bo bd e st old size0 = Some (Ret (st', p)) \<and> heap_ok bo st' bs' \<and>
    (\<forall>k < min (unat size0) (4 * (n - 1)). ms_mem st' (p + of_nat k) = ms_mem st (old + of_nat k))"
  using assms by (rule realloc_copies)

theorem realloc_keeps_contents_witness:
  "\<exists>st' bs'. realloc LITTLE_ENDIAN demo_board 64 demo_heap2 68 4 = Some (Ret (st', 80)) \<and>
     heap_ok LITTLE_ENDIAN st' bs'"
proof -
  have c: "chunk_ptr demo_heap2 3 = 80" "chunk_ptr demo_heap2 0 = 68" "chunk_words 4 = 2"
    by (simp_all add: chunk_ptr_def demo_heap2_def heap_set_def chunk_words_def)
  have "\<exists>st1. malloc LITTLE_ENDIAN demo_board 64 demo_heap2 4 = Some (st1, 80)"
    using malloc_heap_fit [OF demo_heap_ok(2), of 4 3 7 demo_board 64] c by simp
  then obtain st1 where "malloc LITTLE_ENDIAN demo_board 64 demo_heap2 4 = Some (st1, 80)" by blast
  moreover have "heap_ok LITTLE_ENDIAN demo_heap2 ([] @ Used 3 # [Free 7])" using demo_heap_ok(2) by simp
  ultimately show ?thesis using realloc_keeps_contents [of LITTLE_ENDIAN demo_heap2 "[]" 3 "[Free 7]" 4 demo_board 64 st1 80 68] c(2)
    by (simp del: append.simps) blast
qed

text \<open>C10: On a board with one memory of 2^(k+2) bytes, 4 KB to 256 MB, that repeats through
  the address space, the probing loop of malloc_init ends, finds the size of the memory
  and sets up a heap of one free block that reaches from the end of the program to the
  space reserved for the stack.\<close>
theorem malloc_init_sizes_ram:
  assumes "mirrored_ram bd base k" "base = 0 \<or> base = 0x80000000" "10 \<le> k" "k \<le> 26"
    "end0 = base + of_nat E" "E mod 4 = 0" "end0 \<noteq> 0" "E + stack_reserve base + 8 \<le> 2 ^ (k + 2)"
  shows "\<exists>st'. malloc_init bo bd end0 st = Some st' \<and>
    heap_ok bo st' [Free ((2 ^ (k + 2) - stack_reserve base - E) div 4 - 1)]"
  using assms by (rule malloc_init_ok)

theorem malloc_init_sizes_ram_witness:
  "\<exists>st'. malloc_init BIG_ENDIAN \<lparr>bd_dec = (\<lambda>a. Some (of_nat (unat a mod 2 ^ 14))), bd_bus = \<lambda>_. 0\<rparr> 0x400
       \<lparr>ms_heap = 0, ms_mem = \<lambda>_. 7\<rparr> = Some st' \<and> heap_ok BIG_ENDIAN st' [Free 2815]"
proof -
  have "mirrored_ram \<lparr>bd_dec = (\<lambda>a. Some (of_nat (unat a mod 2 ^ 14))), bd_bus = \<lambda>_. 0\<rparr> 0 12"
    by (auto simp: mirrored_ram_def unsigned_of_nat take_bit_eq_mod mod_mod_cancel)
  then show ?thesis
    using malloc_init_sizes_ram [of _ 0 12 1024 1024 BIG_ENDIAN] by (simp add: stack_reserve_def)
qed

text \<open>calloc, when number * size does not wrap around and a block is found, returns a
  block taken from the heap as malloc does, all of whose requested bytes are zero.\<close>
theorem calloc_zeroed:
  assumes "heap_ok bo st bs" "len = number * size0" "len \<noteq> 0" "unat len \<le> 2 ^ 32 - 4"
    "calloc bo bd e st number size0 = Some (st', p)" "p \<noteq> 0"
  shows "\<exists>xs l ys. bs = xs @ Free l # ys \<and> p = chunk_ptr st (total xs) \<and>
    heap_ok bo st' (xs @ split_block (chunk_words len) l @ ys) \<and>
    (\<forall>x\<in>region p (unat len). ms_mem st' x = 0)"
  using calloc_zeroes [OF assms] by blast

theorem calloc_zeroed_witness:
  "\<exists>st'. calloc LITTLE_ENDIAN demo_board 64 demo_heap 2 4 = Some (st', 68) \<and>
     (\<forall>x\<in>region 68 8. ms_mem st' x = 0)"
proof -
  have c: "chunk_ptr demo_heap 0 = 68" "chunk_words 8 = 3"
    by (simp_all add: chunk_ptr_def demo_heap_def heap_set_def chunk_words_def)
  have "\<exists>st1. malloc LITTLE_ENDIAN demo_board 64 demo_heap 8 = Some (st1, 68)"
    using malloc_heap_fit [OF demo_heap_ok(1), of 8 0 10 demo_board 64] c by simp
  then have "\<exists>st'. calloc LITTLE_ENDIAN demo_board 64 demo_heap 2 4 = Some (st', 68)"
    by (auto simp: calloc_def)
  then show ?thesis
    using calloc_zeroed [OF demo_heap_ok(1) refl, of 2 4 demo_board 64] by fastforce
qed

text \<open>C23: Allocations that succeed one after the other return distinct addresses, none of
  them NULL and none of them live before; releasing them all gives back the live set
  there was.\<close>
theorem malloc_run_distinct:
  assumes "malloc_invar bo h" "\<forall>n\<in>set ns. unat n \<le> 2 ^ 32 - 4"
  shows "\<exists>h' ps h''. ml.alloc_run bo bd e h ns = Some (h', ps) \<and> distinct ps \<and> 0 \<notin> set ps \<and>
    set ps \<inter> malloc_live bo h = {} \<and> malloc_live bo h' = malloc_live bo h \<union> set ps \<and>
    ml.release_run bo h' ps = Some (Ret h'') \<and> malloc_live bo h'' = malloc_live bo h"
proof -
  obtain h' ps where a: "ml.alloc_run bo bd e h ns = Some (h', ps)" "malloc_invar bo h'" "distinct ps"
    "0 \<notin> set ps" "set ps \<inter> malloc_live bo h = {}" "malloc_live bo h' = malloc_live bo h \<union> set ps"
    using ml.alloc_run_distinct [OF assms] by blast
  then obtain h'' where "ml.release_run bo h' ps = Some (Ret h'')" "malloc_live bo h'' = malloc_live bo h' - set ps"
    using ml.release_run_live [OF a(2,3)] by blast
  then show ?thesis using a by blast
qed

theorem malloc_run_distinct_witness:
  "\<exists>h' ps. ml.alloc_run LITTLE_ENDIAN demo_board 64 demo_heap [4, 8] = Some (h', ps) \<and> distinct ps"
proof -
  have "malloc_invar LITTLE_ENDIAN demo_heap" using demo_heap_ok(1) by (auto simp: malloc_invar_def)
  from malloc_run_distinct [OF this, of "[4, 8]" demo_board 64] show ?thesis
    by (auto simp del: ml.alloc_run.simps)
qed

end
