(* ===== verification/File_Props.thy ===== *)
theory File_Props
  imports Files Malloc_Props
begin

text \<open>
  The descriptor table: the reference counts, the descriptor a new file gets,
  and what close leaves behind.
\<close>

section \<open>Sequencing\<close>

lemma kbind_simps [simp]:
  "kbind None f = None" "kbind (Some (Ret x)) f = f x" "kbind (Some (Exit c)) f = Some (Exit c)"
  by (simp_all add: kbind_def)

lemma kbind_RetE [elim!]:
  assumes "kbind r f = Some (Ret y)"
  obtains x where "r = Some (Ret x)" "f x = Some (Ret y)"
  using assms by (auto simp: kbind_def split: option.splits exec.splits)

section \<open>The invariant of the descriptor table\<close>

abbreviation files_of :: "('h, 'd, 'f) kern \<Rightarrow> addr list" where
  "files_of k \<equiv> ts_files (k_task k)"

definition refs_ok :: "('h, 'd, 'f) kern \<Rightarrow> bool" where
  "refs_ok k \<longleftrightarrow> length (files_of k) = ts_maxfiles (k_task k) \<and> 0 < ts_maxfiles (k_task k) \<and>
     list_all (\<lambda>p. p \<noteq> 0 \<longrightarrow> unat (f_refc (k_files k p)) = count_list (files_of k) p) (files_of k)"

lemma refs_okD:
  assumes "refs_ok k"
  shows "length (files_of k) = ts_maxfiles (k_task k)" "0 < ts_maxfiles (k_task k)"
    "p \<in> set (files_of k) \<Longrightarrow> p \<noteq> 0 \<Longrightarrow> unat (f_refc (k_files k p)) = count_list (files_of k) p"
  using assms by (auto simp: refs_ok_def list_all_iff)

lemma count_notin_pos: "i < length xs \<Longrightarrow> 0 < count_list xs (xs ! i)"
  using count_list_0_iff [of xs "xs ! i"] by auto

lemma count_list_update:
  "i < length xs \<Longrightarrow> count_list (xs[i := y]) p =
     count_list xs p - (if xs ! i = p then 1 else 0) + (if y = p then 1 else 0)"
proof (induction xs arbitrary: i)
  case (Cons a xs)
  then show ?case
    by (cases i) (auto simp: Suc_diff_le Suc_leI count_notin_pos)
qed simp

lemma fd_scan_first:
  "nfds \<le> length files \<Longrightarrow>
   (if \<forall>i\<in>{lo..<nfds}. files ! i \<noteq> 0 then fd_scan files lo nfds = - 1
    else \<exists>n. fd_scan files lo nfds = int n \<and> lo \<le> n \<and> n < nfds \<and> files ! n = 0 \<and> (\<forall>i\<in>{lo..<n}. files ! i \<noteq> 0))"
proof (induction files lo nfds rule: fd_scan.induct)
  case (1 files lo nfds)
  consider "\<not> lo < nfds" | "lo < nfds" "files ! lo = 0" | "lo < nfds" "files ! lo \<noteq> 0" by auto
  then show ?case
  proof cases
    case 3
    have s: "{lo..<n} = insert lo {Suc lo..<n}" if "lo < n" for n using that by auto
    show ?thesis
      using "1.IH" [OF 3 "1.prems"] 3 fd_scan.simps [of files lo nfds]
      by (auto simp: s split: if_splits dest: Suc_le_lessD)
  qed (auto simp: fd_scan.simps [of files lo nfds])
qed

lemma fd_refE:
  assumes r: "fd_ref e fp k = Some (Ret (fd, k'))" and len: "length (files_of k) = ts_maxfiles (k_task k)"
  obtains (none) h where "fd = - 1" "k' = k\<lparr>k_heap := h\<rparr>"
  | (slot) n where "fd = int n" "n < ts_maxfiles (k_task k)" "files_of k ! n = 0" "\<forall>i<n. files_of k ! i \<noteq> 0"
      "fp \<noteq> 0" "k' = fd_bind n fp k"
  | (grow) n h tab where "fd = int n" "n = ts_maxfiles (k_task k)" "0 \<notin> set (files_of k)" "fp \<noteq> 0"
      "k' = fd_bind n fp (k\<lparr>k_heap := h, k_task := (k_task k)\<lparr>ts_files := files_of k @ replicate n 0,
         ts_maxfiles := 2 * n\<rparr>, k_table := tab\<rparr>)"
proof (cases "fp = 0")
  case True
  then show ?thesis using r none [of "k_heap k"] by (simp add: fd_ref_def)
next
  case False
  show ?thesis
  proof (cases "\<forall>i\<in>{0..<ts_maxfiles (k_task k)}. files_of k ! i \<noteq> 0")
    case True
    have s: "fd_findfree (k_task k) 0 = - 1"
      using fd_scan_first [of "ts_maxfiles (k_task k)" "files_of k" 0] len
      unfolding fd_findfree_def if_P [OF True] by simp
    have z: "0 \<notin> set (files_of k)" using True len by (auto simp: in_set_conv_nth)
    show ?thesis using r False unfolding fd_ref_def s Let_def
      by (auto simp: k_calloc_def k_free_def split: if_splits exec.splits)
        ((rule none; assumption) | (rule grow [OF _ refl z False]; assumption))+
  next
    case no: False
    then obtain n where n: "fd_findfree (k_task k) 0 = int n" "n < ts_maxfiles (k_task k)" "files_of k ! n = 0"
      "\<forall>i\<in>{0..<n}. files_of k ! i \<noteq> 0"
      using fd_scan_first [of "ts_maxfiles (k_task k)" "files_of k" 0] len
      unfolding fd_findfree_def if_not_P [OF no] by auto
    then show ?thesis
      using r False slot [of n] unfolding fd_ref_def Let_def n(1) by simp
  qed
qed

lemma fd_bind_simps [simp]:
  "files_of (fd_bind n fp k) = (files_of k)[n := fp]"
  "ts_maxfiles (k_task (fd_bind n fp k)) = ts_maxfiles (k_task k)"
  "k_heap (fd_bind n fp k) = k_heap k"
  "k_files (fd_bind n fp k) = (k_files k)(fp := (k_files k fp)\<lparr>f_refc := f_refc (k_files k fp) + 1\<rparr>)"
  by (simp_all add: fd_bind_def upd_file_def set_fd_def)

definition known_file :: "addr \<Rightarrow> ('h, 'd, 'f) kern \<Rightarrow> bool" where
  "known_file fp k \<longleftrightarrow> fp \<in> set (files_of k) \<or> f_refc (k_files k fp) = 0"

lemma fd_bind_refs_ok:
  assumes ok: "refs_ok k" and n: "n < ts_maxfiles (k_task k)" "files_of k ! n = 0"
    and fp: "fp \<noteq> 0" "known_file fp k" and small: "ts_maxfiles (k_task k) < 2 ^ 16"
  shows "refs_ok (fd_bind n fp k)"
proof -
  note D = refs_okD [OF ok]
  have c: "unat (f_refc (k_files k fp)) = count_list (files_of k) fp"
    using fp D(3) [of fp] by (auto simp: known_file_def count_list_0_iff)
  have "count_list (files_of k) fp < ts_maxfiles (k_task k)"
  proof -
    have "count_list ((files_of k)[n := fp]) fp \<le> length (files_of k)" 
      using count_le_length [of "(files_of k)[n := fp]" fp] by simp
    then show ?thesis using n fp D(1) by (simp add: count_list_update)
  qed
  then have inc: "unat (f_refc (k_files k fp) + 1) = count_list (files_of k) fp + 1"
    using c small by (simp add: unat_word_ariths)
  show ?thesis
    using D n fp inc set_update_subset_insert [of "files_of k" n fp]
    by (auto simp: refs_ok_def list_all_iff count_list_update)
qed

lemma fd_ref_refs_ok:
  assumes r: "fd_ref e fp k = Some (Ret (fd, k'))" and ok: "refs_ok k" and fp: "fp \<noteq> 0" "known_file fp k"
    and small: "2 * ts_maxfiles (k_task k) < 2 ^ 16"
  shows "refs_ok k'"
  using r refs_okD(1) [OF ok]
proof (cases rule: fd_refE)
  case (none h)
  then show ?thesis using ok by (simp add: refs_ok_def)
next
  case (slot n)
  then show ?thesis using ok fp small by (auto intro!: fd_bind_refs_ok)
next
  case (grow n h tab)
  let ?k = "k\<lparr>k_heap := h, k_task := (k_task k)\<lparr>ts_files := files_of k @ replicate n 0,
         ts_maxfiles := 2 * n\<rparr>, k_table := tab\<rparr>"
  have "refs_ok ?k" "known_file fp ?k"
    using ok fp grow by (auto simp: refs_ok_def list_all_iff known_file_def)
  then show ?thesis
    using grow refs_okD(1,2) [OF ok] small fp by (auto simp: nth_append intro!: fd_bind_refs_ok)
qed

section \<open>close\<close>

text \<open>The state after the descriptor is cleared and the count is decremented.\<close>

definition unref :: "nat \<Rightarrow> addr \<Rightarrow> ('h, 'd, 'f) kern \<Rightarrow> ('h, 'd, 'f) kern" where
  "unref n fp k = upd_file fp (\<lambda>f. f\<lparr>f_refc := f_refc f - 1\<rparr>) (set_fd n 0 k)"

lemma unref_simps [simp]:
  "files_of (unref n fp k) = (files_of k)[n := 0]"
  "ts_maxfiles (k_task (unref n fp k)) = ts_maxfiles (k_task k)"
  "k_heap (unref n fp k) = k_heap k" "k_fs (unref n fp k) = k_fs k"
  "k_files (unref n fp k) = (k_files k)(fp := (k_files k fp)\<lparr>f_refc := f_refc (k_files k fp) - 1\<rparr>)"
  by (simp_all add: unref_def upd_file_def set_fd_def)

lemma unref_refs_ok:
  assumes ok: "refs_ok k" and n: "n < ts_maxfiles (k_task k)" "files_of k ! n = fp" "fp \<noteq> 0"
  shows "refs_ok (unref n fp k)"
    and "unat (f_refc (k_files (unref n fp k) fp)) = count_list (files_of k) fp - 1"
proof -
  note D = refs_okD [OF ok]
  have m: "fp \<in> set (files_of k)" using n D(1) by auto
  have p: "0 < count_list (files_of k) fp" using m count_list_0_iff [of "files_of k" fp] by auto
  then have dec: "unat (f_refc (k_files k fp) - 1) = count_list (files_of k) fp - 1"
    using D(3) [OF m n(3)] by (metis unat_minus_one unat_0 less_irrefl)
  then show "unat (f_refc (k_files (unref n fp k) fp)) = count_list (files_of k) fp - 1" by simp
  show "refs_ok (unref n fp k)"
    using D n dec set_update_subset_insert [of "files_of k" n 0]
    by (auto simp: refs_ok_def list_all_iff count_list_update)
qed

lemma ffres2errno_zero [simp]: "ffres2errno 0 k = (0, k)" by (simp add: ffres2errno_def)

lemma ffres2errno_cases: "\<exists>r n. ffres2errno res k = (r, k\<lparr>k_errno := n\<rparr>) \<and> (r = 0 \<or> r = - 1)"
proof (cases "res = 0")
  case True
  then show ?thesis by (intro exI [of _ 0] exI [of _ "k_errno k"]) simp
next
  case False
  then show ?thesis unfolding ffres2errno_def set_errno_def if_not_P [OF False] by blast
qed

lemma ffres2errno_pair: "ffres2errno res k = (r, k') \<Longrightarrow> \<exists>n. k' = k\<lparr>k_errno := n\<rparr>"
  using ffres2errno_cases [of res k] by auto

text \<open>What the device specific part of close and the release of a block leave alone.\<close>

lemma fo_close_keeps:
  assumes "fo_close e fp k = Some (Ret (r, k'))"
  shows "k_task k' = k_task k \<and> k_files k' = k_files k \<and> k_heap k' = k_heap k \<and> k_table k' = k_table k"
proof (cases "f_ops (k_files k fp)")
  case (Some ops)
  then show ?thesis using assms
    by (cases ops) (auto simp: fo_close_def ff_close_def sio_close_def Let_def split: if_splits prod.splits
        dest!: ffres2errno_pair)
qed (use assms in \<open>simp add: fo_close_def\<close>)

lemma k_free_Ret:
  "k_free e p k = Some (Ret (u, k')) \<longleftrightarrow> (\<exists>h. ev_free e (k_heap k) p = Some (Ret h) \<and> k' = k\<lparr>k_heap := h\<rparr>)"
  by (cases "ev_free e (k_heap k) p" rule: option.exhaust; cases "the (ev_free e (k_heap k) p)") (auto simp: k_free_def)

lemma refs_ok_cong: "k_task k' = k_task k \<Longrightarrow> k_files k' = k_files k \<Longrightarrow> refs_ok k' = refs_ok k"
  by (simp add: refs_ok_def)

lemma fd2fp_cases:
  obtains (bad) "fd2fp fd k = (0, k\<lparr>k_errno := EBADF\<rparr>)" "fd < 0 \<or> int (ts_maxfiles (k_task k)) \<le> fd \<or> files_of k ! nat fd = 0"
  | (good) "fd2fp fd k = (files_of k ! nat fd, k)" "0 \<le> fd" "nat fd < ts_maxfiles (k_task k)" "files_of k ! nat fd \<noteq> 0"
proof (cases "fd < 0 \<or> int (ts_maxfiles (k_task k)) \<le> fd")
  case True
  then show ?thesis by (intro bad) (auto simp: fd2fp_def set_errno_def)
next
  case in_range: False
  show ?thesis
  proof (cases "files_of k ! nat fd = 0")
    case True
    then show ?thesis using in_range by (intro bad) (auto simp: fd2fp_def Let_def set_errno_def)
  next
    case False
    then show ?thesis using in_range by (intro good) (auto simp: fd2fp_def Let_def)
  qed
qed

text \<open>close on an open descriptor, in terms of \<open>unref\<close>.\<close>

lemma k_close_open:
  assumes ok: "refs_ok k" and n: "n < ts_maxfiles (k_task k)" "files_of k ! n = fp" "fp \<noteq> 0"
  shows "k_close e (int n) k =
    (if count_list (files_of k) fp \<noteq> 1 \<or> f_mflags (k_files k fp) AND F_MF_FILE_MALLOCED = 0
     then kret 0 (unref n fp k)
     else kbind (fo_close e fp (unref n fp k)) (\<lambda>(res, k).
            kbind (k_free e (f_priv (k_files k fp)) k) (\<lambda>(_, k). kbind (k_free e fp k) (\<lambda>(_, k). kret res k))))"
proof -
  have f: "fd2fp (int n) k = (fp, k)" using n by (simp add: fd2fp_def Let_def)
  have "fp \<in> set (files_of k)" using n refs_okD(1) [OF ok] by auto
  then have "0 < count_list (files_of k) fp" using count_list_0_iff [of "files_of k" fp] by auto
  then have "f_refc (k_files (unref n fp k) fp) \<noteq> 0 \<longleftrightarrow> count_list (files_of k) fp \<noteq> 1"
    using unref_refs_ok(2) [OF ok n] by (auto simp: unat_gt_0 simp flip: unat_eq_zero)
  then show ?thesis using n f by (simp add: k_close_def Let_def flip: unref_def)
qed

lemma k_close_refs_ok:
  assumes ok: "refs_ok k" and c: "k_close e fd k = Some (Ret (r, k'))"
  shows "refs_ok k'"
    "if 0 \<le> fd \<and> nat fd < ts_maxfiles (k_task k) \<and> files_of k ! nat fd \<noteq> 0 then files_of k' = (files_of k)[nat fd := 0]
     else r = - 1 \<and> k' = k\<lparr>k_errno := EBADF\<rparr>"
proof -
  have "refs_ok k' \<and> (if 0 \<le> fd \<and> nat fd < ts_maxfiles (k_task k) \<and> files_of k ! nat fd \<noteq> 0
      then files_of k' = (files_of k)[nat fd := 0] else r = - 1 \<and> k' = k\<lparr>k_errno := EBADF\<rparr>)"
  proof (cases rule: fd2fp_cases [of fd k, case_names bad good])
    case bad
    then show ?thesis using c ok by (auto simp: k_close_def refs_ok_def)
  next
    case good
    let ?u = "unref (nat fd) (files_of k ! nat fd) k"
    have c': "k_close e (int (nat fd)) k = Some (Ret (r, k'))" using c good(2) by simp
    have "k_task k' = k_task ?u \<and> k_files k' = k_files ?u"
      using c' unfolding k_close_open [OF ok good(3) refl good(4), of e]
      by (auto simp: k_free_Ret split: if_splits dest!: fo_close_keeps)
    then show ?thesis using unref_refs_ok(1) [OF ok good(3) refl good(4)] refs_ok_cong [of k' ?u] good by simp
  qed
  then show "refs_ok k'" "if 0 \<le> fd \<and> nat fd < ts_maxfiles (k_task k) \<and> files_of k ! nat fd \<noteq> 0
      then files_of k' = (files_of k)[nat fd := 0] else r = - 1 \<and> k' = k\<lparr>k_errno := EBADF\<rparr>" by auto
qed

section \<open>The kernel over an allocator\<close>

text \<open>The live blocks other than the descriptor table, and the invariant of the state: every open
  file is a live block or one of the program's own objects.\<close>

definition blocks :: "('h \<Rightarrow> addr set) \<Rightarrow> ('h, 'd, 'f) kern \<Rightarrow> addr set" where
  "blocks live k = live (k_heap k) - (if 3 < ts_maxfiles (k_task k) then {k_table k} else {})"

definition kern_ok :: "('h \<Rightarrow> bool) \<Rightarrow> ('h \<Rightarrow> addr set) \<Rightarrow> ('h \<Rightarrow> addr set) \<Rightarrow> ('h, 'd, 'f) kern \<Rightarrow> bool" where
  "kern_ok invar live static k \<longleftrightarrow> invar (k_heap k) \<and> refs_ok k \<and> 3 \<le> ts_maxfiles (k_task k) \<and>
     (3 < ts_maxfiles (k_task k) \<longrightarrow> k_table k \<in> live (k_heap k)) \<and>
     set (files_of k) \<subseteq> {0} \<union> blocks live k \<union> static (k_heap k)"

locale file_kernel = heap_allocator alloc release invar live zalloc static
  for alloc :: "'h \<Rightarrow> u32 \<Rightarrow> ('h \<times> addr) option"
    and release :: "'h \<Rightarrow> addr \<Rightarrow> 'h exec option"
    and invar :: "'h \<Rightarrow> bool"
    and live :: "'h \<Rightarrow> addr set"
    and zalloc :: "'h \<Rightarrow> u32 \<Rightarrow> u32 \<Rightarrow> ('h \<times> addr) option"
    and static :: "'h \<Rightarrow> addr set" +
  fixes e :: "('h, 'd, 'f) sys_env"
  assumes env_malloc: "ev_malloc e = alloc" and env_calloc: "ev_calloc e = zalloc" and env_free: "ev_free e = release"
begin

lemma grow_table:
  assumes ok: "kern_ok invar live static k" and small: "2 * ts_maxfiles (k_task k) < 2 ^ 16"
    and full: "fd_findfree (k_task k) 0 = - 1" and fp: "fp \<noteq> 0"
  obtains (fail) h where "fd_ref e fp k = Some (Ret (- 1, k\<lparr>k_heap := h\<rparr>))" "invar h" "static h = static (k_heap k)"
      "live h = live (k_heap k)"
  | (grown) h tab where "fd_ref e fp k = Some (Ret (int (ts_maxfiles (k_task k)), fd_bind (ts_maxfiles (k_task k)) fp
         (k\<lparr>k_heap := h, k_task := (k_task k)\<lparr>ts_files := files_of k @ replicate (ts_maxfiles (k_task k)) 0,
            ts_maxfiles := 2 * ts_maxfiles (k_task k)\<rparr>, k_table := tab\<rparr>)))"
      "invar h" "static h = static (k_heap k)" "tab \<in> live h" "live h - {tab} = blocks live k"
proof -
  let ?n = "ts_maxfiles (k_task k)"
  have i: "invar (k_heap k)" and n3: "3 \<le> ?n" and tb: "3 < ?n \<Longrightarrow> k_table k \<in> live (k_heap k)"
    using ok by (auto simp: kern_ok_def)
  have "unat (of_nat (2 * ?n) * 4 :: u32) = 8 * ?n"
    using small by (simp add: unat_word_ariths unsigned_of_nat take_bit_nat_eq_self)
  then have le: "unat (of_nat (2 * ?n) * 4 :: u32) \<le> 2 ^ 32 - 4" using small by simp
  obtain h tab where z: "zalloc (k_heap k) (of_nat (2 * ?n)) 4 = Some (h, tab)" "invar h" "static h = static (k_heap k)"
    "if tab = 0 then live h = live (k_heap k)
     else tab \<notin> live (k_heap k) \<and> tab \<notin> static (k_heap k) \<and> live h = insert tab (live (k_heap k))"
    by (rule zalloc_outcome [OF i le])
  show ?thesis
  proof (cases "tab = 0")
    case True
    then show ?thesis using z fp full
      by (intro fail [of h]) (simp_all add: fd_ref_def k_calloc_def env_calloc)
  next
    case False
    then have l: "tab \<notin> live (k_heap k)" "live h = insert tab (live (k_heap k))" using z(4) by auto
    show ?thesis
    proof (cases "3 < ?n")
      case True
      obtain h' where r: "release h (k_table k) = Some (Ret h')" "invar h'" "static h' = static h" "live h' = live h - {k_table k}"
        using release_outcome [OF z(2), of "k_table k"] tb [OF True] l by auto
      have fr: "fd_ref e fp k = Some (Ret (int ?n, fd_bind ?n fp (k\<lparr>k_heap := h', k_task := (k_task k)\<lparr>ts_files :=
          files_of k @ replicate ?n 0, ts_maxfiles := 2 * ?n\<rparr>, k_table := tab\<rparr>)))"
        using z(1) False fp full True r(1) by (simp add: fd_ref_def k_calloc_def k_free_def env_calloc env_free Let_def)
      have "k_table k \<noteq> tab" using l(1) tb [OF True] by auto
      then have lv: "tab \<in> live h'" "live h' - {tab} = blocks live k"
        using l True unfolding r(4) blocks_def by auto
      show ?thesis by (rule grown [OF fr r(2) _ lv]) (simp add: r(3) z(3))
    next
      case no: False
      have fr: "fd_ref e fp k = Some (Ret (int ?n, fd_bind ?n fp (k\<lparr>k_heap := h, k_task := (k_task k)\<lparr>ts_files :=
          files_of k @ replicate ?n 0, ts_maxfiles := 2 * ?n\<rparr>, k_table := tab\<rparr>)))"
        using z(1) False fp full no by (simp add: fd_ref_def k_calloc_def env_calloc Let_def)
      have lv: "tab \<in> live h" "live h - {tab} = blocks live k" using l no unfolding blocks_def by auto
      show ?thesis by (rule grown [OF fr z(2,3) lv])
    qed
  qed
qed

lemma fd_ref_ok:
  assumes ok: "kern_ok invar live static k" and small: "2 * ts_maxfiles (k_task k) < 2 ^ 16"
    and fp: "fp \<noteq> 0" "fp \<in> blocks live k \<union> static (k_heap k)" "known_file fp k"
  obtains fd k' where "fd_ref e fp k = Some (Ret (fd, k'))" "kern_ok invar live static k'" "blocks live k' = blocks live k"
    "static (k_heap k') = static (k_heap k)" "k_mounted k' = k_mounted k" "k_fs k' = k_fs k"
    "if fd < 0 then fd = - 1 \<and> k_files k' = k_files k \<and> files_of k' = files_of k
     else nat fd < ts_maxfiles (k_task k') \<and> files_of k' ! nat fd = fp \<and>
       k_files k' = (k_files k)(fp := (k_files k fp)\<lparr>f_refc := f_refc (k_files k fp) + 1\<rparr>) \<and>
       count_list (files_of k') fp = count_list (files_of k) fp + 1"
proof -
  let ?n = "ts_maxfiles (k_task k)"
  have ro: "refs_ok k" using ok by (simp add: kern_ok_def)
  note D = refs_okD [OF ro]
  show ?thesis
  proof (cases "fd_findfree (k_task k) 0 = - 1")
    case True
    show ?thesis
    proof (rule grow_table [OF ok small True fp(1)])
      fix h assume a: "fd_ref e fp k = Some (Ret (- 1, k\<lparr>k_heap := h\<rparr>))" "invar h" "static h = static (k_heap k)"
        "live h = live (k_heap k)"
      then show ?thesis using ok by (intro that [OF a(1)]) (auto simp: kern_ok_def refs_ok_def blocks_def)
    next
      fix h tab
      let ?k = "fd_bind ?n fp (k\<lparr>k_heap := h, k_task := (k_task k)\<lparr>ts_files := files_of k @ replicate ?n 0,
         ts_maxfiles := 2 * ?n\<rparr>, k_table := tab\<rparr>)"
      assume a: "fd_ref e fp k = Some (Ret (int ?n, ?k))" "invar h" "static h = static (k_heap k)" "tab \<in> live h"
        "live h - {tab} = blocks live k"
      have n3: "3 \<le> ?n" using ok by (simp add: kern_ok_def)
      have t: "k_table ?k = tab" "k_mounted ?k = k_mounted k" "k_fs ?k = k_fs k"
        by (simp_all add: fd_bind_def upd_file_def set_fd_def)
      have b: "blocks live ?k = blocks live k" using a(5) n3 by (simp add: blocks_def t del: fd_bind_simps(1))
      have f: "files_of ?k = files_of k @ fp # replicate (?n - 1) 0" using D(1,2)
        by (cases ?n) (simp_all add: list_update_append)
      have "refs_ok ?k" by (rule fd_ref_refs_ok [OF a(1) ro fp(1,3) small])
      moreover have "set (files_of ?k) \<subseteq> {0} \<union> blocks live k \<union> static h"
        using ok fp(2) a(3) unfolding f by (auto simp: kern_ok_def)
      ultimately have "kern_ok invar live static ?k" using a(2,4) n3 by (simp add: kern_ok_def b t)
      moreover have "count_list (files_of ?k) fp = count_list (files_of k) fp + 1"
        unfolding f using fp(1) by (simp add: count_list_0_iff)
      ultimately show ?thesis using D(1,2) f
        by (intro that [OF a(1)]) (auto simp: b t a(3) nth_append)
    qed
  next
    case False
    then obtain n where n: "fd_findfree (k_task k) 0 = int n" "n < ?n" "files_of k ! n = 0"
      using fd_scan_first [of ?n "files_of k" 0] D(1) unfolding fd_findfree_def by (auto split: if_splits)
    have a: "fd_ref e fp k = Some (Ret (int n, fd_bind n fp k))" using n fp(1) by (simp add: fd_ref_def)
    have t: "k_table (fd_bind n fp k) = k_table k" "k_mounted (fd_bind n fp k) = k_mounted k"
      "k_fs (fd_bind n fp k) = k_fs k"
      by (simp_all add: fd_bind_def upd_file_def set_fd_def)
    have b: "blocks live (fd_bind n fp k) = blocks live k" by (simp add: blocks_def t)
    have "kern_ok invar live static (fd_bind n fp k)"
      using ok fp(2) fd_ref_refs_ok [OF a ro fp(1,3) small] set_update_subset_insert [of "files_of k" n fp]
      by (auto simp: kern_ok_def b t)
    then show ?thesis using n D(1) fp(1)
      by (intro that [OF a]) (simp_all add: b t count_list_update)
  qed
qed

text \<open>The release of blocks that are live, one after the other.\<close>

lemma k_free_live:
  assumes "invar (k_heap k)" "p = 0 \<or> p \<in> live (k_heap k)"
  obtains h where "k_free e p k = kret () (k\<lparr>k_heap := h\<rparr>)" "invar h" "static h = static (k_heap k)"
    "live h = live (k_heap k) - {p}"
proof (rule release_outcome [OF assms])
  fix h assume "release (k_heap k) p = Some (Ret h)" "invar h" "static h = static (k_heap k)" "live h = live (k_heap k) - {p}"
  then show ?thesis by (intro that [of h]) (simp_all add: k_free_def env_free)
qed

lemma calloc_file_ok:
  assumes i: "invar (k_heap k)"
  obtains (fail) h where "calloc_file e k = kret 0 (k\<lparr>k_heap := h\<rparr>)" "invar h" "static h = static (k_heap k)"
      "live h = live (k_heap k)"
  | (new) h p where "calloc_file e k = kret p (k\<lparr>k_heap := h, k_files := (k_files k)(p := zero_file)\<rparr>)" "invar h"
      "static h = static (k_heap k)" "p \<noteq> 0" "p \<notin> live (k_heap k)" "p \<notin> static (k_heap k)"
      "live h = insert p (live (k_heap k))"
proof -
  obtain h p where z: "zalloc (k_heap k) 1 20 = Some (h, p)" "invar h" "static h = static (k_heap k)"
    "if p = 0 then live h = live (k_heap k)
     else p \<notin> live (k_heap k) \<and> p \<notin> static (k_heap k) \<and> live h = insert p (live (k_heap k))"
    by (rule zalloc_outcome [OF i, of 1 20]) simp_all
  have c: "calloc_file e k = kret p (if p = 0 then k\<lparr>k_heap := h\<rparr> else k\<lparr>k_heap := h, k_files := (k_files k)(p := zero_file)\<rparr>)"
    using z(1) by (simp add: calloc_file_def k_calloc_def env_calloc upd_file_def)
  show ?thesis
  proof (cases "p = 0")
    case True
    then show ?thesis using z c by (intro fail [of h]) simp_all
  next
    case False
    then show ?thesis using z c by (intro new [where h = h and p = p]) simp_all
  qed
qed

lemma kern_ok_frame:
  assumes "kern_ok invar live static k" "invar (k_heap k')" "k_task k' = k_task k" "k_table k' = k_table k"
    "static (k_heap k') = static (k_heap k)" "live (k_heap k) \<subseteq> live (k_heap k')"
    "\<And>p. f_refc (k_files k' p) = f_refc (k_files k p)"
  shows "kern_ok invar live static k'"
proof -
  have "blocks live k \<subseteq> blocks live k'" using assms(3,4,6) by (auto simp: blocks_def)
  moreover have "refs_ok k' = refs_ok k" using assms(3,7) by (simp add: refs_ok_def)
  ultimately show ?thesis using assms unfolding kern_ok_def by auto
qed

text \<open>A file whose only descriptor goes away: its private data and the file itself are released.\<close>

lemma drop_file_ok:
  assumes ok: "kern_ok invar live static k" and n: "n < ts_maxfiles (k_task k)" "files_of k ! n = fp" "fp \<noteq> 0"
    and one: "count_list (files_of k) fp = 1" and fp: "fp \<in> blocks live k"
    and priv: "priv = 0 \<or> priv \<in> blocks live k \<and> priv \<notin> set (files_of k)"
    and k2: "k_heap k2 = k_heap k" "files_of k2 = (files_of k)[n := 0]" "ts_maxfiles (k_task k2) = ts_maxfiles (k_task k)"
      "k_table k2 = k_table k" "\<And>p. p \<noteq> fp \<Longrightarrow> f_refc (k_files k2 p) = f_refc (k_files k p)"
  obtains h where "kbind (k_free e priv k2) (\<lambda>(_, k). kbind (k_free e fp k) (\<lambda>(_, k). kret r k)) = kret r (k2\<lparr>k_heap := h\<rparr>)"
    "kern_ok invar live static (k2\<lparr>k_heap := h\<rparr>)" "blocks live (k2\<lparr>k_heap := h\<rparr>) = blocks live k - {priv, fp}"
proof -
  have i: "invar (k_heap k2)" and ro: "refs_ok k" using ok k2(1) by (auto simp: kern_ok_def)
  note D = refs_okD [OF ro]
  have fps: "fp \<in> set (files_of k)" using n D(1) by auto
  have pl: "priv = 0 \<or> priv \<in> live (k_heap k2)" "fp \<in> live (k_heap k2)" "fp \<noteq> priv"
    using priv fp fps k2(1) n(3) by (auto simp: blocks_def)
  obtain h1 where f1: "k_free e priv k2 = kret () (k2\<lparr>k_heap := h1\<rparr>)" "invar h1" "static h1 = static (k_heap k2)"
    "live h1 = live (k_heap k2) - {priv}" by (rule k_free_live [OF i pl(1)])
  obtain h where f2: "k_free e fp (k2\<lparr>k_heap := h1\<rparr>) = kret () (k2\<lparr>k_heap := h\<rparr>)" "invar h" "static h = static h1"
    "live h = live h1 - {fp}" using pl f1 by (auto intro: k_free_live [of "k2\<lparr>k_heap := h1\<rparr>" fp])
  let ?k = "k2\<lparr>k_heap := h\<rparr>"
  have z: "fp \<notin> set ((files_of k)[n := 0])"
    using one n D(1) count_list_update [of n "files_of k" 0 fp] by (simp add: count_list_0_iff)
  have b: "blocks live ?k = blocks live k - {priv, fp}"
    using k2 f1(4) f2(4) by (auto simp: blocks_def)
  have sub: "set (files_of ?k) \<subseteq> insert 0 (set (files_of k))"
    using k2(2) set_update_subset_insert [of "files_of k" n 0] by simp
  have "refs_ok ?k"
    using D n k2 z sub by (auto simp: refs_ok_def list_all_iff count_list_update) 
  moreover have "set (files_of ?k) \<subseteq> {0} \<union> blocks live ?k \<union> static h"
    using ok sub z priv f1(3) f2(3) k2 unfolding b kern_ok_def by auto
  moreover have "3 < ts_maxfiles (k_task k) \<Longrightarrow> k_table k \<in> live h"
    using ok fp priv k2(1) f1(4) f2(4) null_not_live [of "k_heap k"] by (auto simp: kern_ok_def blocks_def)
  ultimately have "kern_ok invar live static ?k" using ok f2(2) k2 by (auto simp: kern_ok_def)
  then show ?thesis using f1 f2 b by (intro that [of h]) simp_all
qed

text \<open>The three outcomes of ff_open on a mounted file system.\<close>

lemma ff_open_ok:
  assumes i: "invar (k_heap k)" and mt: "k_mounted k" and sz: "unat fil_size \<le> 2 ^ 32 - 4"
  obtains (nomem) h where "ff_open e fil_size fp path flags k = kret (- 1) (k\<lparr>k_heap := h, k_errno := ENOMEM\<rparr>)"
      "invar h" "static h = static (k_heap k)" "live h = live (k_heap k)"
  | (called) h q fs r n where "ff_open e fil_size fp path flags k = kret r (k\<lparr>k_heap := h,
        k_files := (k_files k)(fp := (k_files k fp)\<lparr>f_ops := Some FF_FILEOPS, f_priv := q\<rparr>), k_fs := fs, k_errno := n\<rparr>)"
      "r = 0 \<or> r = - 1" "invar h" "static h = static (k_heap k)" "q \<noteq> 0" "q \<notin> live (k_heap k)" "q \<notin> static (k_heap k)"
      "live h = insert q (live (k_heap k))"
proof -
  obtain h q where a: "alloc (k_heap k) fil_size = Some (h, q)" "invar h" "static h = static (k_heap k)"
    "if q = 0 then live h = live (k_heap k)
     else q \<notin> live (k_heap k) \<and> q \<notin> static (k_heap k) \<and> live h = insert q (live (k_heap k))"
    by (rule alloc_cases [OF i sz])
  show ?thesis
  proof (cases "q = 0")
    case True
    then show ?thesis using a mt
      by (intro nomem [of h]) (simp_all add: ff_open_def check_automount_def k_malloc_def env_malloc set_errno_def)
  next
    case False
    obtain fs res where o: "ev_f_open e q path (ff_flags flags) (k_fs k) = (fs, res)" by force
    obtain r n where r: "ffres2errno res (k\<lparr>k_heap := h, k_files := (k_files k)(fp := (k_files k fp)\<lparr>f_ops := Some FF_FILEOPS,
        f_priv := q\<rparr>), k_fs := fs\<rparr>) = (r, k\<lparr>k_heap := h, k_files := (k_files k)(fp := (k_files k fp)\<lparr>f_ops := Some FF_FILEOPS,
        f_priv := q\<rparr>), k_fs := fs, k_errno := n\<rparr>)" "r = 0 \<or> r = - 1"
      using ffres2errno_cases [of res "k\<lparr>k_heap := h, k_files := (k_files k)(fp := (k_files k fp)\<lparr>f_ops := Some FF_FILEOPS,
        f_priv := q\<rparr>), k_fs := fs\<rparr>"] by auto
    show ?thesis using False a mt o r
      by (intro called [where h = h and q = q and fs = fs and r = r and n = n])
        (simp_all add: ff_open_def check_automount_def k_malloc_def env_malloc upd_file_def)
  qed
qed

text \<open>What \<^verbatim>\<open>open\<close> gives the caller: a file of the FAT file system with one descriptor, whose
  structure and private data are two blocks that were not live before.\<close>

definition fresh_file :: "addr set \<Rightarrow> int \<Rightarrow> ('h, 'd, 'f) kern \<Rightarrow> bool" where
  "fresh_file before fd k' \<longleftrightarrow> 0 \<le> fd \<and> nat fd < ts_maxfiles (k_task k') \<and>
     (let fp = files_of k' ! nat fd; f = k_files k' fp in
      fp \<noteq> 0 \<and> count_list (files_of k') fp = 1 \<and> f_ops f = Some FF_FILEOPS \<and>
      f_mflags f = F_MF_FILE_MALLOCED OR F_MF_PRIV_MALLOCED \<and> f_priv f \<noteq> 0 \<and> f_priv f \<notin> set (files_of k') \<and>
      fp \<notin> before \<and> f_priv f \<notin> before \<and> fp \<noteq> f_priv f \<and>
      blocks live k' = insert fp (insert (f_priv f) before))"

lemma set_fd_simps [simp]:
  "files_of (set_fd n p k) = (files_of k)[n := p]" "ts_maxfiles (k_task (set_fd n p k)) = ts_maxfiles (k_task k)"
  "k_heap (set_fd n p k) = k_heap k" "k_table (set_fd n p k) = k_table k" "k_files (set_fd n p k) = k_files k"
  by (simp_all add: set_fd_def)

text \<open>The part of \<^verbatim>\<open>open\<close> after the descriptor is taken.\<close>

lemma open_tail_ok:
  assumes ok: "kern_ok invar live static k" and n: "n < ts_maxfiles (k_task k)" "files_of k ! n = fp" "fp \<noteq> 0"
    and one: "count_list (files_of k) fp = 1" and b: "blocks live k = insert fp before" "fp \<notin> before" "0 \<notin> before"
    and f: "f_priv (k_files k fp) = 0" "f_mflags (k_files k fp) = F_MF_FILE_MALLOCED OR F_MF_PRIV_MALLOCED"
    and mt: "k_mounted k" and sz: "unat fil_size \<le> 2 ^ 32 - 4"
  shows "\<exists>fd k'. kbind (ff_open e fil_size fp path flags k) (\<lambda>(r, k). if r = 0 then kret (int n) k
      else (let k = set_fd n 0 k in kbind (k_free e (f_priv (k_files k fp)) k) (\<lambda>(_, k).
              kbind (k_free e fp k) (\<lambda>(_, k). kret (- 1) k)))) = kret fd k' \<and> kern_ok invar live static k' \<and>
    (if fd < 0 then fd = - 1 \<and> blocks live k' = before else fresh_file before fd k')"
proof -
  have i: "invar (k_heap k)" using ok by (simp add: kern_ok_def)
  from i mt sz show ?thesis
  proof (cases rule: ff_open_ok [of k fil_size fp path flags, case_names nomem called])
    case (nomem h)
    let ?k = "k\<lparr>k_heap := h, k_errno := ENOMEM\<rparr>"
    have ok': "kern_ok invar live static ?k" using nomem by (intro kern_ok_frame [OF ok]) simp_all
    have b': "blocks live ?k = insert fp before" unfolding b(1) [symmetric] blocks_def by (simp add: nomem(4))
    obtain h' where d: "kbind (k_free e 0 (set_fd n 0 ?k)) (\<lambda>(_, k). kbind (k_free e fp k) (\<lambda>(_, k). kret (- 1) k))
        = kret (- 1 :: int) ((set_fd n 0 ?k)\<lparr>k_heap := h'\<rparr>)" "kern_ok invar live static ((set_fd n 0 ?k)\<lparr>k_heap := h'\<rparr>)"
      "blocks live ((set_fd n 0 ?k)\<lparr>k_heap := h'\<rparr>) = blocks live ?k - {0, fp}"
      by (rule drop_file_ok [OF ok', of n fp 0 "set_fd n 0 ?k" "- 1"]) (use n one b' in simp_all)
    moreover have "insert fp before - {0, fp} = before" using b(2,3) by auto
    ultimately show ?thesis using nomem(1) f(1) b'
      by (intro exI [of _ "- 1"] exI [of _ "(set_fd n 0 ?k)\<lparr>k_heap := h'\<rparr>"]) (simp add: Let_def)
  next
    case (called h q fs r en)
    let ?k = "k\<lparr>k_heap := h, k_files := (k_files k)(fp := (k_files k fp)\<lparr>f_ops := Some FF_FILEOPS, f_priv := q\<rparr>),
      k_fs := fs, k_errno := en\<rparr>"
    have ok': "kern_ok invar live static ?k" using called by (intro kern_ok_frame [OF ok]) auto
    have qt: "3 < ts_maxfiles (k_task k) \<Longrightarrow> q \<noteq> k_table k" using ok called(6) by (auto simp: kern_ok_def)
    have qn: "q \<notin> set (files_of k)" "q \<notin> insert fp before"
      using ok called(5-7) b(1) by (auto simp: kern_ok_def blocks_def)
    have b': "blocks live ?k = insert q (insert fp before)" using b(1) called(8) qt by (auto simp: blocks_def)
    show ?thesis
    proof (cases "r = 0")
      case True
      then have "fresh_file before (int n) ?k"
        using n one b' b(2) f qn called(5) by (auto simp: fresh_file_def Let_def)
      then show ?thesis using True called(1) ok' by simp
    next
      case False
      obtain h' where d: "kbind (k_free e q (set_fd n 0 ?k)) (\<lambda>(_, k). kbind (k_free e fp k) (\<lambda>(_, k). kret (- 1) k))
          = kret (- 1 :: int) ((set_fd n 0 ?k)\<lparr>k_heap := h'\<rparr>)" "kern_ok invar live static ((set_fd n 0 ?k)\<lparr>k_heap := h'\<rparr>)"
        "blocks live ((set_fd n 0 ?k)\<lparr>k_heap := h'\<rparr>) = blocks live ?k - {q, fp}"
        by (rule drop_file_ok [OF ok', of n fp q "set_fd n 0 ?k" "- 1"]) (use n one b' qn in simp_all)
      moreover have "insert q (insert fp before) - {q, fp} = before" using b(2) qn by auto
      ultimately show ?thesis using False called(1) b'
        by (intro exI [of _ "- 1"] exI [of _ "(set_fd n 0 ?k)\<lparr>k_heap := h'\<rparr>"]) (simp add: Let_def)
    qed
  qed
qed

lemma k_open_ok:
  assumes ok: "kern_ok invar live static k" and small: "2 * ts_maxfiles (k_task k) < 2 ^ 16"
    and mt: "k_mounted k" and sz: "unat fil_size \<le> 2 ^ 32 - 4"
  shows "\<exists>fd k'. k_open e fil_size path flags k = kret fd k' \<and> kern_ok invar live static k' \<and>
    (if fd < 0 then fd = - 1 \<and> blocks live k' = blocks live k else fresh_file (blocks live k) fd k')"
proof -
  have i: "invar (k_heap k)" using ok by (simp add: kern_ok_def)
  from i show ?thesis
  proof (cases rule: calloc_file_ok)
    case (fail h)
    have "k_free e 0 (k\<lparr>k_heap := h\<rparr>) = kret () (k\<lparr>k_heap := h\<rparr>)" by (simp add: k_free_def env_free release_null)
    moreover have "kern_ok invar live static (k\<lparr>k_heap := h, k_errno := ENFILE\<rparr>)"
      using ok fail by (intro kern_ok_frame [OF ok]) simp_all
    ultimately show ?thesis using fail by (simp add: k_open_def fd_ref_def set_errno_def blocks_def)
  next
    case (new h fp)
    let ?k = "k\<lparr>k_heap := h, k_files := (k_files k)(fp := zero_file)\<rparr>"
    have fpn: "fp \<notin> set (files_of k)" using ok new by (auto simp: kern_ok_def blocks_def)
    have ft: "3 < ts_maxfiles (k_task k) \<Longrightarrow> fp \<noteq> k_table k" using ok new(5) by (auto simp: kern_ok_def)
    have b: "blocks live ?k = insert fp (blocks live k)" using new(7) ft by (auto simp: blocks_def)
    have nb: "fp \<notin> blocks live k" "0 \<notin> blocks live k" using new(5) null_not_live [OF i] by (auto simp: blocks_def)
    have "refs_ok ?k" using ok fpn by (auto simp: kern_ok_def refs_ok_def list_all_iff)
    then have ok1: "kern_ok invar live static ?k" using ok new(2,3,7) b by (auto simp: kern_ok_def)
    obtain fd k2 where r: "fd_ref e fp ?k = Some (Ret (fd, k2))" "kern_ok invar live static k2" "blocks live k2 = blocks live ?k"
      "static (k_heap k2) = static (k_heap ?k)" "k_mounted k2 = k_mounted ?k"
      "if fd < 0 then fd = - 1 \<and> k_files k2 = k_files ?k \<and> files_of k2 = files_of ?k
       else nat fd < ts_maxfiles (k_task k2) \<and> files_of k2 ! nat fd = fp \<and>
         k_files k2 = (k_files ?k)(fp := (k_files ?k fp)\<lparr>f_refc := f_refc (k_files ?k fp) + 1\<rparr>) \<and>
         count_list (files_of k2) fp = count_list (files_of ?k) fp + 1"
      by (rule fd_ref_ok [OF ok1 _ new(4)]) (use small b in \<open>simp_all add: known_file_def zero_file_def\<close>)
    show ?thesis
    proof (cases "fd < 0")
      case True
      have "fp \<in> live (k_heap k2)" "invar (k_heap k2)" using r(2,3) b by (auto simp: blocks_def kern_ok_def)
      then obtain h' where f: "k_free e fp k2 = kret () (k2\<lparr>k_heap := h'\<rparr>)" "invar h'" "static h' = static (k_heap k2)"
        "live h' = live (k_heap k2) - {fp}" using k_free_live [of k2 fp] by auto
      let ?k' = "k2\<lparr>k_heap := h', k_errno := ENFILE\<rparr>"
      have "blocks live ?k' = blocks live k2 - {fp}" using f(4) by (auto simp: blocks_def)
      then have b': "blocks live ?k' = blocks live k" unfolding r(3) b using nb by simp
      have "3 < ts_maxfiles (k_task k2) \<Longrightarrow> k_table k2 \<in> live h'" 
        using r(2,3) b f(4) by (auto simp: kern_ok_def blocks_def)
      then have "kern_ok invar live static ?k'"
        using r True f(2,3) fpn ok new(3) b' unfolding kern_ok_def by (simp add: refs_ok_def)
      then show ?thesis using new(1) r(1,6) True f(1) b' by (simp add: k_open_def set_errno_def)
    next
      case False
      let ?k3 = "upd_file fp (\<lambda>f. f\<lparr>f_mflags := F_MF_FILE_MALLOCED OR F_MF_PRIV_MALLOCED\<rparr>) k2"
      have ok3: "kern_ok invar live static ?k3"
        using r(2) by (intro kern_ok_frame [OF r(2)]) (auto simp: upd_file_def kern_ok_def)
      have "blocks live ?k3 = blocks live k2" by (simp add: blocks_def upd_file_def)
      then have b3: "blocks live ?k3 = insert fp (blocks live k)" unfolding r(3) b .
      have "count_list (files_of k) fp = 0" using fpn by (simp add: count_list_0_iff)
      then have n: "nat fd < ts_maxfiles (k_task ?k3)" "files_of ?k3 ! nat fd = fp" "count_list (files_of ?k3) fp = 1"
        "f_priv (k_files ?k3 fp) = 0" "f_mflags (k_files ?k3 fp) = F_MF_FILE_MALLOCED OR F_MF_PRIV_MALLOCED" "k_mounted ?k3"
        using r(5,6) False mt by (simp_all add: upd_file_def zero_file_def)
      have fd: "int (nat fd) = fd" using False by simp
      have o: "k_open e fil_size path flags k = kbind (ff_open e fil_size fp path flags ?k3) (\<lambda>(r, k).
          if r = 0 then kret (int (nat fd)) k
          else (let k = set_fd (nat fd) 0 k in kbind (k_free e (f_priv (k_files k fp)) k) (\<lambda>(_, k).
            kbind (k_free e fp k) (\<lambda>(_, k). kret (- 1) k))))"
        unfolding fd using new(1) r(1) False by (simp add: k_open_def)
      show ?thesis unfolding o by (rule open_tail_ok [OF ok3 n(1,2) new(4) n(3) b3 nb n(4-6) sz])
    qed
  qed
qed

text \<open>Closing such a descriptor releases the two blocks.\<close>

lemma k_close_fresh:
  assumes ok: "kern_ok invar live static k" and fr: "fresh_file before fd k"
  shows "\<exists>r k'. k_close e fd k = kret r k' \<and> kern_ok invar live static k' \<and> blocks live k' = before \<and>
    files_of k' = (files_of k)[nat fd := 0]"
proof -
  define fp where "fp = files_of k ! nat fd"
  define q where "q = f_priv (k_files k fp)"
  have n: "nat fd < ts_maxfiles (k_task k)" "files_of k ! nat fd = fp" "fp \<noteq> 0" "0 \<le> fd" and one: "count_list (files_of k) fp = 1"
    and f: "f_ops (k_files k fp) = Some FF_FILEOPS" "f_mflags (k_files k fp) AND F_MF_FILE_MALLOCED \<noteq> 0"
    and q: "q \<noteq> 0" "q \<notin> set (files_of k)" and b: "fp \<notin> before" "q \<notin> before" "fp \<noteq> q" "blocks live k = insert fp (insert q before)"
    using fr by (simp_all add: fresh_file_def Let_def fp_def q_def)
  have ro: "refs_ok k" using ok by (simp add: kern_ok_def)
  let ?u = "unref (nat fd) fp k"
  have "f_ops (k_files ?u fp) = Some FF_FILEOPS" using f by simp
  then have c: "fo_close e fp ?u = kret r k1" if "ff_close e fp ?u = (r, k1)" for r k1 using that by (simp add: fo_close_def)
  obtain r k1 where "ff_close e fp ?u = (r, k1)" by (cases "ff_close e fp ?u")
  note c = c [OF this]
  note kp = fo_close_keeps [OF c]
  have t: "k_table ?u = k_table k" by (simp add: unref_def upd_file_def set_fd_def)
  obtain h where d: "kbind (k_free e q k1) (\<lambda>(_, k). kbind (k_free e fp k) (\<lambda>(_, k). kret r k)) = kret r (k1\<lparr>k_heap := h\<rparr>)"
    "kern_ok invar live static (k1\<lparr>k_heap := h\<rparr>)" "blocks live (k1\<lparr>k_heap := h\<rparr>) = blocks live k - {q, fp}"
    by (rule drop_file_ok [OF ok n(1-3) one, of q k1 r]) (use b q kp t in auto)
  have p1: "f_priv (k_files k1 fp) = q" using kp by (simp add: q_def)
  have "k_close e (int (nat fd)) k = kret r (k1\<lparr>k_heap := h\<rparr>)"
    unfolding k_close_open [OF ro n(1-3), of e] using one f(2) c d(1) p1 by simp
  then show ?thesis using d b n(4) kp by auto
qed

end

interpretation fk: file_kernel "malloc bo bd en" "free bo" "malloc_invar bo" "malloc_live bo" "calloc bo bd en" below_heap
  "e\<lparr>ev_malloc := malloc bo bd en, ev_calloc := calloc bo bd en, ev_free := free bo\<rparr>"
  by unfold_locales simp_all

section \<open>Properties\<close>

text \<open>A small system over the heap of ten words at 64: descriptors 0 and 1 refer to the
  serial port's file at address 8, descriptor 2 is closed, and the file system accepts every call.\<close>

definition demo_env :: "(mstate, unit, unit) sys_env" where
  "demo_env = \<lparr>ev_malloc = malloc LITTLE_ENDIAN demo_board 64, ev_calloc = calloc LITTLE_ENDIAN demo_board 64,
     ev_free = free LITTLE_ENDIAN, ev_dev = undefined, ev_sigh = undefined, ev_fatfs_size = 4,
     ev_attach = \<lambda>_ _ h f. (h, f), ev_f_mount = \<lambda>_ _ f. f, ev_f_open = \<lambda>_ _ _ f. (f, 0), ev_f_close = \<lambda>_ f. (f, 0),
     ev_f_read = \<lambda>_ _ f. (f, 0, []), ev_f_write = \<lambda>_ _ f. (f, 0, 0), ev_f_lseek = \<lambda>_ _ f. (f, 0),
     ev_f_tell = \<lambda>_ _. 0, ev_f_size = \<lambda>_ _. 0\<rparr>"

definition demo_kern :: "(mstate, unit, unit) kern" where
  "demo_kern = \<lparr>k_heap = demo_heap, k_dev = (), k_fs = (), k_files = (\<lambda>_. zero_file)(8 := zero_file\<lparr>f_refc := 2\<rparr>),
     k_pipes = \<lambda>_. zero_pipe, k_sios = \<lambda>_. zero_sio 0, k_ttys = \<lambda>_. sio0_tty, k_streams = \<lambda>_. 0,
     k_task = \<lparr>ts_files = [8, 8, 0], ts_maxfiles = 3, ts_sigh = 0, ts_sigf = 0\<rparr>, k_table = 0, k_stdout = 0, k_errno = 0,
     k_mounts = [], k_mounted = True, k_sio_files = [8, 0, 0, 0], k_sio_close = False\<rparr>"

lemma demo_kern_simps [simp]:
  "files_of demo_kern = [8, 8, 0]" "ts_maxfiles (k_task demo_kern) = 3" "k_mounted demo_kern" "k_heap demo_kern = demo_heap"
  "k_files demo_kern = (\<lambda>_. zero_file)(8 := zero_file\<lparr>f_refc := 2\<rparr>)"
  by (simp_all add: demo_kern_def)

lemma demo_kern_ok:
  "kern_ok (malloc_invar LITTLE_ENDIAN) (malloc_live LITTLE_ENDIAN) below_heap demo_kern" "refs_ok demo_kern"
proof -
  show r: "refs_ok demo_kern" by (simp add: refs_ok_def)
  have "malloc_invar LITTLE_ENDIAN demo_heap" using demo_heap_ok(1) by (auto simp: malloc_invar_def)
  moreover have "8 \<in> below_heap demo_heap" by (simp add: below_heap_def demo_heap_def heap_set_def)
  ultimately show "kern_ok (malloc_invar LITTLE_ENDIAN) (malloc_live LITTLE_ENDIAN) below_heap demo_kern"
    using r by (simp add: kern_ok_def)
qed

text \<open>C5: With the volumes mounted, open keeps the invariant of the kernel state and leaks no file
  structure and no private data: apart from the descriptor table, which a call may have replaced by one of twice the size
  that then stays allocated, the allocated blocks are after a failing open the ones from before
  it, and after a successful open and the close of its descriptor as well, over the malloc, calloc and free
  of stdlib/malloc.c.  (The first open mounts the volumes, whose FATFS objects stay allocated.)\<close>
theorem open_close_releases:
  assumes "kern_ok (malloc_invar bo) (malloc_live bo) below_heap k" "2 * ts_maxfiles (k_task k) < 2 ^ 16"
    "k_mounted k" "unat fil_size \<le> 2 ^ 32 - 4"
    and env: "ev_malloc e = malloc bo bd en" "ev_calloc e = calloc bo bd en" "ev_free e = free bo"
  shows "\<exists>fd k'. k_open e fil_size path flags k = kret fd k' \<and>
    kern_ok (malloc_invar bo) (malloc_live bo) below_heap k' \<and>
    (if fd < 0 then fd = - 1 \<and> blocks (malloc_live bo) k' = blocks (malloc_live bo) k
     else \<exists>r k''. k_close e fd k' = kret r k'' \<and>
       kern_ok (malloc_invar bo) (malloc_live bo) below_heap k'' \<and> blocks (malloc_live bo) k'' = blocks (malloc_live bo) k)"
proof -
  have e: "e\<lparr>ev_malloc := malloc bo bd en, ev_calloc := calloc bo bd en, ev_free := free bo\<rparr> = e"
    using env by (cases e) simp
  obtain fd k' where o: "k_open e fil_size path flags k = kret fd k'" "kern_ok (malloc_invar bo) (malloc_live bo) below_heap k'"
    "if fd < 0 then fd = - 1 \<and> blocks (malloc_live bo) k' = blocks (malloc_live bo) k
     else fk.fresh_file bo (blocks (malloc_live bo) k) fd k'"
    using fk.k_open_ok [OF assms(1-4), of bd en e path flags] unfolding e by blast
  have cl: "\<exists>r k''. k_close e fd k' = kret r k'' \<and>
      kern_ok (malloc_invar bo) (malloc_live bo) below_heap k'' \<and> blocks (malloc_live bo) k'' = blocks (malloc_live bo) k"
    if "\<not> fd < 0"
    using fk.k_close_fresh [OF o(2) o(3) [unfolded if_not_P [OF that]], of bd en e, unfolded e] by fast
  show ?thesis
  proof (cases "fd < 0")
    case True
    show ?thesis using o True by (intro exI [of _ fd] exI [of _ k']) simp
  next
    case False
    show ?thesis using o(1,2) cl [OF False]
      by (intro exI [of _ fd] exI [of _ k']) (simp only: False if_False simp_thms)
  qed
qed

theorem open_close_releases_witness:
  "\<exists>fd k'. k_open demo_env 4 [0x61] 0 demo_kern = kret fd k' \<and> (fd < 0 \<or> (\<exists>r k''. k_close demo_env fd k' = kret r k'' \<and>
     blocks (malloc_live LITTLE_ENDIAN) k'' = blocks (malloc_live LITTLE_ENDIAN) demo_kern))"
proof -
  have "2 * ts_maxfiles (k_task demo_kern) < 2 ^ 16" "k_mounted demo_kern" "unat (4 :: u32) \<le> 2 ^ 32 - 4"
    "ev_malloc demo_env = malloc LITTLE_ENDIAN demo_board 64" "ev_calloc demo_env = calloc LITTLE_ENDIAN demo_board 64"
    "ev_free demo_env = free LITTLE_ENDIAN"
    by (simp_all add: demo_env_def)
  from open_close_releases [OF demo_kern_ok(1) this, of "[0x61]" 0] show ?thesis by (auto split: if_splits)
qed

lemma fd_ref_fails_iff:
  assumes "fd_ref e fp k = Some (Ret (fd, k'))" "fp \<noteq> 0" "length (files_of k) = ts_maxfiles (k_task k)"
  shows "fd < 0 \<longleftrightarrow> 0 \<notin> set (files_of k) \<and> (\<exists>h. ev_calloc e (k_heap k) (of_nat (2 * ts_maxfiles (k_task k))) 4 = Some (h, 0))"
proof (cases "\<forall>i\<in>{0..<ts_maxfiles (k_task k)}. files_of k ! i \<noteq> 0")
  case True
  have s: "fd_findfree (k_task k) 0 = - 1"
    using fd_scan_first [of "ts_maxfiles (k_task k)" "files_of k" 0] assms(3)
    unfolding fd_findfree_def if_P [OF True] by simp
  have z: "0 \<notin> set (files_of k)" using True assms(3) by (auto simp: in_set_conv_nth)
  show ?thesis using assms(1,2) z unfolding fd_ref_def s Let_def
    by (auto simp: k_calloc_def kbind_def split: if_splits exec.splits option.splits)
next
  case no: False
  then obtain n where n: "fd_findfree (k_task k) 0 = int n" "n < ts_maxfiles (k_task k)" "files_of k ! n = 0"
    using fd_scan_first [of "ts_maxfiles (k_task k)" "files_of k" 0] assms(3)
    unfolding fd_findfree_def if_not_P [OF no] by auto
  then have "0 \<in> set (files_of k)" using assms(3) by (metis nth_mem)
  then show ?thesis using assms(1,2) unfolding fd_ref_def Let_def n(1) by auto
qed

text \<open>C26: A new reference to a file takes the smallest free descriptor and touches neither the other
  entries nor the heap.  When no descriptor is free the table doubles: the file gets the first of the new entries, the others
  are free and the old ones keep their files; only if calloc has no room for the new table is the result -1, and
  the table stays as it was.  The reference counts stay the number of descriptors of each file.\<close>
theorem fd_ref_smallest:
  assumes "refs_ok k" "fp \<noteq> 0" "known_file fp k" "2 * ts_maxfiles (k_task k) < 2 ^ 16"
    "fd_ref e fp k = Some (Ret (fd, k'))" and n: "n = ts_maxfiles (k_task k)"
  shows "refs_ok k' \<and>
    (if 0 \<in> set (files_of k) then 0 \<le> fd \<and> nat fd < n \<and> files_of k ! nat fd = 0 \<and>
       list_all (\<lambda>i. files_of k ! i \<noteq> 0) [0..<nat fd] \<and> files_of k' = (files_of k)[nat fd := fp] \<and>
       ts_maxfiles (k_task k') = n \<and> k_heap k' = k_heap k
     else if \<exists>h. ev_calloc e (k_heap k) (of_nat (2 * n)) 4 = Some (h, 0)
     then fd = - 1 \<and> files_of k' = files_of k \<and> ts_maxfiles (k_task k') = n
     else fd = int n \<and> files_of k' = files_of k @ fp # replicate (n - 1) 0 \<and> ts_maxfiles (k_task k') = 2 * n)"
proof -
  note D = refs_okD [OF assms(1)]
  note F = fd_ref_fails_iff [OF assms(5,2) D(1), folded n]
  have "if 0 \<in> set (files_of k) then 0 \<le> fd \<and> nat fd < n \<and> files_of k ! nat fd = 0 \<and>
       list_all (\<lambda>i. files_of k ! i \<noteq> 0) [0..<nat fd] \<and> files_of k' = (files_of k)[nat fd := fp] \<and>
       ts_maxfiles (k_task k') = n \<and> k_heap k' = k_heap k
     else if \<exists>h. ev_calloc e (k_heap k) (of_nat (2 * n)) 4 = Some (h, 0)
     then fd = - 1 \<and> files_of k' = files_of k \<and> ts_maxfiles (k_task k') = n
     else fd = int n \<and> files_of k' = files_of k @ fp # replicate (n - 1) 0 \<and> ts_maxfiles (k_task k') = 2 * n"
    using assms(5) D(1)
  proof (cases rule: fd_refE)
    case none
    then show ?thesis using F n by auto
  next
    case (slot i)
    then have "0 \<in> set (files_of k)" using D(1) by (metis nth_mem)
    then show ?thesis using slot n by (auto simp: list_all_iff)
  next
    case (grow j h tab)
    obtain q where q: "n = Suc q" using D(2) n by (metis gr0_conv_Suc)
    have "length (files_of k) = n" using D(1) n by simp
    then have "(files_of k @ replicate n 0)[n := fp] = files_of k @ fp # replicate (n - 1) 0"
      by (simp add: list_update_append q)
    then show ?thesis using grow F n by auto
  qed
  then show ?thesis using fd_ref_refs_ok [OF assms(5,1-4)] by blast
qed

theorem fd_ref_smallest_witness:
  "refs_ok (fd_bind 2 8 demo_kern) \<and> files_of (fd_bind 2 8 demo_kern) ! 2 = 8"
proof -
  have "fd_ref demo_env 8 demo_kern = Some (Ret (2, fd_bind 2 8 demo_kern))"
    by (simp add: fd_ref_def fd_findfree_def fd_scan.simps [of _ 0] fd_scan.simps [of _ 1] fd_scan.simps [of _ 2]
        fd_scan.simps [of _ "Suc 0"] fd_scan.simps [of _ "Suc (Suc 0)"])
  from fd_ref_smallest [OF demo_kern_ok(2) _ _ _ this refl] show ?thesis
    by (simp add: known_file_def)
qed

text \<open>C27: close of a descriptor that is not open fails with EBADF and changes nothing else; close
  of an open one clears that entry of the table alone and keeps the reference counts
  right, and while other descriptors refer to the file it releases nothing.\<close>
theorem close_counts:
  assumes "refs_ok k" "k_close e fd k = Some (Ret (r, k'))"
  shows "refs_ok k' \<and>
    (if 0 \<le> fd \<and> nat fd < ts_maxfiles (k_task k) \<and> files_of k ! nat fd \<noteq> 0
     then files_of k' = (files_of k)[nat fd := 0] \<and>
       (count_list (files_of k) (files_of k ! nat fd) \<noteq> 1 \<longrightarrow> r = 0 \<and> k_heap k' = k_heap k)
     else r = - 1 \<and> k' = k\<lparr>k_errno := EBADF\<rparr>)"
proof -
  have "r = 0 \<and> k_heap k' = k_heap k"
    if o: "0 \<le> fd" "nat fd < ts_maxfiles (k_task k)" "files_of k ! nat fd \<noteq> 0"
      and "count_list (files_of k) (files_of k ! nat fd) \<noteq> 1"
    using k_close_open [OF assms(1) o(2) refl o(3), of e] that(4) assms(2) o(1) by auto
  then show ?thesis using k_close_refs_ok [OF assms] by (auto split: if_splits)
qed

theorem close_counts_witness:
  "\<exists>k'. k_close demo_env 1 demo_kern = Some (Ret (0, k')) \<and> refs_ok k' \<and> files_of k' = [8, 0, 0]"
proof -
  have "k_close demo_env (int 1) demo_kern = kret 0 (unref 1 8 demo_kern)"
    using k_close_open [OF demo_kern_ok(2), of 1 8 demo_env] by simp
  then have "k_close demo_env 1 demo_kern = kret 0 (unref 1 8 demo_kern)" by simp
  from close_counts [OF demo_kern_ok(2) this] this show ?thesis
    by (intro exI [of _ "unref 1 8 demo_kern"]) simp
qed

end
