(* ===== verification/Fat_Glue.thy ===== *)
theory Fat_Glue
  imports File_Props Disks
begin

text \<open>
  The rest of fs/ff_glue.c: directories, names, file status and volumes.  The
  calls into the FAT file system are the operations of \<open>fat_ops\<close>.
\<close>

record filinfo =
  fi_fsize :: u32
  fi_fdate :: u16
  fi_ftime :: u16
  fi_fattrib :: u8
  fi_fname :: "u8 list"

record fatfs =
  fs_n_fatent :: u32
  fs_csize :: u16
  fs_ssize :: u16

record 'f fat_ops =
  op_unlink :: "u8 list \<Rightarrow> 'f \<Rightarrow> 'f \<times> nat"
  op_chdrive :: "u8 list \<Rightarrow> 'f \<Rightarrow> 'f \<times> nat"
  op_chdir :: "u8 list \<Rightarrow> 'f \<Rightarrow> 'f \<times> nat"
  op_mkdir :: "u8 list \<Rightarrow> 'f \<Rightarrow> 'f \<times> nat"
  op_rmdir :: "u8 list \<Rightarrow> 'f \<Rightarrow> 'f \<times> nat"
  op_rename :: "u8 list \<Rightarrow> u8 list \<Rightarrow> 'f \<Rightarrow> 'f \<times> nat"
  op_getcwd :: "u32 \<Rightarrow> 'f \<Rightarrow> 'f \<times> nat \<times> u8 list"
  op_opendir :: "addr \<Rightarrow> u8 list \<Rightarrow> 'f \<Rightarrow> 'f \<times> nat"
  op_readdir :: "addr \<Rightarrow> 'f \<Rightarrow> 'f \<times> nat \<times> filinfo"
  op_closedir :: "addr \<Rightarrow> 'f \<Rightarrow> 'f \<times> nat"
  op_stat :: "u8 list \<Rightarrow> 'f \<Rightarrow> 'f \<times> nat \<times> filinfo"
  op_getfree :: "nat \<Rightarrow> 'f \<Rightarrow> 'f \<times> nat \<times> u32 \<times> fatfs"

section \<open>Names and directories\<close>

text \<open>A call by name into the file system, after the volumes are mounted.\<close>

definition fat_call :: "('h, 'd, 'f) sys_env \<Rightarrow> ('f \<Rightarrow> 'f \<times> nat) \<Rightarrow> ('h, 'd, 'f) kern \<Rightarrow> (int, 'h, 'd, 'f) kres" where
  "fat_call e op k = kbind (check_automount e k) (\<lambda>(_, k).
     let (fs, res) = op (k_fs k) in Some (Ret (ffres2errno res (k\<lparr>k_fs := fs\<rparr>))))"

definition creat :: "('h, 'd, 'f) sys_env \<Rightarrow> u32 \<Rightarrow> u8 list \<Rightarrow> ('h, 'd, 'f) kern \<Rightarrow> (int, 'h, 'd, 'f) kres" where
  "creat e fil_size path k = kbind (check_automount e k) (\<lambda>(_, k).
     k_open e fil_size path (O_CREAT OR O_TRUNC OR O_WRONLY) k)"

definition unlink :: "('h, 'd, 'f) sys_env \<Rightarrow> 'f fat_ops \<Rightarrow> u8 list \<Rightarrow> ('h, 'd, 'f) kern \<Rightarrow> (int, 'h, 'd, 'f) kres" where
  "unlink e fo path k = fat_call e (op_unlink fo path) k"

text \<open>\<^verbatim>\<open>chdir\<close> reads the characters 1 and 2 of the path; an empty path has none.\<close>

definition chdir :: "('h, 'd, 'f) sys_env \<Rightarrow> 'f fat_ops \<Rightarrow> u8 list \<Rightarrow> ('h, 'd, 'f) kern \<Rightarrow> (int, 'h, 'd, 'f) kres" where
  "chdir e fo path k =
     fat_call e (if length path = 2 \<and> path ! 1 = 0x3a then op_chdrive fo path else op_chdir fo path) k"

text \<open>\<^verbatim>\<open>getcwd\<close>: the address of the buffer and what f_getcwd stores there; FF_MAX_LFN is 255.\<close>

definition getcwd :: "('h, 'd, 'f) sys_env \<Rightarrow> 'f fat_ops \<Rightarrow> addr \<Rightarrow> u32 \<Rightarrow> ('h, 'd, 'f) kern \<Rightarrow> (addr \<times> u8 list, 'h, 'd, 'f) kres" where
  "getcwd e fo buf size0 k =
     kbind (check_automount e k) (\<lambda>(_, k).
     kbind (if buf = 0 then k_malloc e 255 k else kret buf k) (\<lambda>(buf, k).
       if buf = 0 then kret (buf, []) (set_errno ENOMEM k)
       else
         (let (fs, res, cs) = op_getcwd fo size0 (k_fs k); (_, k) = ffres2errno res (k\<lparr>k_fs := fs\<rparr>)
          in kret (buf, cs) k)))"

definition mkdir :: "('h, 'd, 'f) sys_env \<Rightarrow> 'f fat_ops \<Rightarrow> u8 list \<Rightarrow> ('h, 'd, 'f) kern \<Rightarrow> (int, 'h, 'd, 'f) kres" where
  "mkdir e fo path k = fat_call e (op_mkdir fo path) k"

definition rmdir :: "('h, 'd, 'f) sys_env \<Rightarrow> 'f fat_ops \<Rightarrow> u8 list \<Rightarrow> ('h, 'd, 'f) kern \<Rightarrow> (int, 'h, 'd, 'f) kres" where
  "rmdir e fo path k = fat_call e (op_rmdir fo path) k"

definition rename :: "('h, 'd, 'f) sys_env \<Rightarrow> 'f fat_ops \<Rightarrow> u8 list \<Rightarrow> u8 list \<Rightarrow> ('h, 'd, 'f) kern \<Rightarrow> (int, 'h, 'd, 'f) kres" where
  "rename e fo from_path to_path k = fat_call e (op_rename fo from_path to_path) k"

text \<open>\<open>dir_size\<close> is the size of a DIR.\<close>

definition opendir :: "('h, 'd, 'f) sys_env \<Rightarrow> 'f fat_ops \<Rightarrow> u32 \<Rightarrow> u8 list \<Rightarrow> ('h, 'd, 'f) kern \<Rightarrow> (addr, 'h, 'd, 'f) kres" where
  "opendir e fo dir_size path k =
     kbind (k_malloc e dir_size k) (\<lambda>(dirp, k).
     kbind (check_automount e k) (\<lambda>(_, k).
       if dirp = 0 then kret dirp (set_errno EINVAL k)
       else
         (let (fs, res) = op_opendir fo dirp path (k_fs k); (r, k) = ffres2errno res (k\<lparr>k_fs := fs\<rparr>)
          in if r \<noteq> 0 then kbind (k_free e dirp k) (\<lambda>(_, k). kret 0 k) else kret dirp k)))"

record dirent =
  d_type :: u8
  d_namlen :: u8
  d_name :: "u8 list"

abbreviation "AM_RDO \<equiv> 0x01 :: u8"
abbreviation "AM_SYS \<equiv> 0x04 :: u8"
abbreviation "AM_DIR \<equiv> 0x10 :: u8"

text \<open>The entry that \<^verbatim>\<open>readdir\<close> fills in; the length is kept in 8 bits.\<close>

definition dirent_of :: "filinfo \<Rightarrow> dirent" where
  "dirent_of fi =
     (let n = (of_nat (length (fi_fname fi)) :: u8);
          n = (if (ucast n :: u32) > 256 - 1 then 255 else n)
      in \<lparr>d_type = if fi_fattrib fi AND AM_DIR \<noteq> 0 then 4 else 8, d_namlen = n, d_name = take (unat n) (fi_fname fi)\<rparr>)"

definition readdir :: "'f fat_ops \<Rightarrow> addr \<Rightarrow> ('h, 'd, 'f) kern \<Rightarrow> dirent option \<times> ('h, 'd, 'f) kern" where
  "readdir fo dirp k =
     (if dirp = 0 then (None, set_errno EINVAL k)
      else
        (let (fs, res, fi) = op_readdir fo dirp (k_fs k); (r, k) = ffres2errno res (k\<lparr>k_fs := fs\<rparr>)
         in if r \<noteq> 0 \<or> fi_fname fi = [] then (None, k) else (Some (dirent_of fi), k)))"

definition closedir :: "('h, 'd, 'f) sys_env \<Rightarrow> 'f fat_ops \<Rightarrow> addr \<Rightarrow> ('h, 'd, 'f) kern \<Rightarrow> (int, 'h, 'd, 'f) kres" where
  "closedir e fo dirp k =
     (let (fs, res) = op_closedir fo dirp (k_fs k)
      in kbind (k_free e dirp (k\<lparr>k_fs := fs\<rparr>)) (\<lambda>(_, k). Some (Ret (ffres2errno res k))))"

section \<open>File status\<close>

record stat =
  st_size :: u32
  st_mtime :: int
  st_atime :: int
  st_ctime :: int
  st_mode :: u16

text \<open>The broken-down time of a time stamp; the fields that timegm does not read are not set.\<close>

definition stat_tm :: "u16 \<Rightarrow> u16 \<Rightarrow> tm" where
  "stat_tm ftime fdate =
     \<lparr>tm_sec = uint (ftime AND 0x1f) * 2, tm_min = uint (drop_bit 5 ftime AND 0x3f), tm_hour = uint (drop_bit 11 ftime),
      tm_mday = uint (fdate AND 0x1f), tm_mon = uint (drop_bit 5 fdate AND 0xf) - 1, tm_year = uint (drop_bit 9 fdate) + 80,
      tm_wday = 0, tm_yday = 0, tm_isdst = 0\<rparr>"

definition stat_mode :: "u8 \<Rightarrow> u16" where
  "stat_mode fattrib =
     (let mode = (if fattrib AND AM_DIR \<noteq> 0 then 0x4000 else 0);
          mode = mode OR (0x100 OR 0x20 OR 0x4);
          mode = (if fattrib AND AM_RDO = 0 then mode OR (0x80 OR 0x10 OR 0x2) else mode)
      in if fattrib AND AM_SYS \<noteq> 0 then mode OR (0x40 OR 0x8 OR 0x1) else mode)"

text \<open>\<^verbatim>\<open>stat\<close>: a failing f_stat gives its result code and leaves the structure alone.\<close>

definition k_stat :: "'f fat_ops \<Rightarrow> u8 list \<Rightarrow> stat \<Rightarrow> ('h, 'd, 'f) kern \<Rightarrow> int \<times> stat \<times> ('h, 'd, 'f) kern" where
  "k_stat fo path sb k =
     (let (fs, res, fi) = op_stat fo path (k_fs k); k = k\<lparr>k_fs := fs\<rparr>
      in if res \<noteq> 0 then (int res, sb, k)
         else
           (let t = timegm (stat_tm (fi_ftime fi) (fi_fdate fi))
            in (0, \<lparr>st_size = fi_fsize fi, st_mtime = t, st_atime = t, st_ctime = t, st_mode = stat_mode (fi_fattrib fi)\<rparr>, k)))"

section \<open>Volumes\<close>

record statfs =
  f_bsize :: u16
  f_blocks :: u32
  f_bavail :: u32
  f_bfree :: u32
  f_mnt :: nat

text \<open>
  The entries \<^verbatim>\<open>getfsstat\<close> stores, one for each mounted volume that answers, and
  their number.  \<open>f_mnt\<close> stands for the names copied from the volume's
  \<^verbatim>\<open>disk_i\<close> entry.
\<close>

function fsstat_loop :: "'f fat_ops \<Rightarrow> bool \<Rightarrow> nat \<Rightarrow> nat \<Rightarrow> statfs list \<Rightarrow> ('h, 'd, 'f) kern \<Rightarrow> nat \<times> statfs list \<times> ('h, 'd, 'f) kern" where
  "fsstat_loop fo has_buf i mounts out k =
     (if i < 4 then
        (if k_mounts k ! i = 0 then fsstat_loop fo has_buf (Suc i) mounts out k
         else
           (let (fsys, res, free_clus, fs) = op_getfree fo i (k_fs k); k = k\<lparr>k_fs := fsys\<rparr> in
            if res \<noteq> 0 then fsstat_loop fo has_buf (Suc i) mounts out k
            else if \<not> has_buf then fsstat_loop fo has_buf (Suc i) (Suc mounts) out k
            else
              (let tot_sec = (fs_n_fatent fs - 2) * ucast (fs_csize fs); free_sec = free_clus * ucast (fs_csize fs)
               in fsstat_loop fo has_buf (Suc i) (Suc mounts)
                    (out @ [\<lparr>f_bsize = fs_ssize fs, f_blocks = tot_sec, f_bavail = free_sec, f_bfree = free_sec, f_mnt = i\<rparr>]) k)))
      else (mounts, out, k))"
  by pat_completeness auto
termination by (relation "measure (\<lambda>(_, _, i, _). 4 - i)") auto

declare fsstat_loop.simps [simp del]

definition getfsstat :: "'f fat_ops \<Rightarrow> bool \<Rightarrow> ('h, 'd, 'f) kern \<Rightarrow> nat \<times> statfs list \<times> ('h, 'd, 'f) kern" where
  "getfsstat fo has_buf k = fsstat_loop fo has_buf 0 0 [] k"

section \<open>Time stamps\<close>

text \<open>The fields of a time stamp, each reduced to its width.\<close>

lemma stamp_fields:
  fixes y mo da ho mi se :: u32
  assumes w: "w = push_bit 25 (take_bit 7 y) OR push_bit 21 (take_bit 4 mo) OR push_bit 16 (take_bit 5 da)
    OR push_bit 11 (take_bit 5 ho) OR push_bit 5 (take_bit 6 mi) OR take_bit 5 se"
  shows "ucast (drop_bit 9 (ucast (drop_bit 16 w) :: u16)) = take_bit 7 y"
    "ucast (take_bit 4 (drop_bit 5 (ucast (drop_bit 16 w) :: u16))) = take_bit 4 mo"
    "ucast (take_bit 5 (ucast (drop_bit 16 w) :: u16)) = take_bit 5 da"
    "ucast (drop_bit 11 (ucast w :: u16)) = take_bit 5 ho"
    "ucast (take_bit 6 (drop_bit 5 (ucast w :: u16))) = take_bit 6 mi"
    "ucast (take_bit 5 (ucast w :: u16)) = take_bit 5 se"
  unfolding w by (rule bit_word_eqI; auto simp: bit_simps)+

lemma uint_field: "0 \<le> v \<Longrightarrow> v < 2 ^ n \<Longrightarrow> n < 32 \<Longrightarrow> uint (take_bit n (word_of_int v :: u32)) = v"
proof -
  assume v: "0 \<le> v" "v < 2 ^ n" and n: "n < 32"
  have "(2 :: int) ^ n \<le> 2 ^ 31" using n by (intro power_increasing) auto
  then have "uint (word_of_int v :: u32) = v" using v by (simp add: unsigned_of_int take_bit_eq_mod)
  then show ?thesis using v by (simp add: unsigned_take_bit_eq take_bit_int_eq_self)
qed

lemma field_id: "0 \<le> v \<Longrightarrow> v < 2 ^ n \<Longrightarrow> n < 32 \<Longrightarrow> take_bit n (word_of_int v :: u32) = word_of_int v"
  using uint_field [of v n] by (metis word_of_int_uint)

lemma uint_up: "uint (x :: u16) = uint (ucast x :: u32)"
  by (simp add: unsigned_ucast_eq take_bit_int_eq_self unsigned_less [of x, THEN order.strict_trans])

definition stamp_ok :: "tm \<Rightarrow> bool" where
  "stamp_ok t \<longleftrightarrow> 80 \<le> tm_year t \<and> tm_year t < 208 \<and> 0 \<le> tm_mon t \<and> tm_mon t < 12 \<and> 0 \<le> tm_mday t \<and> tm_mday t < 32 \<and>
     0 \<le> tm_hour t \<and> tm_hour t < 24 \<and> 0 \<le> tm_min t \<and> tm_min t < 60 \<and> 0 \<le> tm_sec t \<and> tm_sec t \<le> 60"

lemma stamp_sec: "stamp_ok t \<Longrightarrow> tm_sec t div 2 < 32"
  unfolding stamp_ok_def by arith

lemma fattime_fields:
  assumes "stamp_ok t"
  shows "fattime t = push_bit 25 (take_bit 7 (word_of_int (tm_year t - 80))) OR push_bit 21 (take_bit 4 (word_of_int (tm_mon t + 1)))
    OR push_bit 16 (take_bit 5 (word_of_int (tm_mday t))) OR push_bit 11 (take_bit 5 (word_of_int (tm_hour t)))
    OR push_bit 5 (take_bit 6 (word_of_int (tm_min t))) OR take_bit 5 (word_of_int (tm_sec t div 2))"
proof -
  have y: "word_of_int (tm_year t) - 80 = (word_of_int (tm_year t - 80) :: u32)"
    "word_of_int (tm_mon t) + 1 = (word_of_int (tm_mon t + 1) :: u32)" by simp_all
  have d: "drop_bit 1 (tm_sec t) = tm_sec t div 2" by (simp add: drop_bit_eq_div)
  have f: "take_bit 7 (word_of_int (tm_year t - 80) :: u32) = word_of_int (tm_year t - 80)"
    "take_bit 4 (word_of_int (tm_mon t + 1) :: u32) = word_of_int (tm_mon t + 1)"
    "take_bit 5 (word_of_int (tm_mday t) :: u32) = word_of_int (tm_mday t)"
    "take_bit 5 (word_of_int (tm_hour t) :: u32) = word_of_int (tm_hour t)"
    "take_bit 6 (word_of_int (tm_min t) :: u32) = word_of_int (tm_min t)"
    "take_bit 5 (word_of_int (tm_sec t div 2) :: u32) = word_of_int (tm_sec t div 2)"
    using assms stamp_sec [OF assms] unfolding stamp_ok_def by (intro field_id; simp)+
  show ?thesis unfolding fattime_def y d f ..
qed

lemma and_masks_16: "(x :: u16) AND 0x1f = take_bit 5 x" "x AND 0x3f = take_bit 6 x" "x AND 0xf = take_bit 4 x"
  by (simp_all add: take_bit_eq_mask mask_eq_exp_minus_1)

lemma stat_tm_fattime:
  assumes ok: "stamp_ok t"
  shows "stat_tm (ucast (fattime t)) (ucast (drop_bit 16 (fattime t))) =
    \<lparr>tm_sec = tm_sec t div 2 * 2, tm_min = tm_min t, tm_hour = tm_hour t, tm_mday = tm_mday t, tm_mon = tm_mon t,
     tm_year = tm_year t, tm_wday = 0, tm_yday = 0, tm_isdst = 0\<rparr>"
proof -
  note f = stamp_fields [OF fattime_fields [OF ok]]
  have g: "uint (take_bit 7 (word_of_int (tm_year t - 80) :: u32)) = tm_year t - 80"
    "uint (take_bit 4 (word_of_int (tm_mon t + 1) :: u32)) = tm_mon t + 1"
    "uint (take_bit 5 (word_of_int (tm_mday t) :: u32)) = tm_mday t"
    "uint (take_bit 5 (word_of_int (tm_hour t) :: u32)) = tm_hour t"
    "uint (take_bit 6 (word_of_int (tm_min t) :: u32)) = tm_min t"
    "uint (take_bit 5 (word_of_int (tm_sec t div 2) :: u32)) = tm_sec t div 2"
    using ok stamp_sec [OF ok] unfolding stamp_ok_def by (intro uint_field; simp)+
  show ?thesis unfolding stat_tm_def and_masks_16 uint_up f g by simp
qed

text \<open>C22: The time stamp that get_fattime makes of a time from 1980 to 2107, which the file system
  keeps as a date and a time of 16 bits each, is decoded by stat to that time, the seconds
  rounded down to even: the modification time is the timegm of it.\<close>
theorem stat_of_fattime:
  assumes "stamp_ok t" "op_stat fo path (k_fs k) = (fs, 0, fi)"
    "fi_ftime fi = ucast (fattime t)" "fi_fdate fi = ucast (drop_bit 16 (fattime t))"
  shows "fst (k_stat fo path sb k) = 0 \<and>
    st_mtime (fst (snd (k_stat fo path sb k))) = timegm (t\<lparr>tm_sec := tm_sec t div 2 * 2\<rparr>)"
  using assms stat_tm_fattime [OF assms(1)] by (simp add: k_stat_def Let_def timegm_def)

definition demo_tm :: tm where
  "demo_tm = \<lparr>tm_sec = 59, tm_min = 30, tm_hour = 12, tm_mday = 17, tm_mon = 10, tm_year = 126, tm_wday = 2, tm_yday = 320, tm_isdst = 0\<rparr>"

definition demo_fat :: "unit fat_ops" where
  "demo_fat = \<lparr>op_unlink = \<lambda>_ f. (f, 0), op_chdrive = \<lambda>_ f. (f, 0), op_chdir = \<lambda>_ f. (f, 0), op_mkdir = \<lambda>_ f. (f, 0),
     op_rmdir = \<lambda>_ f. (f, 0), op_rename = \<lambda>_ _ f. (f, 0), op_getcwd = \<lambda>_ f. (f, 0, []), op_opendir = \<lambda>_ _ f. (f, 0),
     op_readdir = \<lambda>_ f. (f, 4, \<lparr>fi_fsize = 0, fi_fdate = 0, fi_ftime = 0, fi_fattrib = 0, fi_fname = []\<rparr>),
     op_closedir = \<lambda>_ f. (f, 0),
     op_stat = \<lambda>_ f. (f, 0, \<lparr>fi_fsize = 5, fi_fdate = ucast (drop_bit 16 (fattime demo_tm)), fi_ftime = ucast (fattime demo_tm),
       fi_fattrib = 0, fi_fname = [0x61]\<rparr>),
     op_getfree = \<lambda>_ f. (f, 1, 0, \<lparr>fs_n_fatent = 2, fs_csize = 1, fs_ssize = 512\<rparr>)\<rparr>"

theorem stat_of_fattime_witness:
  "st_mtime (fst (snd (k_stat demo_fat [0x61] \<lparr>st_size = 0, st_mtime = 0, st_atime = 0, st_ctime = 0, st_mode = 0\<rparr> demo_kern)))
   = timegm (demo_tm\<lparr>tm_sec := 58\<rparr>)"
proof -
  have ok: "stamp_ok demo_tm" by (simp add: stamp_ok_def demo_tm_def)
  have "tm_sec demo_tm div 2 * 2 = 58" by (simp add: demo_tm_def)
  with stat_of_fattime [OF ok, of demo_fat "[0x61]" demo_kern "()"] show ?thesis by (simp add: demo_fat_def)
qed

end
