(* ===== verification/Boot.thy ===== *)
theory Boot
  imports Sio Spi
begin

text \<open>
  The boot loaders: the binary download protocol of boot/rom/loader.c and
  boot/sio/binboot.c and the S-record loader of boot/sio/loader.c.  The serial
  port is a device; the time stamp counter that paces the LEDs is an operation
  on it.  A wait for a character that never arrives gives None.
\<close>

section \<open>The serial port of the loaders\<close>

abbreviation "IO_LED \<equiv> 0xffffff10 :: u32"
abbreviation "IO_SIO_BAUD \<equiv> 0xfffffb08 :: u32"

definition INB :: "'d device \<Rightarrow> u32 \<Rightarrow> 'd \<Rightarrow> u32 \<times> 'd" where
  "INB dv port d = (let (b, d) = dv_load dv port d in (scast b, d))"

definition OUTB :: "'d device \<Rightarrow> u32 \<Rightarrow> u32 \<Rightarrow> 'd \<Rightarrow> 'd" where
  "OUTB dv port data d = dv_store dv port (ucast data) d"

partial_function (option) pchar :: "'d device \<Rightarrow> u8 \<Rightarrow> 'd \<Rightarrow> 'd option" where
  "pchar dv c d =
     (let (s, d) = INB dv (IO_SIO_0 + SIO_REG_STATUS) d
      in if s AND SIO_TX_BUSY \<noteq> 0 then pchar dv c d
         else Some (dv_store dv (IO_SIO_0 + SIO_REG_DATA) c d))"

partial_function (option) sio_getch :: "'d device \<Rightarrow> 'd \<Rightarrow> (u8 \<times> 'd) option" where
  "sio_getch dv d =
     (let (s, d) = INB dv (IO_SIO_0 + SIO_REG_STATUS) d
      in if s AND SIO_RX_FULL = 0 then sio_getch dv d
         else (let (c, d) = INB dv (IO_SIO_0 + SIO_REG_DATA) d in Some (ucast c, d)))"

text \<open>binboot blinks while it waits for a command; \<open>tsc\<close> reads the time stamp counter.\<close>

partial_function (option) sio_getch_blink :: "'d device \<Rightarrow> ('d \<Rightarrow> u32 \<times> 'd) \<Rightarrow> 'd \<Rightarrow> (u8 \<times> 'd) option" where
  "sio_getch_blink dv tsc d =
     (let (c, d) = tsc d;
          d = OUTB dv IO_LED (drop_bit 24 c) d;
          (s, d) = INB dv (IO_SIO_0 + SIO_REG_STATUS) d
      in if s AND SIO_RX_FULL = 0 then sio_getch_blink dv tsc d
         else (let (c, d) = INB dv (IO_SIO_0 + SIO_REG_DATA) d in Some (ucast c, d)))"

definition hex_char :: "u8 \<Rightarrow> u8" where
  "hex_char n = (let hc = n + 0x30 in if hc > 0x39 then hc + (0x61 - 0x39 - 1) else hc)"

definition phex :: "'d device \<Rightarrow> u8 \<Rightarrow> 'd \<Rightarrow> 'd option" where
  "phex dv c d =
     do {
       d \<leftarrow> pchar dv (hex_char (drop_bit 4 c AND 0xf)) d;
       pchar dv (hex_char (c AND 0xf)) d
     }"

definition phex32 :: "'d device \<Rightarrow> u32 \<Rightarrow> 'd \<Rightarrow> 'd option" where
  "phex32 dv c d =
     do {
       d \<leftarrow> phex dv (ucast (drop_bit 24 c)) d;
       d \<leftarrow> phex dv (ucast (drop_bit 16 c)) d;
       d \<leftarrow> phex dv (ucast (drop_bit 8 c)) d;
       phex dv (ucast c) d
     }"

fun boot_puts :: "'d device \<Rightarrow> u8 list \<Rightarrow> 'd \<Rightarrow> 'd option" where
  "boot_puts dv [] d = Some d"
| "boot_puts dv (c # cs) d =
     do {
       d \<leftarrow> (if c = 0x0a then pchar dv 0x0d d else Some d);
       d \<leftarrow> pchar dv c d;
       boot_puts dv cs d
     }"

section \<open>The binary protocol\<close>

record bin_state =
  b_crc :: u32
  b_base :: u32
  b_len :: u32

definition crc_rot :: "u32 \<Rightarrow> u32" where
  "crc_rot crc = drop_bit 31 crc OR push_bit 1 crc"

fun get_base :: "'d device \<Rightarrow> nat \<Rightarrow> u32 \<Rightarrow> 'd \<Rightarrow> (u32 \<times> 'd) option" where
  "get_base dv 0 base d = Some (base, d)"
| "get_base dv (Suc n) base d =
     do {
       (c, d) \<leftarrow> sio_getch dv d;
       get_base dv n (push_bit 8 base + ucast c) d
     }"

fun put_crc :: "'d device \<Rightarrow> nat \<Rightarrow> u32 \<Rightarrow> 'd \<Rightarrow> 'd option" where
  "put_crc dv 0 t d = Some d"
| "put_crc dv (Suc n) t d =
     do {
       d \<leftarrow> pchar dv (ucast (drop_bit 24 t)) d;
       put_crc dv n (push_bit 8 t) d
     }"

fun write_block :: "'d device \<Rightarrow> nat \<Rightarrow> addr \<Rightarrow> u32 \<Rightarrow> mem \<Rightarrow> 'd \<Rightarrow> (u32 \<times> mem \<times> 'd) option" where
  "write_block dv 0 cp crc m d = Some (crc, m, d)"
| "write_block dv (Suc n) cp crc m d =
     do {
       (t, d) \<leftarrow> sio_getch dv d;
       write_block dv n (cp + 1) (crc_rot crc + ucast t) (m(cp := t)) d
     }"

text \<open>\<open>sx\<close> converts a char to 32 bits: with its sign on MIPS, without on RISC-V.\<close>

fun read_block :: "(u8 \<Rightarrow> u32) \<Rightarrow> 'd device \<Rightarrow> nat \<Rightarrow> addr \<Rightarrow> u32 \<Rightarrow> mem \<Rightarrow> 'd \<Rightarrow> (u32 \<times> 'd) option" where
  "read_block sx dv 0 cp crc m d = Some (crc, d)"
| "read_block sx dv (Suc n) cp crc m d =
     do {
       d \<leftarrow> pchar dv (m cp) d;
       read_block sx dv n (cp + 1) (crc_rot crc + sx (m cp)) m d
     }"

text \<open>The commands that both loaders have; the flag tells whether the command was one of them.\<close>

definition bin_cmd :: "'d device \<Rightarrow> u8 \<Rightarrow> bin_state \<Rightarrow> mem \<Rightarrow> 'd \<Rightarrow> (bool \<times> bin_state \<times> mem \<times> 'd) option" where
  "bin_cmd dv i b m d =
     (if i = 0x80 then map_option (\<lambda>(base, d). (True, b\<lparr>b_base := base\<rparr>, m, d)) (get_base dv 4 (b_base b) d)
      else if i = 0x81 then map_option (\<lambda>d. (True, b, m, d)) (put_crc dv 4 (b_crc b) d)
      else if i = 0x90 then Some (True, b\<lparr>b_len := b_base b\<rparr>, m, d)
      else if i = 0x91 then Some (True, b\<lparr>b_crc := b_base b\<rparr>, m, d)
      else if i = 0xa0 then
        map_option (\<lambda>(crc, m, d). (True, b\<lparr>b_crc := crc\<rparr>, m, d)) (write_block dv (unat (b_len b)) (b_base b) 0 m d)
      else Some (False, b, m, d))"

partial_function (option) sio_load_binary :: "(u8 \<Rightarrow> u32) \<Rightarrow> 'd device \<Rightarrow> bin_state \<Rightarrow> mem \<Rightarrow> 'd \<Rightarrow> (addr \<times> mem \<times> 'd) option" where
  "sio_load_binary sx dv b m d =
     do {
       (i, d) \<leftarrow> sio_getch dv (OUTB dv IO_LED (drop_bit 10 (b_base b)) d);
       (done_cmd, b, m, d) \<leftarrow> bin_cmd dv i b m d;
       if done_cmd then sio_load_binary sx dv b m d
       else if i = 0xa1 then
         do {
           (crc, d) \<leftarrow> read_block sx dv (unat (b_len b)) (b_base b) 0 m d;
           sio_load_binary sx dv (b\<lparr>b_crc := crc\<rparr>) m d
         }
       else if i = 0xb0 then
         sio_load_binary sx dv b m
           (OUTB dv IO_SIO_BAUD (if b_base b = 3000000 then 15 else if b_base b = 1000000 then 13 else 9) d)
       else if i = 0xb1 then Some (b_base b, m, d)
       else sio_load_binary sx dv b m d
     }"

datatype boot_exit = Jump addr | HexLoader

partial_function (option) binboot :: "'d device \<Rightarrow> ('d \<Rightarrow> u32 \<times> 'd) \<Rightarrow> bin_state \<Rightarrow> mem \<Rightarrow> 'd \<Rightarrow> (boot_exit \<times> mem \<times> 'd) option" where
  "binboot dv tsc b m d =
     do {
       (i, d) \<leftarrow> sio_getch_blink dv tsc d;
       (done_cmd, b, m, d) \<leftarrow> bin_cmd dv i b m d;
       if done_cmd then binboot dv tsc b m d
       else if i = 0xb1 then Some (Jump (b_base b), m, d)
       else Some (HexLoader, m, d)
     }"

definition bin_init :: bin_state where
  "bin_init = \<lparr>b_crc = 0, b_base = 0, b_len = 0\<rparr>"

section \<open>What the host sends\<close>

definition be32 :: "u32 \<Rightarrow> u8 list" where
  "be32 w = [ucast (drop_bit 24 w), ucast (drop_bit 16 w), ucast (drop_bit 8 w), ucast w]"

text \<open>Set the length, set the address, write the block, ask for the checksum.\<close>

definition host_block :: "addr \<times> u8 list \<Rightarrow> u8 list" where
  "host_block = (\<lambda>(a, bs). 0x80 # be32 (of_nat (length bs)) @ 0x90 # 0x80 # be32 a @ 0xa0 # bs @ [0x81])"

definition host_stream :: "(addr \<times> u8 list) list \<Rightarrow> addr \<Rightarrow> u8 list" where
  "host_stream bl go = concat (map host_block bl) @ 0x80 # be32 go @ [0xb1]"

definition block_crc :: "u8 list \<Rightarrow> u32" where
  "block_crc bs = fold (\<lambda>b crc. crc_rot crc + ucast b) bs 0"

definition load_blocks :: "(addr \<times> u8 list) list \<Rightarrow> mem \<Rightarrow> mem" where
  "load_blocks bl m = fold (\<lambda>(a, bs) m. put_bytes m a bs) bl m"

text \<open>The serial port works, and neither the LEDs nor the counter disturb it.\<close>

definition boot_uart :: "'d device \<Rightarrow> ('d \<Rightarrow> u32 \<times> 'd) \<Rightarrow> ('d \<Rightarrow> u8 list) \<Rightarrow> ('d \<Rightarrow> u8 list) \<Rightarrow> ('d \<Rightarrow> nat) \<Rightarrow> bool" where
  "boot_uart dv tsc rx tx busy \<longleftrightarrow> uart_ok dv IO_SIO_0 rx tx busy \<and>
     (\<forall>d b. rx (dv_store dv IO_LED b d) = rx d \<and> tx (dv_store dv IO_LED b d) = tx d) \<and>
     (\<forall>d. rx (snd (tsc d)) = rx d \<and> tx (snd (tsc d)) = tx d)"

lemma boot_status:
  assumes "boot_uart dv tsc rx tx busy"
  obtains s d' where "INB dv (IO_SIO_0 + SIO_REG_STATUS) d = (s, d')" "s AND SIO_RX_FULL = (if rx d = [] then 0 else 1)"
    "s AND SIO_TX_BUSY = (if busy d = 0 then 0 else 2)" "rx d' = rx d" "tx d' = tx d" "busy d' = busy d - 1"
proof -
  have u: "uart_ok dv IO_SIO_0 rx tx busy" using assms by (simp add: boot_uart_def)
  obtain d' where "dv_load dv (IO_SIO_0 + SIO_REG_STATUS) d =
      ((if rx d = [] then 0 else 1) OR (if busy d = 0 then 0 else 2), d')" "rx d' = rx d" "tx d' = tx d" "busy d' = busy d - 1"
    using uart_status [OF u, of d] by blast
  then show ?thesis
    by (intro that [of "scast ((if rx d = [] then 0 else 1) OR (if busy d = 0 then 0 else 2) :: u8)" d'])
      (auto simp: INB_def)
qed

lemma boot_data:
  assumes "boot_uart dv tsc rx tx busy" "rx d = c # cs"
  obtains d' where "INB dv (IO_SIO_0 + SIO_REG_DATA) d = (scast c, d')" "rx d' = cs" "tx d' = tx d"
  using uart_data [of dv IO_SIO_0 rx tx busy d c cs] assms that by (auto simp: boot_uart_def INB_def)

lemma ucast_scast_u8: "ucast (scast (c :: u8) :: u32) = c"
  by (rule bit_word_eqI) (auto simp: bit_simps)

lemma sio_getch_char:
  assumes u: "boot_uart dv tsc rx tx busy" and r: "rx d = c # cs"
  shows "\<exists>d'. sio_getch dv d = Some (c, d') \<and> rx d' = cs \<and> tx d' = tx d"
proof -
  obtain s d1 where 1: "INB dv (IO_SIO_0 + SIO_REG_STATUS) d = (s, d1)" "s AND SIO_RX_FULL = (if rx d = [] then 0 else 1)"
    "rx d1 = rx d" "tx d1 = tx d" by (rule boot_status [OF u])
  have r1: "rx d1 = c # cs" using 1(3) r by simp
  obtain d2 where 2: "INB dv (IO_SIO_0 + SIO_REG_DATA) d1 = (scast c, d2)" "rx d2 = cs" "tx d2 = tx d1"
    by (rule boot_data [OF u r1])
  show ?thesis unfolding sio_getch.simps [of dv d] using 1 2 r by (simp add: ucast_scast_u8)
qed

lemma sio_getch_blink_char:
  assumes u: "boot_uart dv tsc rx tx busy" and r: "rx d = c # cs"
  shows "\<exists>d'. sio_getch_blink dv tsc d = Some (c, d') \<and> rx d' = cs \<and> tx d' = tx d"
proof -
  obtain v d0 where t: "tsc d = (v, d0)" by force
  let ?d = "OUTB dv IO_LED (drop_bit 24 v) d0"
  have 0: "rx ?d = rx d" "tx ?d = tx d" using u t unfolding boot_uart_def OUTB_def by (metis snd_conv)+
  obtain s d1 where 1: "INB dv (IO_SIO_0 + SIO_REG_STATUS) ?d = (s, d1)" "s AND SIO_RX_FULL = (if rx ?d = [] then 0 else 1)"
    "rx d1 = rx ?d" "tx d1 = tx ?d" by (rule boot_status [OF u])
  have r1: "rx d1 = c # cs" using 0 1(3) r by simp
  obtain d2 where 2: "INB dv (IO_SIO_0 + SIO_REG_DATA) d1 = (scast c, d2)" "rx d2 = cs" "tx d2 = tx d1"
    by (rule boot_data [OF u r1])
  show ?thesis unfolding sio_getch_blink.simps [of dv tsc d] using 0 1 2 r t by (simp add: ucast_scast_u8)
qed

lemma pchar_sends:
  assumes u: "boot_uart dv tsc rx tx busy"
  shows "\<exists>d'. pchar dv c d = Some d' \<and> rx d' = rx d \<and> tx d' = tx d @ [c]"
proof (induction "busy d" arbitrary: d)
  case 0
  obtain s d1 where 1: "INB dv (IO_SIO_0 + SIO_REG_STATUS) d = (s, d1)" "s AND SIO_TX_BUSY = (if busy d = 0 then 0 else 2)"
    "rx d1 = rx d" "tx d1 = tx d" by (rule boot_status [OF u])
  have "rx (dv_store dv (IO_SIO_0 + SIO_REG_DATA) c d1) = rx d1 \<and> tx (dv_store dv (IO_SIO_0 + SIO_REG_DATA) c d1) = tx d1 @ [c]"
    using uart_send [of dv IO_SIO_0 rx tx busy c d1] u unfolding boot_uart_def by blast
  then show ?case unfolding pchar.simps [of dv c d] using 0 1 by simp
next
  case (Suc n)
  obtain s d1 where 1: "INB dv (IO_SIO_0 + SIO_REG_STATUS) d = (s, d1)" "s AND SIO_TX_BUSY = (if busy d = 0 then 0 else 2)"
    "rx d1 = rx d" "tx d1 = tx d" "busy d1 = busy d - 1" by (rule boot_status [OF u])
  have "n = busy d1" using 1 Suc(2) by simp
  from Suc(1) [OF this] show ?case unfolding pchar.simps [of dv c d] using 1 Suc(2) by simp
qed

lemma get_base_fold:
  assumes u: "boot_uart dv tsc rx tx busy"
  shows "rx d = bs @ cs \<Longrightarrow> \<exists>d'. get_base dv (length bs) base d =
      Some (fold (\<lambda>b w. push_bit 8 w + ucast b) bs base, d') \<and> rx d' = cs \<and> tx d' = tx d"
proof (induction bs arbitrary: base d)
  case (Cons b bs)
  obtain d1 where 1: "sio_getch dv d = Some (b, d1)" "rx d1 = bs @ cs" "tx d1 = tx d"
    using sio_getch_char [OF u, of d b "bs @ cs"] Cons.prems by auto
  then show ?case using Cons.IH [OF 1(2), of "push_bit 8 base + ucast b"] by auto
qed simp

lemma byte_or_add: "push_bit 8 (w :: u32) + ucast (b :: u8) = push_bit 8 w OR ucast b"
  by (rule disjunctive_add) (auto simp: bit_simps dest: bit_imp_le_length)

lemma fold_be32: "fold (\<lambda>b w. push_bit 8 w + ucast b) (be32 w) (base :: u32) = w"
proof (unfold byte_or_add be32_def, rule bit_word_eqI)
  fix n assume n: "n < LENGTH(32)"
  consider "n < 8" | "8 \<le> n" "n < 16" | "16 \<le> n" "n < 24" | "24 \<le> n" by linarith
  then show "bit (fold (\<lambda>b w. push_bit 8 w OR ucast b) [ucast (drop_bit 24 w), ucast (drop_bit 16 w), ucast (drop_bit 8 w), ucast w :: u8] base) n
      \<longleftrightarrow> bit w n"
    using n by cases (auto simp: bit_simps)
qed

lemma length_be32 [simp]: "length (be32 w) = 4"
  by (simp add: be32_def)

lemma get_base_be32:
  assumes u: "boot_uart dv tsc rx tx busy" and r: "rx d = be32 w @ cs"
  shows "\<exists>d'. get_base dv 4 base d = Some (w, d') \<and> rx d' = cs \<and> tx d' = tx d"
  using get_base_fold [OF u r, of base] by (simp only: fold_be32 length_be32)

lemma put_crc_be32:
  assumes u: "boot_uart dv tsc rx tx busy"
  shows "\<exists>d'. put_crc dv 4 t d = Some d' \<and> rx d' = rx d \<and> tx d' = tx d @ be32 t"
proof -
  have s: "\<exists>d'. pchar dv c d = Some d' \<and> rx d' = rx d \<and> tx d' = tx d @ [c]" for c d using pchar_sends [OF u] .
  have b: "ucast (drop_bit 24 (push_bit 8 t)) = (ucast (drop_bit 16 t) :: u8)"
    "ucast (drop_bit 24 (push_bit 8 (push_bit 8 t))) = (ucast (drop_bit 8 t) :: u8)"
    "ucast (drop_bit 24 (push_bit 8 (push_bit 8 (push_bit 8 t)))) = (ucast t :: u8)"
    by (rule bit_word_eqI; auto simp: bit_simps)+
  obtain d1 where 1: "pchar dv (ucast (drop_bit 24 t)) d = Some d1" "rx d1 = rx d" "tx d1 = tx d @ [ucast (drop_bit 24 t)]"
    using s by blast
  obtain d2 where 2: "pchar dv (ucast (drop_bit 16 t)) d1 = Some d2" "rx d2 = rx d1" "tx d2 = tx d1 @ [ucast (drop_bit 16 t)]"
    using s by blast
  obtain d3 where 3: "pchar dv (ucast (drop_bit 8 t)) d2 = Some d3" "rx d3 = rx d2" "tx d3 = tx d2 @ [ucast (drop_bit 8 t)]"
    using s by blast
  obtain d4 where 4: "pchar dv (ucast t) d3 = Some d4" "rx d4 = rx d3" "tx d4 = tx d3 @ [ucast t]" using s by blast
  have n: "(4 :: nat) = Suc (Suc (Suc (Suc 0)))" by simp
  show ?thesis unfolding n put_crc.simps b using 1 2 3 4 by (simp add: be32_def)
qed

lemma write_block_stores:
  assumes u: "boot_uart dv tsc rx tx busy"
  shows "rx d = bs @ cs \<Longrightarrow> \<exists>d'. write_block dv (length bs) cp crc m d =
      Some (fold (\<lambda>b crc. crc_rot crc + ucast b) bs crc, put_bytes m cp bs, d') \<and> rx d' = cs \<and> tx d' = tx d"
proof (induction bs arbitrary: cp crc m d)
  case (Cons b bs)
  obtain d1 where 1: "sio_getch dv d = Some (b, d1)" "rx d1 = bs @ cs" "tx d1 = tx d"
    using sio_getch_char [OF u, of d b "bs @ cs"] Cons.prems by auto
  then show ?case using Cons.IH [OF 1(2), of "cp + 1" "crc_rot crc + ucast b" "m(cp := b)"] by auto
qed simp

section \<open>Both loaders\<close>

text \<open>A command that ends with the given state, input left and output, whatever the device.\<close>

definition cmd_runs :: "'d device \<Rightarrow> ('d \<Rightarrow> u8 list) \<Rightarrow> ('d \<Rightarrow> u8 list) \<Rightarrow> u8 \<Rightarrow> bin_state \<Rightarrow> mem \<Rightarrow> u8 list \<Rightarrow> u8 list \<Rightarrow>
    bin_state \<Rightarrow> mem \<Rightarrow> u8 list \<Rightarrow> u8 list \<Rightarrow> bool" where
  "cmd_runs dv rx tx i b m cs t b' m' cs' t' \<longleftrightarrow>
     (\<forall>d. rx d = cs \<longrightarrow> tx d = t \<longrightarrow> (\<exists>d'. bin_cmd dv i b m d = Some (True, b', m', d') \<and> rx d' = cs' \<and> tx d' = t'))"

lemma cmd_base: "boot_uart dv tsc rx tx busy \<Longrightarrow> cmd_runs dv rx tx 0x80 b m (be32 w @ cs) t (b\<lparr>b_base := w\<rparr>) m cs t"
  using get_base_be32 [of dv tsc rx tx busy _ w cs "b_base b"] by (fastforce simp: cmd_runs_def bin_cmd_def)

lemma cmd_len: "cmd_runs dv rx tx 0x90 b m cs t (b\<lparr>b_len := b_base b\<rparr>) m cs t"
  by (auto simp: cmd_runs_def bin_cmd_def)

lemma cmd_crc: "boot_uart dv tsc rx tx busy \<Longrightarrow> cmd_runs dv rx tx 0x81 b m cs t b m cs (t @ be32 (b_crc b))"
  using put_crc_be32 [of dv tsc rx tx busy "b_crc b"] by (fastforce simp: cmd_runs_def bin_cmd_def)

lemma cmd_write:
  assumes "boot_uart dv tsc rx tx busy" "unat (b_len b) = length bs"
  shows "cmd_runs dv rx tx 0xa0 b m (bs @ cs) t (b\<lparr>b_crc := block_crc bs\<rparr>) (put_bytes m (b_base b) bs) cs t"
  using write_block_stores [OF assms(1), of _ bs cs "b_base b" 0 m] assms(2)
  by (fastforce simp: cmd_runs_def bin_cmd_def block_crc_def)

text \<open>What the two command loops have in common.\<close>

locale bin_loader =
  fixes dv :: "'d device" and tsc :: "'d \<Rightarrow> u32 \<times> 'd" and rx tx :: "'d \<Rightarrow> u8 list" and busy :: "'d \<Rightarrow> nat"
    and loop :: "bin_state \<Rightarrow> mem \<Rightarrow> 'd \<Rightarrow> ('r \<times> mem \<times> 'd) option" and fin :: "addr \<Rightarrow> 'r"
  assumes loop_cmd: "boot_uart dv tsc rx tx busy \<Longrightarrow> rx d = i # cs \<Longrightarrow> cmd_runs dv rx tx i b m cs (tx d) b' m' cs' t' \<Longrightarrow>
      \<exists>d'. loop b m d = loop b' m' d' \<and> rx d' = cs' \<and> tx d' = t'"
    and loop_go: "boot_uart dv tsc rx tx busy \<Longrightarrow> rx d = 0xb1 # cs \<Longrightarrow>
      \<exists>d'. loop b m d = Some (fin (b_base b), m, d') \<and> rx d' = cs \<and> tx d' = tx d"
begin

lemma loop_block:
  assumes u: "boot_uart dv tsc rx tx busy" and l: "length bs < 2 ^ 32" and r: "rx d = host_block (a, bs) @ cs"
  shows "\<exists>b' d'. loop b m d = loop b' (put_bytes m a bs) d' \<and> rx d' = cs \<and> tx d' = tx d @ be32 (block_crc bs)"
proof -
  let ?n = "of_nat (length bs) :: u32"
  have n: "unat ?n = length bs" using l by (intro unat_of_nat_lt) simp
  define b1 where "b1 = b\<lparr>b_base := ?n\<rparr>"
  define b2 where "b2 = b1\<lparr>b_len := b_base b1\<rparr>"
  define b3 where "b3 = b2\<lparr>b_base := a\<rparr>"
  define b4 where "b4 = b3\<lparr>b_crc := block_crc bs\<rparr>"
  have r0: "rx d = 0x80 # be32 ?n @ 0x90 # 0x80 # be32 a @ 0xa0 # bs @ 0x81 # cs" using r by (simp add: host_block_def)
  obtain d1 where 1: "loop b m d = loop b1 m d1" "rx d1 = 0x90 # 0x80 # be32 a @ 0xa0 # bs @ 0x81 # cs" "tx d1 = tx d"
    using loop_cmd [OF u r0 cmd_base [OF u]] unfolding b1_def by blast
  obtain d2 where 2: "loop b1 m d1 = loop b2 m d2" "rx d2 = 0x80 # be32 a @ 0xa0 # bs @ 0x81 # cs" "tx d2 = tx d1"
    using loop_cmd [OF u 1(2) cmd_len] unfolding b2_def by blast
  obtain d3 where 3: "loop b2 m d2 = loop b3 m d3" "rx d3 = 0xa0 # bs @ 0x81 # cs" "tx d3 = tx d2"
    using loop_cmd [OF u 2(2) cmd_base [OF u]] unfolding b3_def by blast
  have b3: "unat (b_len b3) = length bs" "b_base b3 = a" using n by (simp_all add: b3_def b2_def b1_def)
  obtain d4 where 4: "loop b3 m d3 = loop b4 (put_bytes m a bs) d4" "rx d4 = 0x81 # cs" "tx d4 = tx d3"
    using loop_cmd [OF u 3(2) cmd_write [OF u b3(1)]] unfolding b4_def b3(2) by blast
  obtain d5 where 5: "loop b4 (put_bytes m a bs) d4 = loop b4 (put_bytes m a bs) d5" "rx d5 = cs" "tx d5 = tx d4 @ be32 (b_crc b4)"
    using loop_cmd [OF u 4(2) cmd_crc [OF u]] by blast
  show ?thesis using 1 2 3 4 5 by (intro exI [of _ b4] exI [of _ d5]) (simp add: b4_def)
qed

lemma loop_stream:
  assumes u: "boot_uart dv tsc rx tx busy"
  shows "list_all (\<lambda>(_, bs). length bs < 2 ^ 32) bl \<Longrightarrow> rx d = host_stream bl go @ cs \<Longrightarrow>
    \<exists>d'. loop b m d = Some (fin go, load_blocks bl m, d') \<and> rx d' = cs \<and>
      tx d' = tx d @ concat (map (\<lambda>(_, bs). be32 (block_crc bs)) bl)"
proof (induction bl arbitrary: b m d)
  case Nil
  then have r: "rx d = 0x80 # be32 go @ 0xb1 # cs" by (simp add: host_stream_def)
  obtain d1 where 1: "loop b m d = loop (b\<lparr>b_base := go\<rparr>) m d1" "rx d1 = 0xb1 # cs" "tx d1 = tx d"
    using loop_cmd [OF u r cmd_base [OF u]] by blast
  then show ?case using loop_go [OF u 1(2), of "b\<lparr>b_base := go\<rparr>" m] by (simp add: load_blocks_def)
next
  case (Cons x bl)
  obtain a bs where x: "x = (a, bs)" by force
  have r: "rx d = host_block (a, bs) @ host_stream bl go @ cs" using Cons.prems(2) by (simp add: host_stream_def x)
  have l: "length bs < 2 ^ 32" "list_all (\<lambda>(_, bs). length bs < 2 ^ 32) bl" using Cons.prems(1) x by auto
  obtain b' d1 where 1: "loop b m d = loop b' (put_bytes m a bs) d1" "rx d1 = host_stream bl go @ cs"
    "tx d1 = tx d @ be32 (block_crc bs)" using loop_block [OF u l(1) r] by blast
  then show ?case using Cons.IH [OF l(2) 1(2), of b' "put_bytes m a bs"] by (auto simp: load_blocks_def x)
qed

end

lemma OUTB_led:
  "boot_uart dv tsc rx tx busy \<Longrightarrow> rx (OUTB dv IO_LED v d) = rx d \<and> tx (OUTB dv IO_LED v d) = tx d"
  by (simp add: boot_uart_def OUTB_def)

lemma bin_cmd_go: "bin_cmd dv 0xb1 b m d = Some (False, b, m, d)"
  by (simp add: bin_cmd_def)

interpretation rom: bin_loader dv tsc rx tx busy "sio_load_binary sx dv" "\<lambda>a. a"
proof
  fix d i cs m m' cs' t' and b b' :: bin_state
  assume u: "boot_uart dv tsc rx tx busy" and r: "rx d = i # cs" and c: "cmd_runs dv rx tx i b m cs (tx d) b' m' cs' t'"
  let ?d = "OUTB dv IO_LED (drop_bit 10 (b_base b)) d"
  obtain d1 where 1: "sio_getch dv ?d = Some (i, d1)" "rx d1 = cs" "tx d1 = tx d"
    using sio_getch_char [OF u, of ?d i cs] OUTB_led [OF u] r by metis
  obtain d2 where "bin_cmd dv i b m d1 = Some (True, b', m', d2)" "rx d2 = cs'" "tx d2 = t'"
    using c 1(2,3) unfolding cmd_runs_def by blast
  with 1 show "\<exists>d'. sio_load_binary sx dv b m d = sio_load_binary sx dv b' m' d' \<and> rx d' = cs' \<and> tx d' = t'"
    unfolding sio_load_binary.simps [of sx dv b m d] by (intro exI [of _ d2]) simp
next
  fix d cs m and b :: bin_state
  assume u: "boot_uart dv tsc rx tx busy" and r: "rx d = 0xb1 # cs"
  let ?d = "OUTB dv IO_LED (drop_bit 10 (b_base b)) d"
  obtain d1 where "sio_getch dv ?d = Some (0xb1, d1)" "rx d1 = cs" "tx d1 = tx d"
    using sio_getch_char [OF u, of ?d "0xb1" cs] OUTB_led [OF u] r by metis
  then show "\<exists>d'. sio_load_binary sx dv b m d = Some (b_base b, m, d') \<and> rx d' = cs \<and> tx d' = tx d"
    unfolding sio_load_binary.simps [of sx dv b m d] by (simp add: bin_cmd_go)
qed

interpretation ram: bin_loader dv tsc rx tx busy "binboot dv tsc" Jump
proof
  fix d i cs m m' cs' t' and b b' :: bin_state
  assume u: "boot_uart dv tsc rx tx busy" and r: "rx d = i # cs" and c: "cmd_runs dv rx tx i b m cs (tx d) b' m' cs' t'"
  obtain d1 where 1: "sio_getch_blink dv tsc d = Some (i, d1)" "rx d1 = cs" "tx d1 = tx d"
    using sio_getch_blink_char [OF u r] by blast
  obtain d2 where "bin_cmd dv i b m d1 = Some (True, b', m', d2)" "rx d2 = cs'" "tx d2 = t'"
    using c 1(2,3) unfolding cmd_runs_def by blast
  with 1 show "\<exists>d'. binboot dv tsc b m d = binboot dv tsc b' m' d' \<and> rx d' = cs' \<and> tx d' = t'"
    unfolding binboot.simps [of dv tsc b m d] by (intro exI [of _ d2]) simp
next
  fix d cs m and b :: bin_state
  assume u: "boot_uart dv tsc rx tx busy" and r: "rx d = 0xb1 # cs"
  obtain d1 where "sio_getch_blink dv tsc d = Some (0xb1, d1)" "rx d1 = cs" "tx d1 = tx d"
    using sio_getch_blink_char [OF u r] by blast
  then show "\<exists>d'. binboot dv tsc b m d = Some (Jump (b_base b), m, d') \<and> rx d' = cs \<and> tx d' = tx d"
    unfolding binboot.simps [of dv tsc b m d] by (simp add: bin_cmd_go)
qed

lemma uart_dev_boot: "boot_uart (uart_dev IO_SIO_0) (\<lambda>d. (0, d)) fst (fst \<circ> snd) (snd \<circ> snd)"
  using uart_dev_ok [of IO_SIO_0] by (auto simp: boot_uart_def uart_dev_def)

text \<open>C11: The binary download protocol.  When the host sends blocks - length, address, data, request
  for the checksum - and then a start address and the jump command, both the ROM loader and the RAM
  loader store every block at its address, answer with the checksum of each block, consume exactly
  the bytes sent, and end at the start address.\<close>
theorem load_binary_blocks:
  assumes "boot_uart dv tsc rx tx busy" "list_all (\<lambda>(_, bs). length bs < 2 ^ 32) bl" "rx d = host_stream bl go @ cs"
  shows "(\<exists>d'. sio_load_binary sx dv bin_init m d = Some (go, load_blocks bl m, d') \<and> rx d' = cs \<and>
      tx d' = tx d @ concat (map (\<lambda>(_, bs). be32 (block_crc bs)) bl)) \<and>
    (\<exists>d'. binboot dv tsc bin_init m d = Some (Jump go, load_blocks bl m, d') \<and> rx d' = cs \<and>
      tx d' = tx d @ concat (map (\<lambda>(_, bs). be32 (block_crc bs)) bl))"
  using rom.loop_stream [OF assms] ram.loop_stream [OF assms] by blast

theorem load_binary_blocks_witness:
  "\<exists>d'. sio_load_binary scast (uart_dev IO_SIO_0) bin_init (\<lambda>_. 0)
      (host_stream [(0x400, [1, 2, 0xff])] 0x400 @ [7], [], 1) = Some (0x400, put_bytes (\<lambda>_. 0) 0x400 [1, 2, 0xff], d') \<and>
      fst d' = [7] \<and> fst (snd d') = [0, 0, 1, 7]"
proof -
  have c: "block_crc [1, 2, 0xff] = 0x107" by (simp add: block_crc_def crc_rot_def)
  have e: "be32 0x107 = [0, 0, 1, 7]" by (simp add: be32_def)
  show ?thesis
    using load_binary_blocks [OF uart_dev_boot, of "[(0x400, [1, 2, 0xff])]"
        "(host_stream [(0x400, [1, 2, 0xff])] 0x400 @ [7], [], 1)" "0x400" "[7]" scast "\<lambda>_. 0"]
    by (simp add: load_blocks_def c e)
qed

end
