(* ===== verification/Srec.thy ===== *)
theory Srec
  imports Boot
begin

text \<open>
  The S-record loader of boot/sio/loader.c: its character automaton, its command loop over the
  serial port of the loaders, and what a file of S-records means.
\<close>

section \<open>The S-record loader\<close>

text \<open>
  sio_boot of boot/sio/loader.c, which is also _start of the stand-alone loader.  \<open>bin\<close> tells
  whether the loader was built to start the binary protocol (ROM_LOADER or BIN_LOADER); \<open>pw\<close> are
  the two words of the prompt, which depend on the processor.  \<open>r_pos\<close>, \<open>r_len\<close> and \<open>r_cnt\<close> are
  ints and wrap at 32 bits.
\<close>

record srec =
  r_pos :: int
  r_val :: u32
  r_len :: int
  r_cnt :: int
  r_cp :: addr
  r_base :: addr

datatype srec_act = Loop | Echo | Next | Prompt | Binary | Start

definition srec_digit :: "int \<Rightarrow> u32 \<Rightarrow> u32" where
  "srec_digit c val =
     (let c = (if c \<ge> 97 then c - 32 else c)
      in push_bit 4 val OR (if c \<ge> 65 then word_of_int (c - 65 + 10) else word_of_int (c - 48)))"

definition srec_char :: "bool \<Rightarrow> int \<Rightarrow> srec \<Rightarrow> mem \<Rightarrow> srec_act \<times> srec \<times> mem" where
  "srec_char bin c s m =
     (if r_pos s < 0 then
        if c = 83 then (Loop, s\<lparr>r_pos := 0, r_val := 0\<rparr>, m)
        else if bin \<and> c = - 1 then (Binary, s, m)
        else if c = 13 then (Prompt, s, m)
        else (if c \<ge> 32 then Echo else Loop, s\<lparr>r_val := 0\<rparr>, m)
      else if c \<ge> 10 \<and> c \<le> 13 then (Next, s, m)
      else
        let val = srec_digit c (r_val s);
            pos = sint (word_of_int (r_pos s + 1) :: u32);
            s = s\<lparr>r_val := val, r_pos := pos\<rparr>
        in if pos = 1 then
             if sint val \<ge> 7 \<and> sint val \<le> 9 then (Start, s, m)
             else (Loop, s\<lparr>r_len := (if sint val \<le> 3 then sint (push_bit 1 val + 5) else r_len s), r_val := 0\<rparr>, m)
           else if pos = 3 then (Loop, s\<lparr>r_cnt := sint (word_of_int (r_cnt s) + push_bit 1 val), r_val := 0\<rparr>, m)
           else if r_len s < 6 then (Loop, s, m)
           else if pos = r_len s then
             (Loop, s\<lparr>r_cp := val, r_base := (if r_base s = 0 then val else r_base s)\<rparr>, m)
           else if pos > r_len s \<and> odd pos \<and> pos < r_cnt s then
             (Loop, s\<lparr>r_cp := r_cp s + 1\<rparr>, m(r_cp s := ucast val))
           else (Loop, s, m))"

definition srec_next :: "srec \<Rightarrow> srec" where
  "srec_next s = s\<lparr>r_pos := - 1, r_len := 255, r_cnt := 2\<rparr>"

partial_function (option) prompt_loop :: "'d device \<Rightarrow> u32 \<Rightarrow> u32 \<Rightarrow> int \<Rightarrow> 'd \<Rightarrow> 'd option" where
  "prompt_loop dv second c pos d =
     do {
       d \<leftarrow> pchar dv (ucast c) d;
       let c = signed_drop_bit 8 c in
         if c = 0 \<and> pos = 0 then (if second \<noteq> 0 then prompt_loop dv second second (- 1) d else Some d)
         else if c \<noteq> 0 then prompt_loop dv second c pos d
         else Some d
     }"

partial_function (option) srec_wait :: "'d device \<Rightarrow> ('d \<Rightarrow> u32 \<times> 'd) \<Rightarrow> srec \<Rightarrow> 'd \<Rightarrow> (int \<times> srec \<times> 'd) option" where
  "srec_wait dv tsc s d =
     (let (s, d) =
            (if r_pos s < 0 then
               let (val, d) = tsc d; c = (if val AND 0x08000000 \<noteq> 0 then 0xff else 0) :: u32
               in (s\<lparr>r_val := val\<rparr>,
                   OUTB dv IO_LED (if val AND 0xff > drop_bit 19 val AND 0xff then c XOR 0x0f else c XOR 0xf0) d)
             else (s, OUTB dv IO_LED (signed_drop_bit 8 (r_cp s)) d));
          (st, d) = INB dv (IO_SIO_0 + SIO_REG_STATUS) d
      in if st AND SIO_RX_FULL = 0 then srec_wait dv tsc s d
         else (let (c, d) = INB dv (IO_SIO_0 + SIO_REG_DATA) d in Some (sint c, s, d)))"

datatype sio_exit = StartBinary | StartAt addr

partial_function (option) sio_boot_loop :: "'d device \<Rightarrow> ('d \<Rightarrow> u32 \<times> 'd) \<Rightarrow> bool \<Rightarrow> u32 \<times> u32 \<Rightarrow> srec \<Rightarrow> mem \<Rightarrow> 'd \<Rightarrow>
    (sio_exit \<times> mem \<times> 'd) option" where
  "sio_boot_loop dv tsc bin pw s m d =
     do {
       (c, s, d) \<leftarrow> srec_wait dv tsc s d;
       let (act, s, m) = srec_char bin c s m in
         if act = Start then Some (StartAt (r_base s), m, d)
         else if act = Binary then Some (StartBinary, m, d)
         else if act = Prompt then
           do {
             d \<leftarrow> prompt_loop dv (snd pw) (fst pw) 0 d;
             sio_boot_loop dv tsc bin pw (srec_next s) m d
           }
         else if act = Echo then
           do {
             d \<leftarrow> pchar dv (word_of_int c) d;
             sio_boot_loop dv tsc bin pw s m d
           }
         else sio_boot_loop dv tsc bin pw (if act = Next then srec_next s else s) m d
     }"

definition sio_boot :: "'d device \<Rightarrow> ('d \<Rightarrow> u32 \<times> 'd) \<Rightarrow> bool \<Rightarrow> u32 \<times> u32 \<Rightarrow> mem \<Rightarrow> 'd \<Rightarrow> (sio_exit \<times> mem \<times> 'd) option" where
  "sio_boot dv tsc bin pw m d =
     do {
       d \<leftarrow> prompt_loop dv (snd pw) (fst pw) 0 d;
       sio_boot_loop dv tsc bin pw (srec_next \<lparr>r_pos = 0, r_val = 0, r_len = 0, r_cnt = 0, r_cp = 0, r_base = 0\<rparr>) m d
     }"

section \<open>What an S-record file means\<close>

definition hexd :: "nat \<Rightarrow> u8" where
  "hexd n = (if n < 10 then of_nat (48 + n) else of_nat (55 + n))"

definition hex2 :: "u8 \<Rightarrow> u8 list" where
  "hex2 b = [hexd (unat b div 16), hexd (unat b mod 16)]"

text \<open>A data record: its type (1, 2 or 3: two, three or four bytes of address), address, data and
  checksum, which the loader does not look at.\<close>

type_synonym srecord = "nat \<times> addr \<times> u8 list \<times> u8"

definition srecord_ok :: "srecord \<Rightarrow> bool" where
  "srecord_ok = (\<lambda>(t, a, bs, chk). t \<in> {1, 2, 3} \<and> unat a < 2 ^ (8 * (t + 1)) \<and> length bs + t + 2 < 256)"

definition srecord_text :: "srecord \<Rightarrow> u8 list" where
  "srecord_text = (\<lambda>(t, a, bs, chk). 0x53 # hexd t #
     concat (map hex2 (of_nat (length bs + t + 2) # drop (3 - t) (be32 a) @ bs @ [chk])) @ [0x0a])"

definition srecord_load :: "srecord \<Rightarrow> mem \<Rightarrow> mem" where
  "srecord_load = (\<lambda>(t, a, bs, chk) m. put_bytes m a bs)"

definition srecord_base :: "srecord \<Rightarrow> addr \<Rightarrow> addr" where
  "srecord_base = (\<lambda>(t, a, bs, chk) base. if base = 0 then a else base)"

text \<open>Characters that cause no output.\<close>

fun srec_feed :: "bool \<Rightarrow> u8 list \<Rightarrow> srec \<Rightarrow> mem \<Rightarrow> (srec \<times> mem) option" where
  "srec_feed bin [] s m = Some (s, m)"
| "srec_feed bin (c # cs) s m =
     (case srec_char bin (sint c) s m of (act, s, m) \<Rightarrow>
        if act = Loop then srec_feed bin cs s m else if act = Next then srec_feed bin cs (srec_next s) m else None)"

lemma srec_feed_append:
  "srec_feed bin (xs @ ys) s m = (case srec_feed bin xs s m of None \<Rightarrow> None | Some (s, m) \<Rightarrow> srec_feed bin ys s m)"
  by (induction xs arbitrary: s m) (auto split: prod.splits)

lemma nat_lt_16: "n < 16 \<Longrightarrow> n \<in> {0, 1, 2, 3, 4, 5, 6, 7, 8, 9, 10, 11, 12, 13, 14, 15 :: nat}"
  by (auto simp: less_Suc_eq numeral_eq_Suc)

lemma hexd_digit:
  assumes "n < 16"
  shows "srec_digit (sint (hexd n)) val = push_bit 4 val OR of_nat n" "48 \<le> sint (hexd n)"
  using nat_lt_16 [OF assms] by (auto simp: srec_digit_def hexd_def)

lemma srec_char_digit:
  assumes "n < 16" "0 \<le> r_pos s" "r_pos s < 1000"
  shows "srec_char bin (sint (hexd n)) s m =
    (let val = push_bit 4 (r_val s) OR of_nat n; pos = r_pos s + 1; s = s\<lparr>r_val := val, r_pos := pos\<rparr>
     in if pos = 1 then
             if sint val \<ge> 7 \<and> sint val \<le> 9 then (Start, s, m)
             else (Loop, s\<lparr>r_len := (if sint val \<le> 3 then sint (push_bit 1 val + 5) else r_len s), r_val := 0\<rparr>, m)
           else if pos = 3 then (Loop, s\<lparr>r_cnt := sint (word_of_int (r_cnt s) + push_bit 1 val), r_val := 0\<rparr>, m)
           else if r_len s < 6 then (Loop, s, m)
           else if pos = r_len s then
             (Loop, s\<lparr>r_cp := val, r_base := (if r_base s = 0 then val else r_base s)\<rparr>, m)
           else if pos > r_len s \<and> odd pos \<and> pos < r_cnt s then
             (Loop, s\<lparr>r_cp := r_cp s + 1\<rparr>, m(r_cp s := ucast val))
           else (Loop, s, m))"
proof -
  have p: "sint (word_of_int (r_pos s + 1) :: u32) = r_pos s + 1" using assms by (intro sint_word_of_int_32) auto
  have q: "\<not> r_pos s < 0" using assms(2) by simp
  have c: "\<not> (sint (hexd n) \<ge> 10 \<and> sint (hexd n) \<le> 13)" using hexd_digit(2) [OF assms(1)] by simp
  show ?thesis unfolding srec_char_def if_not_P [OF q] if_not_P [OF c] hexd_digit(1) [OF assms(1)] p ..
qed

lemma nibbles: "push_bit 4 (push_bit 4 v OR of_nat (unat b div 16)) OR of_nat (unat b mod 16) = (push_bit 8 v OR ucast (b :: u8) :: u32)"
proof -
  have "unat (drop_bit 4 b) = unat b div 16" by (simp add: unat_drop_bit_div)
  moreover have "unat (take_bit 4 b) = unat b mod 16" by (simp only: unsigned_take_bit_eq) (simp add: take_bit_eq_mod)
  ultimately have "(of_nat (unat b div 16) :: u32) = ucast (drop_bit 4 b)" "(of_nat (unat b mod 16) :: u32) = ucast (take_bit 4 b)"
    by (metis of_nat_unat)+
  then show ?thesis by (simp only:) (rule bit_word_eqI, auto simp: bit_simps)
qed

text \<open>Two digits behind the type and the count.\<close>

lemma srec_feed_byte:
  assumes p: "odd (r_pos s)" "3 \<le> r_pos s" "r_pos s < 900" and l: "odd (r_len s)" "6 \<le> r_len s"
  shows "srec_feed bin (hex2 b @ cs) s m =
    (let val = push_bit 8 (r_val s) OR ucast b; s' = s\<lparr>r_val := val, r_pos := r_pos s + 2\<rparr>
     in if r_pos s + 2 = r_len s then srec_feed bin cs (s'\<lparr>r_cp := val, r_base := (if r_base s = 0 then val else r_base s)\<rparr>) m
        else if r_pos s + 2 > r_len s \<and> r_pos s + 2 < r_cnt s then srec_feed bin cs (s'\<lparr>r_cp := r_cp s + 1\<rparr>) (m(r_cp s := ucast val))
        else srec_feed bin cs s' m)"
proof -
  let ?a = "unat b div 16" and ?b = "unat b mod 16"
  have n: "?a < 16" "?b < 16" using unsigned_less [of b, where 'a = nat] by auto
  let ?v = "push_bit 4 (r_val s) OR of_nat ?a"
  define s1 where "s1 = s\<lparr>r_val := ?v, r_pos := r_pos s + 1\<rparr>"
  have e: "even (r_pos s + 1)" using p(1) by simp
  then have "r_pos s + 1 \<noteq> r_len s" using l(1) by metis
  then have ne: "r_pos s + 1 \<noteq> 1" "r_pos s + 1 \<noteq> 3" "r_pos s + 1 \<noteq> r_len s" "\<not> odd (r_pos s + 1)" using p e by auto
  have 1: "srec_char bin (sint (hexd ?a)) s m = (Loop, s1, m)"
    using srec_char_digit [OF n(1), of s bin m] p l ne unfolding s1_def by (simp add: Let_def)
  have v1: "r_val s1 = ?v" "r_pos s1 = r_pos s + 1" "r_len s1 = r_len s" "r_cnt s1 = r_cnt s" "r_cp s1 = r_cp s" "r_base s1 = r_base s"
    by (simp_all add: s1_def)
  have "0 \<le> r_pos s1" "r_pos s1 < 1000" using p v1 by simp_all
  note 2 = srec_char_digit [OF n(2) this, of bin m, unfolded v1 nibbles add.assoc one_add_one]
  show ?thesis unfolding hex2_def using 1 2 p l by (auto simp: Let_def s1_def)
qed

lemma srec_feed_data:
  "odd (r_pos s) \<Longrightarrow> 3 \<le> r_pos s \<Longrightarrow> odd (r_len s) \<Longrightarrow> 6 \<le> r_len s \<Longrightarrow> r_len s \<le> r_pos s \<Longrightarrow>
   r_pos s + 2 * int (length bs) < r_cnt s \<Longrightarrow> r_cnt s < 900 \<Longrightarrow>
   \<exists>v. srec_feed bin (concat (map hex2 bs) @ cs) s m =
     srec_feed bin cs (s\<lparr>r_val := v, r_pos := r_pos s + 2 * int (length bs), r_cp := r_cp s + of_nat (length bs)\<rparr>) (put_bytes m (r_cp s) bs)"
proof (induction bs arbitrary: s m)
  case Nil
  then show ?case by (intro exI [of _ "r_val s"]) simp
next
  case (Cons b bs)
  let ?v = "push_bit 8 (r_val s) OR ucast b"
  let ?s = "s\<lparr>r_val := ?v, r_pos := r_pos s + 2, r_cp := r_cp s + 1\<rparr>"
  have b: "ucast ?v = b" by (rule bit_word_eqI) (auto simp: bit_simps)
  have "srec_feed bin (hex2 b @ concat (map hex2 bs) @ cs) s m = srec_feed bin (concat (map hex2 bs) @ cs) ?s (m(r_cp s := b))"
    using srec_feed_byte [of s bin b "concat (map hex2 bs) @ cs" m] Cons.prems b by (simp add: Let_def)
  moreover obtain v where "srec_feed bin (concat (map hex2 bs) @ cs) ?s (m(r_cp s := b)) =
     srec_feed bin cs (?s\<lparr>r_val := v, r_pos := r_pos ?s + 2 * int (length bs), r_cp := r_cp ?s + of_nat (length bs)\<rparr>)
       (put_bytes (m(r_cp s := b)) (r_cp ?s) bs)"
    using Cons.IH [of ?s "m(r_cp s := b)"] Cons.prems by auto
  ultimately show ?case by (intro exI [of _ v]) (simp add: algebra_simps)
qed

lemma srec_feed_head:
  assumes t: "t \<in> {1, 2, 3}" and n: "n < 256"
  shows "srec_feed bin (0x53 # hexd t # hex2 (of_nat n) @ cs) (srec_next s) m =
    srec_feed bin cs (s\<lparr>r_pos := 3, r_val := 0, r_len := 2 * int t + 5, r_cnt := 2 + 2 * int n\<rparr>) m"
proof -
  let ?b = "of_nat n :: u8"
  have b: "unat ?b = n" using n by (simp add: unat_of_nat_lt)
  define s0 where "s0 = (srec_next s)\<lparr>r_pos := 0, r_val := 0\<rparr>"
  define s1 where "s1 = s\<lparr>r_pos := 1, r_val := 0, r_len := 2 * int t + 5, r_cnt := 2\<rparr>"
  define s2 where "s2 = s1\<lparr>r_pos := 2, r_val := of_nat (n div 16)\<rparr>"
  have 0: "srec_char bin (sint (0x53 :: u8)) (srec_next s) m = (Loop, s0, m)"
    by (simp add: srec_char_def srec_next_def s0_def)
  have "t < 16" "0 \<le> r_pos s0" "r_pos s0 < 1000" using t by (auto simp: s0_def)
  note d = srec_char_digit [OF this, of bin m]
  have 1: "srec_char bin (sint (hexd t)) s0 m = (Loop, s1, m)"
    unfolding d using t by (auto simp: s0_def s1_def srec_next_def)
  have h: "n div 16 < 16" "n mod 16 < 16" using n by auto
  have "0 \<le> r_pos s1" "r_pos s1 < 1000" "0 \<le> r_pos s2" "r_pos s2 < 1000" by (simp_all add: s1_def s2_def)
  note d1 = srec_char_digit [OF h(1) this(1,2), of bin m] and d2 = srec_char_digit [OF h(2) this(3,4), of bin m]
  have 2: "srec_char bin (sint (hexd (n div 16))) s1 m = (Loop, s2, m)"
    unfolding d1 using t by (auto simp: s1_def s2_def)
  have ub: "(ucast ?b :: u32) = of_nat n" using of_nat_unat [of ?b] b by metis
  have v: "push_bit 4 (of_nat (n div 16)) OR of_nat (n mod 16) = (of_nat n :: u32)"
    using nibbles [of 0 ?b] unfolding ub b by simp
  have c: "sint (2 + push_bit 1 (of_nat n) :: u32) = 2 + 2 * int n"
  proof -
    have "(2 + push_bit 1 (of_nat n) :: u32) = word_of_int (2 + 2 * int n)" by (simp add: push_bit_eq_mult)
    then show ?thesis using n by (simp only:) (rule sint_word_of_int_32, auto)
  qed
  have 3: "srec_char bin (sint (hexd (n mod 16))) s2 m =
      (Loop, s\<lparr>r_pos := 3, r_val := 0, r_len := 2 * int t + 5, r_cnt := 2 + 2 * int n\<rparr>, m)"
    unfolding d2 using c v by (simp add: s1_def s2_def Let_def)
  show ?thesis unfolding hex2_def b using 0 1 2 3 by simp
qed

lemma srec_feed_addr:
  "bs \<noteq> [] \<Longrightarrow> odd (r_pos s) \<Longrightarrow> 3 \<le> r_pos s \<Longrightarrow> odd (r_len s) \<Longrightarrow> 6 \<le> r_len s \<Longrightarrow> r_len s < 900 \<Longrightarrow>
   r_pos s + 2 * int (length bs) = r_len s \<Longrightarrow>
   srec_feed bin (concat (map hex2 bs) @ cs) s m =
     (let a = fold (\<lambda>b w. push_bit 8 w OR ucast b) bs (r_val s)
      in srec_feed bin cs (s\<lparr>r_val := a, r_pos := r_len s, r_cp := a, r_base := (if r_base s = 0 then a else r_base s)\<rparr>) m)"
proof (induction bs arbitrary: s)
  case (Cons b bs)
  show ?case
  proof (cases "bs = []")
    case True
    then have l: "r_pos s + 2 = r_len s" using Cons.prems by simp
    show ?thesis using True l srec_feed_byte [of s bin b cs m] Cons.prems by (simp add: Let_def)
  next
    case False
    let ?s = "s\<lparr>r_val := push_bit 8 (r_val s) OR ucast b, r_pos := r_pos s + 2\<rparr>"
    have l: "r_pos s + 2 < r_len s" using Cons.prems(7) False by (cases bs) auto
    have "srec_feed bin (concat (map hex2 (b # bs)) @ cs) s m = srec_feed bin (concat (map hex2 bs) @ cs) ?s m"
      using l srec_feed_byte [of s bin b "concat (map hex2 bs) @ cs" m] Cons.prems by (simp add: Let_def)
    also have "\<dots> = (let a = fold (\<lambda>b w. push_bit 8 w OR ucast b) bs (r_val ?s)
      in srec_feed bin cs (?s\<lparr>r_val := a, r_pos := r_len ?s, r_cp := a, r_base := (if r_base ?s = 0 then a else r_base ?s)\<rparr>) m)"
      by (rule Cons.IH [OF False]) (use Cons.prems in auto)
    finally show ?thesis by (simp add: Let_def)
  qed
qed simp

lemma addr_bytes:
  assumes "t \<in> {1, 2, 3}" "unat (a :: u32) < 2 ^ (8 * (t + 1))"
  shows "fold (\<lambda>b w. push_bit 8 w OR ucast b) (drop (3 - t) (be32 a)) 0 = a"
proof -
  have a: "take_bit (8 * (t + 1)) a = a" using assms(2) by (simp add: word_unat_eq_iff unsigned_take_bit_eq take_bit_nat_eq_self)
  have bit: "bit a n \<Longrightarrow> n < 8 * (t + 1)" for n by (metis a bit_take_bit_iff)
  show ?thesis
  proof (rule bit_word_eqI)
    fix n assume n: "n < LENGTH(32)"
    consider "n < 8" | "8 \<le> n" "n < 16" | "16 \<le> n" "n < 24" | "24 \<le> n" by linarith
    then show "bit (fold (\<lambda>b w. push_bit 8 w OR ucast b) (drop (3 - t) (be32 a)) (0 :: u32)) n \<longleftrightarrow> bit a n"
      using n assms(1) bit [of n] by cases (auto simp: be32_def bit_simps)
  qed
qed

lemma srec_feed_record:
  assumes ok: "srecord_ok r"
  shows "\<exists>s'. srec_feed bin (srecord_text r @ cs) (srec_next s) m = srec_feed bin cs (srec_next s') (srecord_load r m) \<and>
    r_base s' = srecord_base r (r_base s)"
proof -
  obtain t a bs chk where r: "r = (t, a, bs, chk)" by (metis prod_cases4)
  let ?n = "length bs + t + 2"
  have t: "t \<in> {1, 2, 3}" "unat a < 2 ^ (8 * (t + 1))" "?n < 256" using ok by (auto simp: srecord_ok_def r)
  define s1 where "s1 = s\<lparr>r_pos := 3, r_val := 0, r_len := 2 * int t + 5, r_cnt := 2 + 2 * int ?n\<rparr>"
  define s2 where "s2 = s1\<lparr>r_val := a, r_pos := r_len s1, r_cp := a, r_base := (if r_base s1 = 0 then a else r_base s1)\<rparr>"
  let ?ad = "drop (3 - t) (be32 a)" and ?tail = "hex2 chk @ 0x0a # cs"
  have ad: "?ad \<noteq> []" "length ?ad = t + 1" using t(1) by (auto simp: be32_def)
  have "srec_feed bin (srecord_text r @ cs) (srec_next s) m =
      srec_feed bin (concat (map hex2 ?ad) @ concat (map hex2 bs) @ ?tail) s1 m"
    using srec_feed_head [OF t(1,3), of bin "concat (map hex2 ?ad) @ concat (map hex2 bs) @ ?tail" s m]
    by (simp add: srecord_text_def r s1_def)
  also have "\<dots> = srec_feed bin (concat (map hex2 bs) @ ?tail) s2 m"
    using srec_feed_addr [OF ad(1), of s1 bin "concat (map hex2 bs) @ ?tail" m] ad(2) t(1) addr_bytes [OF t(1,2)]
    by (auto simp: s1_def s2_def Let_def)
  finally have 1: "srec_feed bin (srecord_text r @ cs) (srec_next s) m = srec_feed bin (concat (map hex2 bs) @ ?tail) s2 m" .
  have s2: "r_pos s2 = 2 * int t + 5" "r_len s2 = 2 * int t + 5" "r_cnt s2 = 2 + 2 * int ?n" "r_cp s2 = a"
    "r_base s2 = (if r_base s = 0 then a else r_base s)" by (simp_all add: s2_def s1_def)
  obtain v where 2: "srec_feed bin (concat (map hex2 bs) @ ?tail) s2 m = srec_feed bin ?tail
      (s2\<lparr>r_val := v, r_pos := r_pos s2 + 2 * int (length bs), r_cp := r_cp s2 + of_nat (length bs)\<rparr>) (put_bytes m a bs)"
    using srec_feed_data [of s2 bs bin ?tail m] s2 t by auto
  define s3 where "s3 = s2\<lparr>r_val := v, r_pos := r_pos s2 + 2 * int (length bs), r_cp := r_cp s2 + of_nat (length bs)\<rparr>"
  define s4 where "s4 = s3\<lparr>r_val := push_bit 8 v OR ucast chk, r_pos := r_pos s3 + 2\<rparr>"
  have s3: "r_pos s3 = 2 * int t + 5 + 2 * int (length bs)" "r_len s3 = 2 * int t + 5" "r_cnt s3 = 2 + 2 * int ?n" "r_val s3 = v"
    using s2 by (simp_all add: s3_def)
  have 3: "srec_feed bin ?tail s3 (put_bytes m a bs) = srec_feed bin (0x0a # cs) s4 (put_bytes m a bs)"
    using srec_feed_byte [of s3 bin chk "0x0a # cs" "put_bytes m a bs"] s3 t by (auto simp: s4_def Let_def)
  have 4: "srec_feed bin (0x0a # cs) s4 (put_bytes m a bs) = srec_feed bin cs (srec_next s4) (put_bytes m a bs)"
    using s3 by (simp add: s4_def srec_char_def)
  show ?thesis using 1 2 3 4 s2(5) by (intro exI [of _ s4]) (simp add: srecord_load_def srecord_base_def r s3_def s4_def)
qed

lemma srec_feed_records:
  "list_all srecord_ok rs \<Longrightarrow> \<exists>s'. srec_feed bin (concat (map srecord_text rs) @ cs) (srec_next s) m =
     srec_feed bin cs (srec_next s') (fold srecord_load rs m) \<and> r_base s' = fold srecord_base rs (r_base s)"
proof (induction rs arbitrary: s m)
  case (Cons r rs)
  obtain s1 where 1: "srec_feed bin (srecord_text r @ concat (map srecord_text rs) @ cs) (srec_next s) m =
      srec_feed bin (concat (map srecord_text rs) @ cs) (srec_next s1) (srecord_load r m)" "r_base s1 = srecord_base r (r_base s)"
    using srec_feed_record [of r bin "concat (map srecord_text rs) @ cs" s m] Cons.prems by auto
  then show ?case using Cons.IH [of s1 "srecord_load r m"] Cons.prems by simp
qed auto

section \<open>The loader\<close>

lemma srec_wait_char:
  assumes u: "boot_uart dv tsc rx tx busy" and r: "rx d = c # cs"
  shows "\<exists>v d'. srec_wait dv tsc s d = Some (sint c, if r_pos s < 0 then s\<lparr>r_val := v\<rparr> else s, d') \<and> rx d' = cs \<and> tx d' = tx d"
proof -
  obtain s' d0 v where p: "(if r_pos s < 0 then
               let (val, d) = tsc d; c = (if val AND 0x08000000 \<noteq> 0 then 0xff else 0) :: u32
               in (s\<lparr>r_val := val\<rparr>,
                   OUTB dv IO_LED (if val AND 0xff > drop_bit 19 val AND 0xff then c XOR 0x0f else c XOR 0xf0) d)
             else (s, OUTB dv IO_LED (signed_drop_bit 8 (r_cp s)) d)) = (s', d0)"
    "s' = (if r_pos s < 0 then s\<lparr>r_val := v\<rparr> else s)" "rx d0 = rx d" "tx d0 = tx d"
  proof (cases "r_pos s < 0")
    case True
    obtain w e where t: "tsc d = (w, e)" by force
    then have "rx e = rx d" "tx e = tx d" using u unfolding boot_uart_def by (metis snd_conv)+
    then show ?thesis using True t OUTB_led [OF u] that [of "s\<lparr>r_val := w\<rparr>" _ w] by (simp add: Let_def)
  next
    case False
    then show ?thesis using OUTB_led [OF u] that [of s] by simp
  qed
  obtain st d1 where 1: "INB dv (IO_SIO_0 + SIO_REG_STATUS) d0 = (st, d1)" "st AND SIO_RX_FULL = (if rx d0 = [] then 0 else 1)"
    "rx d1 = rx d0" "tx d1 = tx d0" by (rule boot_status [OF u])
  have r1: "rx d1 = c # cs" using 1(3) p(3) r by simp
  obtain d2 where 2: "INB dv (IO_SIO_0 + SIO_REG_DATA) d1 = (scast c, d2)" "rx d2 = cs" "tx d2 = tx d1"
    by (rule boot_data [OF u r1])
  have c: "sint (scast c :: u32) = sint c" by (rule sint_scast_u8)
  have f: "st AND SIO_RX_FULL \<noteq> 0" using 1(2) p(3) r by simp
  have "srec_wait dv tsc s d = Some (sint c, s', d2)"
    unfolding srec_wait.simps [of dv tsc s d] Let_def p(1) [unfolded Let_def] prod.case 1(1) if_not_P [OF f] 2(1) c ..
  then show ?thesis using 1(4) 2 p by auto
qed

text \<open>While it waits for a record the value is the time; no character looks at it.\<close>

lemma srec_char_val:
  assumes "r_pos s < 0" "srec_char bin c s m = (act, s', m')" "act = Loop \<or> act = Next \<or> act = Start"
  shows "srec_char bin c (s\<lparr>r_val := v\<rparr>) m = (act, s', m')"
  using assms by (auto simp: srec_char_def split: if_splits)

lemma sio_boot_feed:
  assumes u: "boot_uart dv tsc rx tx busy"
  shows "srec_feed bin cs s m = Some (s', m') \<Longrightarrow> rx d = cs @ rest \<Longrightarrow>
    \<exists>d'. sio_boot_loop dv tsc bin pw s m d = sio_boot_loop dv tsc bin pw s' m' d' \<and> rx d' = rest \<and> tx d' = tx d"
proof (induction cs arbitrary: s m d)
  case (Cons c cs)
  obtain act s1 m1 where a: "srec_char bin (sint c) s m = (act, s1, m1)" by (metis prod_cases3)
  have al: "act = Loop \<or> act = Next" using Cons.prems(1) a by (auto split: if_splits)
  let ?s = "if act = Next then srec_next s1 else s1"
  have f: "srec_feed bin cs ?s m1 = Some (s', m')" using Cons.prems(1) a al by auto
  have "rx d = c # (cs @ rest)" using Cons.prems(2) by simp
  from srec_wait_char [OF u this, of s] obtain v d1 where w: "srec_wait dv tsc s d = Some (sint c, if r_pos s < 0 then s\<lparr>r_val := v\<rparr> else s, d1)"
    "rx d1 = cs @ rest" "tx d1 = tx d" by blast
  have c: "srec_char bin (sint c) (if r_pos s < 0 then s\<lparr>r_val := v\<rparr> else s) m = (act, s1, m1)"
    using srec_char_val [OF _ a, of v] al a by auto
  have "sio_boot_loop dv tsc bin pw s m d = sio_boot_loop dv tsc bin pw ?s m1 d1"
    unfolding sio_boot_loop.simps [of dv tsc bin pw s m d] w(1) using c al by auto
  then show ?case using Cons.IH [OF f w(2)] w(3) by auto
qed auto

lemma sio_boot_start:
  assumes u: "boot_uart dv tsc rx tx busy" and k: "k \<in> {7, 8, 9}" and r: "rx d = 0x53 # hexd k # rest"
  shows "\<exists>d'. sio_boot_loop dv tsc bin pw (srec_next s) m d = Some (StartAt (r_base s), m, d') \<and> rx d' = rest \<and> tx d' = tx d"
proof -
  define s0 where "s0 = (srec_next s)\<lparr>r_pos := 0, r_val := 0\<rparr>"
  have f: "srec_feed bin [0x53] (srec_next s) m = Some (s0, m)" by (simp add: srec_char_def srec_next_def s0_def)
  obtain d1 where 1: "sio_boot_loop dv tsc bin pw (srec_next s) m d = sio_boot_loop dv tsc bin pw s0 m d1"
    "rx d1 = hexd k # rest" "tx d1 = tx d" using sio_boot_feed [OF u f, of d "hexd k # rest" pw] r by auto
  have p: "\<not> r_pos s0 < 0" by (simp add: s0_def)
  obtain d2 where 2: "srec_wait dv tsc s0 d1 = Some (sint (hexd k), s0, d2)" "rx d2 = rest" "tx d2 = tx d1"
    using srec_wait_char [OF u 1(2), of s0] p by auto
  have "k < 16" "0 \<le> r_pos s0" "r_pos s0 < 1000" using k by (auto simp: s0_def)
  note d = srec_char_digit [OF this, of bin m]
  have "\<exists>s1. srec_char bin (sint (hexd k)) s0 m = (Start, s1, m) \<and> r_base s1 = r_base s"
    unfolding d using k by (auto simp: s0_def srec_next_def)
  then show ?thesis unfolding 1(1) sio_boot_loop.simps [of dv tsc bin pw s0 m d1] using 1(3) 2 by auto
qed

definition prompts :: "(u32 \<times> u32) set" where
  "prompts = {(0x336d0A0D, 0x203E6232), (0x336d0A0D, 0x203E6c32), (0x76720A0D, 0x203E3233)}"

definition prompt_text :: "u32 \<times> u32 \<Rightarrow> u8 list" where
  "prompt_text = (\<lambda>(a, b). rev (be32 a) @ rev (be32 b))"

lemma prompt_step:
  assumes u: "boot_uart dv tsc rx tx busy"
  shows "\<exists>d'. prompt_loop dv second c pos d =
     (let c = signed_drop_bit 8 c in
         if c = 0 \<and> pos = 0 then (if second \<noteq> 0 then prompt_loop dv second second (- 1) d' else Some d')
         else if c \<noteq> 0 then prompt_loop dv second c pos d' else Some d') \<and> rx d' = rx d \<and> tx d' = tx d @ [ucast c]"
proof -
  obtain d' where "pchar dv (ucast c) d = Some d'" "rx d' = rx d" "tx d' = tx d @ [ucast c]" using pchar_sends [OF u] by blast
  then show ?thesis unfolding prompt_loop.simps [of dv second c pos d] by (intro exI [of _ d']) simp
qed

text \<open>The four bytes of a word whose sign bit is clear and whose top byte is not zero.\<close>

lemma prompt_word:
  assumes u: "boot_uart dv tsc rx tx busy" and w: "\<not> bit w 31" "drop_bit 24 w \<noteq> 0"
  shows "\<exists>d'. prompt_loop dv second w pos d =
     (if pos = 0 then (if second \<noteq> 0 then prompt_loop dv second second (- 1) d' else Some d') else Some d') \<and>
     rx d' = rx d \<and> tx d' = tx d @ rev (be32 w)"
proof -
  have lt: "bit w j \<Longrightarrow> j < 31" for j using w(1) bit_imp_le_length [of w j] by (cases "j = 31") auto
  have sd: "signed_drop_bit 8 (drop_bit k w) = drop_bit (k + 8) w" for k
    by (intro bit_word_eqI) (auto simp: bit_simps ac_simps dest: lt)
  have nz: "drop_bit k w \<noteq> 0" if "k \<le> 24" for k
  proof
    assume "drop_bit k w = 0"
    then have "drop_bit (24 - k) (drop_bit k w) = 0" by simp
    then show False using w(2) that by (simp add: drop_bit_drop_bit)
  qed
  have z: "drop_bit 32 w = 0" by (rule bit_word_eqI) (auto simp: bit_simps dest: bit_imp_le_length)
  have c: "signed_drop_bit 8 (drop_bit 24 w) = 0" using sd [of 24] z by simp
  obtain d1 where 1: "prompt_loop dv second w pos d = prompt_loop dv second (drop_bit 8 w) pos d1" "rx d1 = rx d" "tx d1 = tx d @ [ucast w]"
    using prompt_step [OF u, of second w pos d] sd [of 0] nz [of 8] by (auto simp: Let_def)
  obtain d2 where 2: "prompt_loop dv second (drop_bit 8 w) pos d1 = prompt_loop dv second (drop_bit 16 w) pos d2" "rx d2 = rx d1" "tx d2 = tx d1 @ [ucast (drop_bit 8 w)]"
    using prompt_step [OF u, of second "drop_bit 8 w" pos d1] sd [of 8] nz [of 16] by (auto simp: Let_def)
  obtain d3 where 3: "prompt_loop dv second (drop_bit 16 w) pos d2 = prompt_loop dv second (drop_bit 24 w) pos d3" "rx d3 = rx d2" "tx d3 = tx d2 @ [ucast (drop_bit 16 w)]"
    using prompt_step [OF u, of second "drop_bit 16 w" pos d2] sd [of 16] nz [of 24] by (auto simp: Let_def)
  obtain d4 where 4: "prompt_loop dv second (drop_bit 24 w) pos d3 =
     (if pos = 0 then (if second \<noteq> 0 then prompt_loop dv second second (- 1) d4 else Some d4) else Some d4)" "rx d4 = rx d3" "tx d4 = tx d3 @ [ucast (drop_bit 24 w)]"
    using prompt_step [OF u, of second "drop_bit 24 w" pos d3] unfolding Let_def c simp_thms if_False by blast
  show ?thesis using 1 2 3 4 by (intro exI [of _ d4]) (simp add: be32_def)
qed

lemma prompt_sends:
  assumes u: "boot_uart dv tsc rx tx busy" and pw: "pw \<in> prompts"
  shows "\<exists>d'. prompt_loop dv (snd pw) (fst pw) 0 d = Some d' \<and> rx d' = rx d \<and> tx d' = tx d @ prompt_text pw"
proof -
  have ok: "\<not> bit (fst pw) 31" "drop_bit 24 (fst pw) \<noteq> 0" "\<not> bit (snd pw) 31" "drop_bit 24 (snd pw) \<noteq> 0" "snd pw \<noteq> 0"
    using pw by (auto simp: prompts_def)
  obtain d1 where 1: "prompt_loop dv (snd pw) (fst pw) 0 d = prompt_loop dv (snd pw) (snd pw) (- 1) d1" "rx d1 = rx d"
    "tx d1 = tx d @ rev (be32 (fst pw))" using prompt_word [OF u ok(1,2), of "snd pw" 0 d] ok(5) by auto
  obtain d2 where "prompt_loop dv (snd pw) (snd pw) (- 1) d1 = Some d2" "rx d2 = rx d1" "tx d2 = tx d1 @ rev (be32 (snd pw))"
    using prompt_word [OF u ok(3,4), of "snd pw" "- 1" d1] by auto
  then show ?thesis using 1 by (simp add: prompt_text_def case_prod_beta)
qed

text \<open>C12: The S-record loader.  After its prompt it reads a file of data records with addresses of
  two, three or four bytes, stores the data of each at its address without answering, and at the
  first character of a record of type 7, 8 or 9 starts the program at the first address that is
  not zero.\<close>
theorem sio_boot_loads_records:
  assumes u: "boot_uart dv tsc rx tx busy" and pw: "pw \<in> prompts" and ok: "list_all srecord_ok rs" and k: "k \<in> {7, 8, 9}"
    and r: "rx d = concat (map srecord_text rs) @ 0x53 # hexd k # rest"
  shows "\<exists>d'. sio_boot dv tsc bin pw m d = Some (StartAt (fold srecord_base rs 0), fold srecord_load rs m, d') \<and>
    rx d' = rest \<and> tx d' = tx d @ prompt_text pw"
proof -
  let ?s = "\<lparr>r_pos = 0, r_val = 0, r_len = 0, r_cnt = 0, r_cp = 0, r_base = 0\<rparr> :: srec"
  obtain d1 where 1: "prompt_loop dv (snd pw) (fst pw) 0 d = Some d1" "rx d1 = rx d" "tx d1 = tx d @ prompt_text pw"
    using prompt_sends [OF u pw] by blast
  obtain s' where s: "srec_feed bin (concat (map srecord_text rs)) (srec_next ?s) m = Some (srec_next s', fold srecord_load rs m)"
    "r_base s' = fold srecord_base rs 0" using srec_feed_records [OF ok, of bin "[]" ?s m] by auto
  obtain d2 where 2: "sio_boot_loop dv tsc bin pw (srec_next ?s) m d1 = sio_boot_loop dv tsc bin pw (srec_next s') (fold srecord_load rs m) d2"
    "rx d2 = 0x53 # hexd k # rest" "tx d2 = tx d1"
    using sio_boot_feed [OF u s(1), of d1 "0x53 # hexd k # rest" pw] 1(2) r by auto
  show ?thesis using sio_boot_start [OF u k 2(2), of bin pw s' "fold srecord_load rs m"] 1 2 s(2) by (auto simp: sio_boot_def)
qed

theorem sio_boot_loads_records_witness:
  "\<exists>d'. sio_boot (uart_dev IO_SIO_0) (\<lambda>d. (0, d)) True (0x336d0A0D, 0x203E6c32) (\<lambda>_. 0)
      (srecord_text (3, 0x80000100, [1, 0xab], 0x22) @ [0x53, 0x37, 0x30], [], 0) =
        Some (StartAt 0x80000100, put_bytes (\<lambda>_. 0) 0x80000100 [1, 0xab], d') \<and>
      fst d' = [0x30] \<and> fst (snd d') = prompt_text (0x336d0A0D, 0x203E6c32)"
  using sio_boot_loads_records [OF uart_dev_boot, of "(0x336d0A0D, 0x203E6c32)" "[(3, 0x80000100, [1, 0xab], 0x22)]" 7
      "(srecord_text (3, 0x80000100, [1, 0xab], 0x22) @ [0x53, 0x37, 0x30], [], 0)" "[0x30]" True "\<lambda>_. 0"]
  by (simp add: prompts_def srecord_ok_def srecord_base_def srecord_load_def hexd_def)

end
