(* ===== verification/Fb.thy ===== *)
theory Fb
  imports Malloc Strings
begin

text \<open>
  The framebuffer library, dev/fb.c, without the optional COMPOSITING2 variant: video modes, the
  plot functions of the six pixel formats, lines, circles, rectangles, flood fill, text and the
  palette.  Coordinates are the ints of the C program: arguments within the range of an int, and sums and
  products that can leave it wrapped by \<open>s32\<close>; after clipping nothing can overflow.  Colours are 32-bit words.  Before the first fb_set_mode the plot function is a
  null pointer and the size 0 x 0 keeps every drawing function from calling it, so the state has
  no value for it.
\<close>

section \<open>State\<close>

record modeline =
  pixclk :: u32
  hdisp :: u16
  hsyncstart :: u16
  hsyncend :: u16
  htotal :: u16
  vdisp :: u16
  vsyncstart :: u16
  vsyncend :: u16
  vtotal :: u16
  hsyncn :: u16
  vsyncn :: u16
  interlace :: u16

definition fb_modelines :: "modeline list" where
  "fb_modelines =
     [\<lparr>pixclk = 74250, hdisp = 1280, hsyncstart = 1390, hsyncend = 1430, htotal = 1650, vdisp = 720,
       vsyncstart = 725, vsyncend = 730, vtotal = 750, hsyncn = 0, vsyncn = 0, interlace = 0\<rparr>,
      \<lparr>pixclk = 74250, hdisp = 1280, hsyncstart = 1720, hsyncend = 1760, htotal = 1980, vdisp = 720,
       vsyncstart = 725, vsyncend = 730, vtotal = 750, hsyncn = 0, vsyncn = 0, interlace = 0\<rparr>,
      \<lparr>pixclk = 74250, hdisp = 1920, hsyncstart = 2008, hsyncend = 2052, htotal = 2200, vdisp = 1080,
       vsyncstart = 1084, vsyncend = 1094, vtotal = 1125, hsyncn = 0, vsyncn = 0, interlace = 1\<rparr>,
      \<lparr>pixclk = 74250, hdisp = 1920, hsyncstart = 2448, hsyncend = 2492, htotal = 2640, vdisp = 1080,
       vsyncstart = 1084, vsyncend = 1094, vtotal = 1125, hsyncn = 0, vsyncn = 1, interlace = 1\<rparr>,
      \<lparr>pixclk = 74250, hdisp = 1920, hsyncstart = 2008, hsyncend = 2052, htotal = 2200, vdisp = 1080,
       vsyncstart = 1084, vsyncend = 1089, vtotal = 1125, hsyncn = 0, vsyncn = 0, interlace = 0\<rparr>,
      \<lparr>pixclk = 74250, hdisp = 1920, hsyncstart = 2448, hsyncend = 2492, htotal = 2640, vdisp = 1080,
       vsyncstart = 1084, vsyncend = 1089, vtotal = 1125, hsyncn = 0, vsyncn = 0, interlace = 0\<rparr>]"

datatype plotfn = PLOT_1 | PLOT_2 | PLOT_4 | PLOT_8 | PLOT_16 | PLOT_24

record fb_state =
  fb_0 :: addr
  fb_1 :: addr
  fb_visible :: u8
  fb_drawable :: u8
  fb_hdisp :: u16
  fb_vdisp :: u16
  fb_active :: addr
  fb_bpp :: u8
  fb_bpp_code :: u8
  fb_plotfn_off :: plotfn

abbreviation "FB_BPP_1 \<equiv> 1 :: u8"
abbreviation "FB_BPP_2 \<equiv> 2 :: u8"
abbreviation "FB_BPP_4 \<equiv> 3 :: u8"
abbreviation "FB_BPP_8 \<equiv> 4 :: u8"
abbreviation "FB_BPP_16 \<equiv> 5 :: u8"
abbreviation "FB_BPP_24 \<equiv> 6 :: u8"

abbreviation W :: "fb_state \<Rightarrow> int" where "W f \<equiv> uint (fb_hdisp f)"
abbreviation H :: "fb_state \<Rightarrow> int" where "H f \<equiv> uint (fb_vdisp f)"

section \<open>Plot functions\<close>

definition store_half :: "byte_order \<Rightarrow> mem \<Rightarrow> addr \<Rightarrow> u16 \<Rightarrow> mem" where
  "store_half bo m a v = (case bo of
     LITTLE_ENDIAN \<Rightarrow> m(a := ucast v, a + 1 := ucast (drop_bit 8 v))
   | BIG_ENDIAN \<Rightarrow> m(a := ucast (drop_bit 8 v), a + 1 := ucast v))"

definition load_half :: "byte_order \<Rightarrow> mem \<Rightarrow> addr \<Rightarrow> u16" where
  "load_half bo m a = (case bo of
     LITTLE_ENDIAN \<Rightarrow> ucast (m a) OR push_bit 8 (ucast (m (a + 1)))
   | BIG_ENDIAN \<Rightarrow> ucast (m (a + 1)) OR push_bit 8 (ucast (m a)))"

definition elem :: "addr \<Rightarrow> int \<Rightarrow> int \<Rightarrow> addr" where
  "elem p sz i = p + word_of_int (sz * i)"

definition plot_bpp_1 :: "byte_order \<Rightarrow> addr \<Rightarrow> int \<Rightarrow> u32 \<Rightarrow> mem \<Rightarrow> mem" where
  "plot_bpp_1 bo p off color m =
     (let shift = nat (off AND 0x1f); mask = push_bit shift 0x1; a = elem p 4 (drop_bit 5 off)
      in store_word bo m a ((load_word bo m a AND NOT mask) OR push_bit shift (color AND 0x1)))"

definition plot_bpp_2 :: "byte_order \<Rightarrow> addr \<Rightarrow> int \<Rightarrow> u32 \<Rightarrow> mem \<Rightarrow> mem" where
  "plot_bpp_2 bo p off color m =
     (let shift = nat ((off AND 0xf) * 2); mask = push_bit shift 0x3; a = elem p 4 (drop_bit 4 off)
      in store_word bo m a ((load_word bo m a AND NOT mask) OR push_bit shift (color AND 0x3)))"

definition plot_bpp_4 :: "byte_order \<Rightarrow> addr \<Rightarrow> int \<Rightarrow> u32 \<Rightarrow> mem \<Rightarrow> mem" where
  "plot_bpp_4 bo p off color m =
     (let a = elem p 4 (drop_bit 3 off); shift = nat (push_bit 2 off AND 0x1f);
          mask = push_bit shift 0xf; val = load_word bo m a AND NOT mask
      in store_word bo m a (push_bit shift (color AND 0xf) OR val))"

definition plot_bpp_8 :: "addr \<Rightarrow> int \<Rightarrow> u32 \<Rightarrow> mem \<Rightarrow> mem" where
  "plot_bpp_8 p off color m = m(elem p 1 off := ucast color)"

definition plot_bpp_16 :: "byte_order \<Rightarrow> addr \<Rightarrow> int \<Rightarrow> u32 \<Rightarrow> mem \<Rightarrow> mem" where
  "plot_bpp_16 bo p off color m = store_half bo m (elem p 2 off) (ucast color)"

definition plot_bpp_24 :: "byte_order \<Rightarrow> addr \<Rightarrow> int \<Rightarrow> u32 \<Rightarrow> mem \<Rightarrow> mem" where
  "plot_bpp_24 bo p off color m = store_word bo m (elem p 4 off) color"

definition plotfn_off :: "byte_order \<Rightarrow> plotfn \<Rightarrow> addr \<Rightarrow> int \<Rightarrow> u32 \<Rightarrow> mem \<Rightarrow> mem" where
  "plotfn_off bo fn = (case fn of
     PLOT_1 \<Rightarrow> plot_bpp_1 bo | PLOT_2 \<Rightarrow> plot_bpp_2 bo | PLOT_4 \<Rightarrow> plot_bpp_4 bo
   | PLOT_8 \<Rightarrow> plot_bpp_8 | PLOT_16 \<Rightarrow> plot_bpp_16 bo | PLOT_24 \<Rightarrow> plot_bpp_24 bo)"

definition plot_unbounded :: "byte_order \<Rightarrow> fb_state \<Rightarrow> int \<Rightarrow> int \<Rightarrow> u32 \<Rightarrow> mem \<Rightarrow> mem" where
  "plot_unbounded bo f x y color m =
     plotfn_off bo (fb_plotfn_off f) (fb_active f) (y * W f + x) color m"

definition fb_plot :: "byte_order \<Rightarrow> fb_state \<Rightarrow> int \<Rightarrow> int \<Rightarrow> u32 \<Rightarrow> mem \<Rightarrow> mem" where
  "fb_plot bo f x y color m =
     (if y < 0 \<or> y \<ge> H f \<or> x < 0 \<or> x \<ge> W f then m else plot_unbounded bo f x y color m)"

section \<open>Video modes\<close>

datatype io_write = OUTH u32 u16 | OUTW u32 u32

abbreviation "IO_DV_HDISP \<equiv> 0xfffffbc0 :: u32"
abbreviation "IO_DV_HSYNCSTART \<equiv> 0xfffffbc2 :: u32"
abbreviation "IO_DV_HSYNCEND \<equiv> 0xfffffbc4 :: u32"
abbreviation "IO_DV_HTOTAL \<equiv> 0xfffffbc6 :: u32"
abbreviation "IO_DV_VDISP \<equiv> 0xfffffbc8 :: u32"
abbreviation "IO_DV_VSYNCSTART \<equiv> 0xfffffbca :: u32"
abbreviation "IO_DV_VSYNCEND \<equiv> 0xfffffbcc :: u32"
abbreviation "IO_DV_VTOTAL \<equiv> 0xfffffbce :: u32"
abbreviation "IO_DV_DMA_BASE \<equiv> 0xfffffbd0 :: u32"
abbreviation "IO_DV_PIXCFG \<equiv> 0xfffffbd4 :: u32"

definition bpp_plotfn :: "u8 \<Rightarrow> plotfn option" where
  "bpp_plotfn code =
     (if code = FB_BPP_1 then Some PLOT_1 else if code = FB_BPP_2 then Some PLOT_2
      else if code = FB_BPP_4 then Some PLOT_4 else if code = FB_BPP_8 then Some PLOT_8
      else if code = FB_BPP_16 then Some PLOT_16 else if code = FB_BPP_24 then Some PLOT_24 else None)"

definition fb_bytes :: "fb_state \<Rightarrow> u32" where
  "fb_bytes f = word_of_int (W f * H f * uint (fb_bpp f) div 8)"

definition mode_regs :: "modeline \<Rightarrow> u32 \<Rightarrow> u8 \<Rightarrow> nat \<Rightarrow> io_write list" where
  "mode_regs ml base code doublepix =
     [OUTH IO_DV_HDISP (hdisp ml), OUTH IO_DV_HSYNCSTART (hsyncstart ml), OUTH IO_DV_HSYNCEND (hsyncend ml),
      OUTH IO_DV_HTOTAL (htotal ml), OUTH IO_DV_VDISP (vdisp ml), OUTH IO_DV_VSYNCSTART (vsyncstart ml),
      OUTH IO_DV_VSYNCEND (vsyncend ml),
      OUTH IO_DV_VTOTAL (vtotal ml OR push_bit 13 (hsyncn ml) OR push_bit 14 (vsyncn ml) OR push_bit 15 (interlace ml)),
      OUTW IO_DV_DMA_BASE base, OUTW IO_DV_PIXCFG (ucast code OR push_bit 4 (of_nat doublepix))]"

text \<open>\<open>ml_at\<close> reads the structure that the caller's pointer refers to.\<close>

definition fb_set_mode :: "byte_order \<Rightarrow> board \<Rightarrow> addr \<Rightarrow> (addr \<Rightarrow> modeline) \<Rightarrow> addr \<Rightarrow> u32 \<Rightarrow>
    fb_state \<Rightarrow> mstate \<Rightarrow> (fb_state \<times> mstate \<times> io_write list) exec option" where
  "fb_set_mode bo bd end0 ml_at ml flags f st =
     (let doublepix = (if flags AND 0x10 \<noteq> 0 then 1 else 0);
          mo = (if ml AND 7 = ml then (if unat ml < length fb_modelines then Some (fb_modelines ! unat ml) else None)
                else Some (ml_at ml)) in
      case free bo st (fb_0 f) of None \<Rightarrow> None | Some (Exit e) \<Rightarrow> Some (Exit e) | Some (Ret st) \<Rightarrow>
      (case free bo st (fb_1 f) of None \<Rightarrow> None | Some (Exit e) \<Rightarrow> Some (Exit e) | Some (Ret st) \<Rightarrow>
       let f = f\<lparr>fb_0 := 0, fb_1 := 0, fb_drawable := 0, fb_visible := 0, fb_bpp := 0,
                 fb_bpp_code := ucast (flags AND 0xf)\<rparr> in
       case bpp_plotfn (fb_bpp_code f) of
         None \<Rightarrow> Some (Ret (f, st, [OUTW IO_DV_PIXCFG 0]))
       | Some fn \<Rightarrow>
           (case mo of None \<Rightarrow> None | Some mo \<Rightarrow>
            let f = f\<lparr>fb_plotfn_off := fn, fb_hdisp := drop_bit doublepix (hdisp mo),
                      fb_vdisp := drop_bit doublepix (vdisp mo),
                      fb_bpp := push_bit (unat (fb_bpp_code f) - 1) 1\<rparr> in
            case malloc bo bd end0 st (fb_bytes f) of None \<Rightarrow> None | Some (st, p) \<Rightarrow>
            Some (Ret (f\<lparr>fb_0 := p, fb_active := p\<rparr>,
              st\<lparr>ms_mem := fst (memset bo (ms_mem st) p 0 (fb_bytes f))\<rparr>,
              mode_regs mo p (fb_bpp_code f) doublepix)))))"

definition fb_buf :: "fb_state \<Rightarrow> int \<Rightarrow> addr" where
  "fb_buf f visual = (if visual = 0 then fb_0 f else fb_1 f)"

definition fb_set_drawable :: "byte_order \<Rightarrow> board \<Rightarrow> addr \<Rightarrow> int \<Rightarrow> fb_state \<Rightarrow> mstate \<Rightarrow>
    (fb_state \<times> mstate) option" where
  "fb_set_drawable bo bd end0 visual f st =
     (if visual < 0 \<or> visual > 1 then Some (f, st)
      else if fb_buf f visual = 0 then
        (case malloc bo bd end0 st (fb_bytes f) of None \<Rightarrow> None | Some (st, p) \<Rightarrow>
         let f = (if visual = 0 then f\<lparr>fb_0 := p\<rparr> else f\<lparr>fb_1 := p\<rparr>) in
         if p = 0 then Some (f, st)
         else Some (f\<lparr>fb_drawable := word_of_int visual, fb_active := p\<rparr>,
                    st\<lparr>ms_mem := fst (memset bo (ms_mem st) p 0 (fb_bytes f))\<rparr>))
      else Some (f\<lparr>fb_drawable := word_of_int visual, fb_active := fb_buf f visual\<rparr>, st))"

definition fb_set_visible :: "int \<Rightarrow> fb_state \<Rightarrow> fb_state \<times> io_write list" where
  "fb_set_visible visual f =
     (if visual < 0 \<or> visual > 1 \<or> fb_buf f visual = 0 then (f, [])
      else (f\<lparr>fb_visible := word_of_int visual\<rparr>, [OUTW IO_DV_DMA_BASE (fb_buf f visual)]))"

section \<open>Rectangles\<close>

function rect_8 :: "byte_order \<Rightarrow> fb_state \<Rightarrow> int \<Rightarrow> int \<Rightarrow> int \<Rightarrow> int \<Rightarrow> u32 \<Rightarrow> mem \<Rightarrow> mem" where
  "rect_8 bo f y0 y1 i l color m =
     (if y0 \<le> y1
      then rect_8 bo f (y0 + 1) y1 (i + W f) l color (fst (memset bo m (elem (fb_active f) 1 i) color (word_of_int l)))
      else m)"
  by pat_completeness auto
termination by (relation "measure (\<lambda>(_, _, y0, y1, _). nat (y1 - y0 + 1))") auto

function rect_16_by_8 :: "byte_order \<Rightarrow> addr \<Rightarrow> u32 \<Rightarrow> int \<Rightarrow> int \<Rightarrow> mem \<Rightarrow> int \<times> int \<times> mem" where
  "rect_16_by_8 bo p color i l m =
     (if l \<ge> 8 then rect_16_by_8 bo p color (i + 8) (l - 8)
        (store_word bo (store_word bo (store_word bo (store_word bo m
          (elem p 2 i) color) (elem p 2 (i + 2)) color) (elem p 2 (i + 4)) color) (elem p 2 (i + 6)) color)
      else (i, l, m))"
  by pat_completeness auto
termination by (relation "measure (\<lambda>(_, _, _, _, l, _). nat l)") auto

function rect_16_by_2 :: "byte_order \<Rightarrow> addr \<Rightarrow> u32 \<Rightarrow> int \<Rightarrow> int \<Rightarrow> mem \<Rightarrow> int \<times> int \<times> mem" where
  "rect_16_by_2 bo p color i l m =
     (if l \<ge> 2 then rect_16_by_2 bo p color (i + 2) (l - 2) (store_word bo m (elem p 2 i) color) else (i, l, m))"
  by pat_completeness auto
termination by (relation "measure (\<lambda>(_, _, _, _, l, _). nat l)") auto

definition rect_16_row :: "byte_order \<Rightarrow> addr \<Rightarrow> u32 \<Rightarrow> int \<Rightarrow> int \<Rightarrow> mem \<Rightarrow> mem" where
  "rect_16_row bo p color i l m =
     (let (i, l, m) = (if i AND 1 \<noteq> 0 then (i + 1, l - 1, store_half bo m (elem p 2 i) (ucast color)) else (i, l, m));
          (i, l, m) = rect_16_by_8 bo p color i l m;
          (i, l, m) = rect_16_by_2 bo p color i l m
      in if l \<noteq> 0 then store_half bo m (elem p 2 i) (ucast color) else m)"

function rect_16 :: "byte_order \<Rightarrow> fb_state \<Rightarrow> int \<Rightarrow> int \<Rightarrow> int \<Rightarrow> int \<Rightarrow> u32 \<Rightarrow> mem \<Rightarrow> mem" where
  "rect_16 bo f x0 x1 y0 y1 color m =
     (if y0 \<le> y1
      then rect_16 bo f x0 x1 (y0 + 1) y1 color
        (rect_16_row bo (fb_active f) color (y0 * W f + x0) (x1 - x0 + 1) m)
      else m)"
  by pat_completeness auto
termination by (relation "measure (\<lambda>(_, _, _, _, y0, y1, _). nat (y1 - y0 + 1))") auto

function rect_24_by_4 :: "byte_order \<Rightarrow> addr \<Rightarrow> u32 \<Rightarrow> int \<Rightarrow> int \<Rightarrow> mem \<Rightarrow> int \<times> int \<times> mem" where
  "rect_24_by_4 bo p color i l m =
     (if l \<ge> 4 then rect_24_by_4 bo p color (i + 4) (l - 4)
        (store_word bo (store_word bo (store_word bo (store_word bo m
          (elem p 4 i) color) (elem p 4 (i + 1)) color) (elem p 4 (i + 2)) color) (elem p 4 (i + 3)) color)
      else (i, l, m))"
  by pat_completeness auto
termination by (relation "measure (\<lambda>(_, _, _, _, l, _). nat l)") auto

function rect_24_tail :: "byte_order \<Rightarrow> addr \<Rightarrow> u32 \<Rightarrow> int \<Rightarrow> int \<Rightarrow> mem \<Rightarrow> mem" where
  "rect_24_tail bo p color i l m =
     (if l > 0 then rect_24_tail bo p color (i + 1) (l - 1) (store_word bo m (elem p 4 i) color) else m)"
  by pat_completeness auto
termination by (relation "measure (\<lambda>(_, _, _, _, l, _). nat l)") auto

definition rect_24_row :: "byte_order \<Rightarrow> addr \<Rightarrow> u32 \<Rightarrow> int \<Rightarrow> int \<Rightarrow> mem \<Rightarrow> mem" where
  "rect_24_row bo p color i l m =
     (let (i, l, m) = rect_24_by_4 bo p color i l m in rect_24_tail bo p color i l m)"

function rect_24 :: "byte_order \<Rightarrow> fb_state \<Rightarrow> int \<Rightarrow> int \<Rightarrow> int \<Rightarrow> int \<Rightarrow> u32 \<Rightarrow> mem \<Rightarrow> mem" where
  "rect_24 bo f x0 x1 y0 y1 color m =
     (if y0 \<le> y1
      then rect_24 bo f x0 x1 (y0 + 1) y1 color
        (rect_24_row bo (fb_active f) color (y0 * W f + x0) (x1 - x0 + 1) m)
      else m)"
  by pat_completeness auto
termination by (relation "measure (\<lambda>(_, _, _, _, y0, y1, _). nat (y1 - y0 + 1))") auto

function rect_head :: "byte_order \<Rightarrow> fb_state \<Rightarrow> int \<Rightarrow> int \<Rightarrow> int \<Rightarrow> int \<Rightarrow> u32 \<Rightarrow> mem \<Rightarrow> int \<times> mem" where
  "rect_head bo f stride x x1 y color m =
     (if x \<le> x1 \<and> x AND (stride - 1) \<noteq> 0
      then rect_head bo f stride (x + 1) x1 y color (plot_unbounded bo f x y color m) else (x, m))"
  by pat_completeness auto
termination by (relation "measure (\<lambda>(_, _, _, x, x1, _). nat (x1 - x + 1))") auto

function rect_tail :: "byte_order \<Rightarrow> fb_state \<Rightarrow> int \<Rightarrow> int \<Rightarrow> int \<Rightarrow> u32 \<Rightarrow> mem \<Rightarrow> mem" where
  "rect_tail bo f x x1 y color m =
     (if x \<le> x1 then rect_tail bo f (x + 1) x1 y color (plot_unbounded bo f x y color m) else m)"
  by pat_completeness auto
termination by (relation "measure (\<lambda>(_, _, x, x1, _). nat (x1 - x + 1))") auto

definition rect_packed_row :: "byte_order \<Rightarrow> fb_state \<Rightarrow> nat \<Rightarrow> int \<Rightarrow> int \<Rightarrow> int \<Rightarrow> u32 \<Rightarrow> mem \<Rightarrow> mem" where
  "rect_packed_row bo f shift x0 x1 y color m =
     (let stride = push_bit shift 1;
          (x, m) = rect_head bo f stride x0 x1 y color m;
          l = (x1 - x + 1) AND NOT (stride - 1);
          i = drop_bit shift (y * W f + x);
          m = fst (memset bo m (elem (fb_active f) 1 i) color (word_of_int (drop_bit shift l)))
      in rect_tail bo f (x + l) x1 y color m)"

function rect_packed :: "byte_order \<Rightarrow> fb_state \<Rightarrow> nat \<Rightarrow> int \<Rightarrow> int \<Rightarrow> int \<Rightarrow> int \<Rightarrow> u32 \<Rightarrow> mem \<Rightarrow> mem" where
  "rect_packed bo f shift x0 x1 y0 y1 color m =
     (if y0 \<le> y1
      then rect_packed bo f shift x0 x1 (y0 + 1) y1 color (rect_packed_row bo f shift x0 x1 y0 color m)
      else m)"
  by pat_completeness auto
termination by (relation "measure (\<lambda>(_, _, _, _, _, y0, y1, _). nat (y1 - y0 + 1))") auto

definition rect_color :: "u8 \<Rightarrow> u32 \<Rightarrow> u32" where
  "rect_color code color =
     (let c1 = (if code = FB_BPP_1 then push_bit 1 color OR (color AND 0x1) else color);
          c2 = (if code = FB_BPP_1 \<or> code = FB_BPP_2 then push_bit 2 c1 OR (c1 AND 0x3) else c1)
      in if code = FB_BPP_1 \<or> code = FB_BPP_2 \<or> code = FB_BPP_4 then push_bit 4 c2 OR (c2 AND 0xf) else c2)"

definition fb_rectangle :: "byte_order \<Rightarrow> fb_state \<Rightarrow> int \<Rightarrow> int \<Rightarrow> int \<Rightarrow> int \<Rightarrow> u32 \<Rightarrow> mem \<Rightarrow> mem" where
  "fb_rectangle bo f x0 y0 x1 y1 color m =
     (let (x0, x1) = (if x1 < x0 then (x1, x0) else (x0, x1));
          (y0, y1) = (if y1 < y0 then (y1, y0) else (y0, y1));
          x0 = (if x0 < 0 then 0 else x0);
          y0 = (if y0 < 0 then 0 else y0);
          x1 = (if x1 \<ge> W f then W f - 1 else x1);
          y1 = (if y1 \<ge> H f then H f - 1 else y1)
      in if fb_bpp_code f = FB_BPP_8 then rect_8 bo f y0 y1 (y0 * W f + x0) (x1 - x0 + 1) color m
         else if fb_bpp_code f = FB_BPP_16 then
           rect_16 bo f x0 x1 y0 y1 (push_bit 16 color OR (color AND 0xffff)) m
         else if fb_bpp_code f = FB_BPP_24 then rect_24 bo f x0 x1 y0 y1 color m
         else rect_packed bo f (if fb_bpp f = 1 then 3 else if fb_bpp f = 2 then 2 else 1) x0 x1 y0 y1
           (rect_color (fb_bpp_code f) color) m)"

section \<open>Lines and circles\<close>

definition ABS :: "int \<Rightarrow> int" where
  "ABS a = (if a < 0 then s32 (- a) else a)"

partial_function (option) line_loop :: "(int \<Rightarrow> int \<Rightarrow> mem \<Rightarrow> mem) \<Rightarrow> int \<Rightarrow> int \<Rightarrow> int \<Rightarrow> int \<Rightarrow> int \<Rightarrow> int \<Rightarrow>
    int \<Rightarrow> int \<Rightarrow> int \<Rightarrow> mem \<Rightarrow> mem option" where
  "line_loop plotfn x1 y1 dx dy sx sy x0 y0 err m =
     (if x0 = x1 \<and> y0 = y1 then Some m else
      let e2 = s32 (2 * err);
          (err, x0) = (if e2 \<ge> dy then (s32 (err + dy), s32 (x0 + sx)) else (err, x0));
          (err, y0) = (if e2 \<le> dx then (s32 (err + dx), s32 (y0 + sy)) else (err, y0))
      in line_loop plotfn x1 y1 dx dy sx sy x0 y0 err (plotfn x0 y0 m))"

definition fb_line :: "byte_order \<Rightarrow> fb_state \<Rightarrow> int \<Rightarrow> int \<Rightarrow> int \<Rightarrow> int \<Rightarrow> u32 \<Rightarrow> mem \<Rightarrow> mem option" where
  "fb_line bo f x0 y0 x1 y1 color m =
     (let dx = ABS (s32 (x1 - x0)); sx = (if x0 < x1 then 1 else - 1);
          dy = s32 (- ABS (s32 (y1 - y0))); sy = (if y0 < y1 then 1 else - 1);
          err = s32 (dx + dy)
      in if fb_bpp f = 0 then Some m else
         let plotfn = (if x0 < 0 \<or> x0 \<ge> W f \<or> y0 < 0 \<or> y0 \<ge> H f \<or> x1 < 0 \<or> x1 \<ge> W f \<or> y1 < 0 \<or> y1 \<ge> H f
                       then (\<lambda>x y. fb_plot bo f x y color) else (\<lambda>x y. plot_unbounded bo f x y color))
         in line_loop plotfn x1 y1 dx dy sx sy x0 y0 err (plotfn x0 y0 m))"

definition plot8 :: "(int \<Rightarrow> int \<Rightarrow> mem \<Rightarrow> mem) \<Rightarrow> int \<Rightarrow> int \<Rightarrow> int \<Rightarrow> int \<Rightarrow> mem \<Rightarrow> mem" where
  "plot8 plotfn x0 y0 x y m =
     plotfn (s32 (x0 - y)) (s32 (y0 - x)) (plotfn (s32 (x0 + y)) (s32 (y0 - x))
       (plotfn (s32 (x0 - y)) (s32 (y0 + x)) (plotfn (s32 (x0 + y)) (s32 (y0 + x))
         (plotfn (s32 (x0 - x)) (s32 (y0 - y)) (plotfn (s32 (x0 + x)) (s32 (y0 - y))
           (plotfn (s32 (x0 - x)) (s32 (y0 + y)) (plotfn (s32 (x0 + x)) (s32 (y0 + y)) m)))))))"

text \<open>One round of the two circle loops: the new x, y, f, ddF_x and ddF_y.  As x is below y, neither
  x + 1 nor y - 1 can overflow.\<close>

definition circle_step :: "int \<Rightarrow> int \<Rightarrow> int \<Rightarrow> int \<Rightarrow> int \<Rightarrow> int \<times> int \<times> int \<times> int \<times> int" where
  "circle_step x y f ddF_x ddF_y =
     (let (y, ddF_y, f) = (if f \<ge> 0 then (y - 1, s32 (ddF_y + 2), s32 (f + s32 (ddF_y + 2))) else (y, ddF_y, f));
          x = x + 1; ddF_x = s32 (ddF_x + 2); f = s32 (f + ddF_x)
      in (x, y, f, ddF_x, ddF_y))"

function circle_loop :: "(int \<Rightarrow> int \<Rightarrow> mem \<Rightarrow> mem) \<Rightarrow> int \<Rightarrow> int \<Rightarrow> int \<Rightarrow> int \<Rightarrow> int \<Rightarrow> mem \<Rightarrow> mem" where
  "circle_loop draw x y f ddF_x ddF_y m =
     (if x < y then
        (case circle_step x y f ddF_x ddF_y of (x, y, f, ddF_x, ddF_y) \<Rightarrow>
         circle_loop draw x y f ddF_x ddF_y (draw x y m))
      else m)"
  by pat_completeness auto
termination
  by (relation "measure (\<lambda>(_, x, y, _). nat (y - x))") (auto simp: circle_step_def Let_def split: if_splits)

definition fb_circle :: "byte_order \<Rightarrow> fb_state \<Rightarrow> int \<Rightarrow> int \<Rightarrow> int \<Rightarrow> u32 \<Rightarrow> mem \<Rightarrow> mem" where
  "fb_circle bo f x0 y0 r color m =
     (if fb_bpp f = 0 then m else
      let plotfn = (if s32 (x0 - r) < 0 \<or> s32 (x0 + r) \<ge> W f \<or> s32 (y0 - r) < 0 \<or> s32 (y0 + r) \<ge> H f
                    then (\<lambda>x y. fb_plot bo f x y color) else (\<lambda>x y. plot_unbounded bo f x y color));
          m = plotfn x0 (s32 (y0 + r)) m; m = plotfn x0 (s32 (y0 - r)) m;
          m = plotfn (s32 (x0 + r)) y0 m; m = plotfn (s32 (x0 - r)) y0 m
      in circle_loop (plot8 plotfn x0 y0) 0 r (s32 (1 - r)) 1 (s32 (- 2 * r)) m)"

definition fb_filledcircle :: "byte_order \<Rightarrow> fb_state \<Rightarrow> int \<Rightarrow> int \<Rightarrow> int \<Rightarrow> u32 \<Rightarrow> mem \<Rightarrow> mem" where
  "fb_filledcircle bo f x0 y0 r color m =
     (let m = fb_plot bo f x0 (s32 (y0 + r)) color m; m = fb_plot bo f x0 (s32 (y0 - r)) color m;
          m = fb_rectangle bo f (s32 (x0 - r)) y0 (s32 (x0 + r)) y0 color m
      in circle_loop (\<lambda>x y m.
           fb_rectangle bo f (s32 (x0 - y)) (s32 (y0 - x)) (s32 (x0 + y)) (s32 (y0 - x)) color
             (fb_rectangle bo f (s32 (x0 - y)) (s32 (y0 + x)) (s32 (x0 + y)) (s32 (y0 + x)) color
               (fb_rectangle bo f (s32 (x0 - x)) (s32 (y0 - y)) (s32 (x0 + x)) (s32 (y0 - y)) color
                 (fb_rectangle bo f (s32 (x0 - x)) (s32 (y0 + y)) (s32 (x0 + x)) (s32 (y0 + y)) color m))))
           0 r (s32 (1 - r)) 1 (s32 (- 2 * r)) m)"

section \<open>Flood fill\<close>

text \<open>
  fb_fill_8 and fb_fill_16 are the same program on bytes and on halfwords; \<open>rd\<close> and \<open>wr\<close> access
  a pixel.  The stack is the list of pending points, its top first; \<open>s16\<close> is the conversion to
  int16_t of its entries.
\<close>

definition s16 :: "int \<Rightarrow> int" where
  "s16 x = sint (word_of_int x :: u16)"

function fill_up :: "(mem \<Rightarrow> int \<Rightarrow> u32) \<Rightarrow> fb_state \<Rightarrow> u32 \<Rightarrow> int \<Rightarrow> int \<Rightarrow> mem \<Rightarrow> int" where
  "fill_up rd f curcolor x y m =
     (if y \<ge> 0 \<and> rd m (y * W f + x) = curcolor then fill_up rd f curcolor x (y - 1) m else y)"
  by pat_completeness auto
termination by (relation "measure (\<lambda>(_, _, _, _, y, _). nat (y + 1))") auto

abbreviation fill_ssiz :: nat where "fill_ssiz \<equiv> 4096"

text \<open>One side of a column: \<open>on\<close> tells that the neighbour's run has been pushed already; the result
  has the new flag and the point pushed.\<close>

definition fill_side :: "(mem \<Rightarrow> int \<Rightarrow> u32) \<Rightarrow> u32 \<Rightarrow> bool \<Rightarrow> bool \<Rightarrow> int \<Rightarrow> mem \<Rightarrow> bool \<times> bool" where
  "fill_side rd curcolor on inside off m =
     (if \<not> on \<and> inside \<and> rd m off = curcolor then (True, True)
      else if on \<and> inside \<and> rd m off \<noteq> curcolor then (False, False) else (on, False))"

function fill_col :: "(mem \<Rightarrow> int \<Rightarrow> u32) \<Rightarrow> (mem \<Rightarrow> int \<Rightarrow> u32 \<Rightarrow> mem) \<Rightarrow> fb_state \<Rightarrow> u32 \<Rightarrow> u32 \<Rightarrow> int \<Rightarrow> int \<Rightarrow>
    bool \<Rightarrow> bool \<Rightarrow> (int \<times> int) list \<Rightarrow> mem \<Rightarrow> bool \<times> (int \<times> int) list \<times> mem" where
  "fill_col rd wr f curcolor color x y l r st m =
     (if y < H f \<and> rd m (y * W f + x) = curcolor then
        let m = wr m (y * W f + x) color;
            (l, pl) = fill_side rd curcolor l (x > 0) (y * W f + x - 1) m;
            st = (if pl then (s16 (x - 1), s16 y) # st else st)
        in if pl \<and> length st = fill_ssiz then (True, st, m) else
           let (r, pr) = fill_side rd curcolor r (x < W f - 1) (y * W f + x + 1) m;
               st = (if pr then (s16 (x + 1), s16 y) # st else st)
           in if pr \<and> length st = fill_ssiz then (True, st, m)
              else fill_col rd wr f curcolor color x (y + 1) l r st m
      else (False, st, m))"
  by pat_completeness auto
termination by (relation "measure (\<lambda>(_, _, f, _, _, _, y, _). nat (H f - y))") auto

partial_function (option) fill_loop :: "(mem \<Rightarrow> int \<Rightarrow> u32) \<Rightarrow> (mem \<Rightarrow> int \<Rightarrow> u32 \<Rightarrow> mem) \<Rightarrow> fb_state \<Rightarrow> u32 \<Rightarrow> u32 \<Rightarrow>
    (int \<times> int) list \<Rightarrow> mem \<Rightarrow> mem option" where
  "fill_loop rd wr f curcolor color st m =
     (if st = [] then Some m else
      let (x, y) = hd st;
          y = fill_up rd f curcolor x y m;
          (abort, st, m) = fill_col rd wr f curcolor color x (y + 1) False False (tl st) m
      in if abort then Some m else fill_loop rd wr f curcolor color st m)"

text \<open>\<open>got_stack\<close>: malloc found room for the stack, which is freed at the end.\<close>

definition fill_with :: "(mem \<Rightarrow> int \<Rightarrow> u32) \<Rightarrow> (mem \<Rightarrow> int \<Rightarrow> u32 \<Rightarrow> mem) \<Rightarrow> bool \<Rightarrow> fb_state \<Rightarrow> int \<Rightarrow> int \<Rightarrow> u32 \<Rightarrow> mem \<Rightarrow> mem option" where
  "fill_with rd wr got_stack f x y color m =
     (let curcolor = rd m (y * W f + x)
      in if curcolor = color \<or> \<not> got_stack then Some m
         else fill_loop rd wr f curcolor color [(s16 x, s16 y)] m)"

definition fb_fill_8 :: "bool \<Rightarrow> fb_state \<Rightarrow> int \<Rightarrow> int \<Rightarrow> u32 \<Rightarrow> mem \<Rightarrow> mem option" where
  "fb_fill_8 got_stack f =
     fill_with (\<lambda>m i. ucast (m (elem (fb_active f) 1 i))) (\<lambda>m i c. m(elem (fb_active f) 1 i := ucast c)) got_stack f"

definition fb_fill_16 :: "byte_order \<Rightarrow> bool \<Rightarrow> fb_state \<Rightarrow> int \<Rightarrow> int \<Rightarrow> u32 \<Rightarrow> mem \<Rightarrow> mem option" where
  "fb_fill_16 bo got_stack f =
     fill_with (\<lambda>m i. ucast (load_half bo m (elem (fb_active f) 2 i)))
       (\<lambda>m i c. store_half bo m (elem (fb_active f) 2 i) (ucast c)) got_stack f"

definition fb_fill :: "byte_order \<Rightarrow> bool \<Rightarrow> fb_state \<Rightarrow> int \<Rightarrow> int \<Rightarrow> u32 \<Rightarrow> mem \<Rightarrow> mem option" where
  "fb_fill bo got_stack f x y color m =
     (if fb_bpp f = 0 then Some m
      else if x < 0 \<or> y < 0 \<or> x \<ge> W f \<or> y \<ge> H f then Some m
      else if fb_bpp f = 16 then fb_fill_16 bo got_stack f x y color m
      else fb_fill_8 got_stack f x y color m)"

section \<open>Text and palette\<close>

definition font_map :: "u8 list" where
  "font_map =
    [0x00, 0x00, 0x00, 0x00, 0x00, 0x00, 0x00, 0x00, 0x00, 0x00,
     0x00, 0x20, 0x20, 0x20, 0x20, 0x20, 0x00, 0x20, 0x00, 0x00,
     0x00, 0x50, 0x50, 0x50, 0x00, 0x00, 0x00, 0x00, 0x00, 0x00,
     0x00, 0x50, 0x50, 0xf8, 0x50, 0xf8, 0x50, 0x50, 0x00, 0x00,
     0x00, 0x20, 0x70, 0xa0, 0x70, 0x28, 0x70, 0x20, 0x00, 0x00,
     0x00, 0x48, 0xa8, 0x50, 0x20, 0x50, 0xa8, 0x90, 0x00, 0x00,
     0x00, 0x40, 0xa0, 0xa0, 0x40, 0xa8, 0x90, 0x68, 0x00, 0x00,
     0x00, 0x20, 0x20, 0x20, 0x00, 0x00, 0x00, 0x00, 0x00, 0x00,
     0x00, 0x10, 0x20, 0x40, 0x40, 0x40, 0x20, 0x10, 0x00, 0x00,
     0x00, 0x40, 0x20, 0x10, 0x10, 0x10, 0x20, 0x40, 0x00, 0x00,
     0x00, 0x00, 0x88, 0x50, 0xf8, 0x50, 0x88, 0x00, 0x00, 0x00,
     0x00, 0x00, 0x20, 0x20, 0xf8, 0x20, 0x20, 0x00, 0x00, 0x00,
     0x00, 0x00, 0x00, 0x00, 0x00, 0x00, 0x30, 0x20, 0x40, 0x00,
     0x00, 0x00, 0x00, 0x00, 0xf8, 0x00, 0x00, 0x00, 0x00, 0x00,
     0x00, 0x00, 0x00, 0x00, 0x00, 0x00, 0x20, 0x70, 0x20, 0x00,
     0x00, 0x08, 0x08, 0x10, 0x20, 0x40, 0x80, 0x80, 0x00, 0x00,
     0x00, 0x20, 0x50, 0x88, 0x88, 0x88, 0x50, 0x20, 0x00, 0x00,
     0x00, 0x20, 0x60, 0xa0, 0x20, 0x20, 0x20, 0xf8, 0x00, 0x00,
     0x00, 0x70, 0x88, 0x08, 0x30, 0x40, 0x80, 0xf8, 0x00, 0x00,
     0x00, 0xf8, 0x08, 0x10, 0x30, 0x08, 0x88, 0x70, 0x00, 0x00,
     0x00, 0x10, 0x30, 0x50, 0x90, 0xf8, 0x10, 0x10, 0x00, 0x00,
     0x00, 0xf8, 0x80, 0xb0, 0xc8, 0x08, 0x88, 0x70, 0x00, 0x00,
     0x00, 0x30, 0x40, 0x80, 0xb0, 0xc8, 0x88, 0x70, 0x00, 0x00,
     0x00, 0xf8, 0x08, 0x10, 0x10, 0x20, 0x40, 0x40, 0x00, 0x00,
     0x00, 0x70, 0x88, 0x88, 0x70, 0x88, 0x88, 0x70, 0x00, 0x00,
     0x00, 0x70, 0x88, 0x98, 0x68, 0x08, 0x10, 0x60, 0x00, 0x00,
     0x00, 0x00, 0x20, 0x70, 0x20, 0x00, 0x20, 0x70, 0x20, 0x00,
     0x00, 0x00, 0x20, 0x70, 0x20, 0x00, 0x30, 0x20, 0x40, 0x00,
     0x00, 0x08, 0x10, 0x20, 0x40, 0x20, 0x10, 0x08, 0x00, 0x00,
     0x00, 0x00, 0x00, 0xf8, 0x00, 0xf8, 0x00, 0x00, 0x00, 0x00,
     0x00, 0x40, 0x20, 0x10, 0x08, 0x10, 0x20, 0x40, 0x00, 0x00,
     0x00, 0x70, 0x88, 0x10, 0x20, 0x20, 0x00, 0x20, 0x00, 0x00,
     0x00, 0x70, 0x88, 0x98, 0xa8, 0xb0, 0x80, 0x70, 0x00, 0x00,
     0x00, 0x20, 0x50, 0x88, 0x88, 0xf8, 0x88, 0x88, 0x00, 0x00,
     0x00, 0xf0, 0x48, 0x48, 0x70, 0x48, 0x48, 0xf0, 0x00, 0x00,
     0x00, 0x70, 0x88, 0x80, 0x80, 0x80, 0x88, 0x70, 0x00, 0x00,
     0x00, 0xf0, 0x48, 0x48, 0x48, 0x48, 0x48, 0xf0, 0x00, 0x00,
     0x00, 0xf8, 0x80, 0x80, 0xf0, 0x80, 0x80, 0xf8, 0x00, 0x00,
     0x00, 0xf8, 0x80, 0x80, 0xf0, 0x80, 0x80, 0x80, 0x00, 0x00,
     0x00, 0x70, 0x88, 0x80, 0x80, 0x98, 0x88, 0x70, 0x00, 0x00,
     0x00, 0x88, 0x88, 0x88, 0xf8, 0x88, 0x88, 0x88, 0x00, 0x00,
     0x00, 0x70, 0x20, 0x20, 0x20, 0x20, 0x20, 0x70, 0x00, 0x00,
     0x00, 0x38, 0x10, 0x10, 0x10, 0x10, 0x90, 0x60, 0x00, 0x00,
     0x00, 0x88, 0x90, 0xa0, 0xc0, 0xa0, 0x90, 0x88, 0x00, 0x00,
     0x00, 0x80, 0x80, 0x80, 0x80, 0x80, 0x80, 0xf8, 0x00, 0x00,
     0x00, 0x88, 0x88, 0xd8, 0xa8, 0x88, 0x88, 0x88, 0x00, 0x00,
     0x00, 0x88, 0x88, 0xc8, 0xa8, 0x98, 0x88, 0x88, 0x00, 0x00,
     0x00, 0x70, 0x88, 0x88, 0x88, 0x88, 0x88, 0x70, 0x00, 0x00,
     0x00, 0xf0, 0x88, 0x88, 0xf0, 0x80, 0x80, 0x80, 0x00, 0x00,
     0x00, 0x70, 0x88, 0x88, 0x88, 0x88, 0xa8, 0x70, 0x08, 0x00,
     0x00, 0xf0, 0x88, 0x88, 0xf0, 0xa0, 0x90, 0x88, 0x00, 0x00,
     0x00, 0x70, 0x88, 0x80, 0x70, 0x08, 0x88, 0x70, 0x00, 0x00,
     0x00, 0xf8, 0x20, 0x20, 0x20, 0x20, 0x20, 0x20, 0x00, 0x00,
     0x00, 0x88, 0x88, 0x88, 0x88, 0x88, 0x88, 0x70, 0x00, 0x00,
     0x00, 0x88, 0x88, 0x88, 0x50, 0x50, 0x50, 0x20, 0x00, 0x00,
     0x00, 0x88, 0x88, 0x88, 0xa8, 0xa8, 0xd8, 0x88, 0x00, 0x00,
     0x00, 0x88, 0x88, 0x50, 0x20, 0x50, 0x88, 0x88, 0x00, 0x00,
     0x00, 0x88, 0x88, 0x50, 0x20, 0x20, 0x20, 0x20, 0x00, 0x00,
     0x00, 0xf8, 0x08, 0x10, 0x20, 0x40, 0x80, 0xf8, 0x00, 0x00,
     0x00, 0x70, 0x40, 0x40, 0x40, 0x40, 0x40, 0x70, 0x00, 0x00,
     0x00, 0x80, 0x80, 0x40, 0x20, 0x10, 0x08, 0x08, 0x00, 0x00,
     0x00, 0x70, 0x10, 0x10, 0x10, 0x10, 0x10, 0x70, 0x00, 0x00,
     0x00, 0x20, 0x50, 0x88, 0x00, 0x00, 0x00, 0x00, 0x00, 0x00,
     0x00, 0x00, 0x00, 0x00, 0x00, 0x00, 0x00, 0x00, 0xf8, 0x00,
     0x20, 0x10, 0x00, 0x00, 0x00, 0x00, 0x00, 0x00, 0x00, 0x00,
     0x00, 0x00, 0x00, 0x70, 0x08, 0x78, 0x88, 0x78, 0x00, 0x00,
     0x00, 0x80, 0x80, 0xb0, 0xc8, 0x88, 0xc8, 0xb0, 0x00, 0x00,
     0x00, 0x00, 0x00, 0x70, 0x88, 0x80, 0x88, 0x70, 0x00, 0x00,
     0x00, 0x08, 0x08, 0x68, 0x98, 0x88, 0x98, 0x68, 0x00, 0x00,
     0x00, 0x00, 0x00, 0x70, 0x88, 0xf8, 0x80, 0x70, 0x00, 0x00,
     0x00, 0x30, 0x48, 0x40, 0xf0, 0x40, 0x40, 0x40, 0x00, 0x00,
     0x00, 0x00, 0x00, 0x78, 0x88, 0x88, 0x78, 0x08, 0x88, 0x70,
     0x00, 0x80, 0x80, 0xb0, 0xc8, 0x88, 0x88, 0x88, 0x00, 0x00,
     0x00, 0x20, 0x00, 0x60, 0x20, 0x20, 0x20, 0x70, 0x00, 0x00,
     0x00, 0x08, 0x00, 0x18, 0x08, 0x08, 0x08, 0x48, 0x48, 0x30,
     0x00, 0x80, 0x80, 0x88, 0x90, 0xe0, 0x90, 0x88, 0x00, 0x00,
     0x00, 0x60, 0x20, 0x20, 0x20, 0x20, 0x20, 0x70, 0x00, 0x00,
     0x00, 0x00, 0x00, 0xd0, 0xa8, 0xa8, 0xa8, 0x88, 0x00, 0x00,
     0x00, 0x00, 0x00, 0xb0, 0xc8, 0x88, 0x88, 0x88, 0x00, 0x00,
     0x00, 0x00, 0x00, 0x70, 0x88, 0x88, 0x88, 0x70, 0x00, 0x00,
     0x00, 0x00, 0x00, 0xb0, 0xc8, 0x88, 0xc8, 0xb0, 0x80, 0x80,
     0x00, 0x00, 0x00, 0x68, 0x98, 0x88, 0x98, 0x68, 0x08, 0x08,
     0x00, 0x00, 0x00, 0xb0, 0xc8, 0x80, 0x80, 0x80, 0x00, 0x00,
     0x00, 0x00, 0x00, 0x70, 0x80, 0x70, 0x08, 0xf0, 0x00, 0x00,
     0x00, 0x40, 0x40, 0xf0, 0x40, 0x40, 0x48, 0x30, 0x00, 0x00,
     0x00, 0x00, 0x00, 0x88, 0x88, 0x88, 0x98, 0x68, 0x00, 0x00,
     0x00, 0x00, 0x00, 0x88, 0x88, 0x50, 0x50, 0x20, 0x00, 0x00,
     0x00, 0x00, 0x00, 0x88, 0x88, 0xa8, 0xa8, 0x50, 0x00, 0x00,
     0x00, 0x00, 0x00, 0x88, 0x50, 0x20, 0x50, 0x88, 0x00, 0x00,
     0x00, 0x00, 0x00, 0x88, 0x88, 0x98, 0x68, 0x08, 0x88, 0x70,
     0x00, 0x00, 0x00, 0xf8, 0x10, 0x20, 0x40, 0xf8, 0x00, 0x00,
     0x00, 0x18, 0x20, 0x10, 0x60, 0x10, 0x20, 0x18, 0x00, 0x00,
     0x00, 0x20, 0x20, 0x20, 0x20, 0x20, 0x20, 0x20, 0x00, 0x00,
     0x00, 0x60, 0x10, 0x20, 0x18, 0x20, 0x10, 0x60, 0x00, 0x00,
     0x00, 0x48, 0xa8, 0x90, 0x00, 0x00, 0x00, 0x00, 0x00, 0x00]"

text \<open>The dots of one line of a character; \<open>xe\<close> is its right end, \<open>c\<close> the bits still to draw.\<close>

function text_row :: "byte_order \<Rightarrow> fb_state \<Rightarrow> u32 \<Rightarrow> u32 \<Rightarrow> int \<Rightarrow> int \<Rightarrow> int \<Rightarrow> int \<Rightarrow> int \<Rightarrow> u32 \<Rightarrow> mem \<Rightarrow> mem" where
  "text_row bo f fgcolor bgcolor scale_x off xe x xs c m =
     (if x < xe then
        let (c, xs) = (if xs = scale_x then (push_bit 1 c, 0) else (c, xs))
        in if x < 0 then text_row bo f fgcolor bgcolor scale_x off xe (x + 1) (xs + 1) c m
           else if x \<ge> W f then m
           else if c AND 0x80 \<noteq> 0 then
             text_row bo f fgcolor bgcolor scale_x off xe (x + 1) (xs + 1) c
               (plotfn_off bo (fb_plotfn_off f) (fb_active f) (off + x) fgcolor m)
           else if bgcolor <s 0 then text_row bo f fgcolor bgcolor scale_x off xe (x + 1) (xs + 1) c m
           else text_row bo f fgcolor bgcolor scale_x off xe (x + 1) (xs + 1) c
                  (plotfn_off bo (fb_plotfn_off f) (fb_active f) (off + x) bgcolor m)
      else m)"
  by pat_completeness auto
termination by (relation "measure (\<lambda>(_, _, _, _, _, _, xe, x, _). nat (xe - x))") auto

function text_rows :: "byte_order \<Rightarrow> fb_state \<Rightarrow> u32 \<Rightarrow> u32 \<Rightarrow> int \<Rightarrow> int \<Rightarrow> int \<Rightarrow> int \<Rightarrow> int \<Rightarrow> int \<Rightarrow> nat \<Rightarrow> mem \<Rightarrow> mem" where
  "text_rows bo f fgcolor bgcolor scale_x scale_y x0 ye y ys bp m =
     (if y < ye then
        let (bp, ys) = (if ys = scale_y then (bp + 1, 0) else (bp, ys))
        in if y < 0 then text_rows bo f fgcolor bgcolor scale_x scale_y x0 ye (y + 1) (ys + 1) bp m
           else if y \<ge> H f then m
           else text_rows bo f fgcolor bgcolor scale_x scale_y x0 ye (y + 1) (ys + 1) bp
                  (text_row bo f fgcolor bgcolor scale_x (y * W f) (s32 (x0 + 6 * scale_x)) x0 0 (ucast (font_map ! bp)) m)
      else m)"
  by pat_completeness auto
termination by (relation "measure (\<lambda>(_, _, _, _, _, _, _, ye, y, _). nat (ye - y))") auto

fun text_chars :: "byte_order \<Rightarrow> fb_state \<Rightarrow> u32 \<Rightarrow> u32 \<Rightarrow> int \<Rightarrow> int \<Rightarrow> int \<Rightarrow> int \<Rightarrow> u8 list \<Rightarrow> mem \<Rightarrow> mem" where
  "text_chars bo f fgcolor bgcolor scale_x scale_y x0 y0 [] m = m"
| "text_chars bo f fgcolor bgcolor scale_x scale_y x0 y0 (c # cs) m =
     (let bp = (if c < 32 \<or> c > 126 then 0 else (unat c - 32) * 10)
      in text_chars bo f fgcolor bgcolor scale_x scale_y (s32 (x0 + 6 * scale_x)) y0 cs
           (text_rows bo f fgcolor bgcolor scale_x scale_y x0 (s32 (y0 + 10 * scale_y)) y0 0 bp m))"

text \<open>\<open>cs\<close> is the string without its terminating zero.\<close>

definition fb_text :: "byte_order \<Rightarrow> fb_state \<Rightarrow> int \<Rightarrow> int \<Rightarrow> u8 list \<Rightarrow> u32 \<Rightarrow> u32 \<Rightarrow> u32 \<Rightarrow> mem \<Rightarrow> mem" where
  "fb_text bo f x0 y0 cs fgcolor bgcolor scale m =
     (let scale_y = uint (scale AND 0xff); scale_x = uint (drop_bit 16 scale AND 0xff);
          scale_y = (if scale_y = 0 then 1 else scale_y);
          scale_x = (if scale_x = 0 then scale_y else scale_x)
      in text_chars bo f fgcolor bgcolor scale_x scale_y x0 y0 cs m)"

definition fb_rgb2pal :: "u8 \<Rightarrow> u32 \<Rightarrow> u32" where
  "fb_rgb2pal bpp rgb =
     (let r = drop_bit 16 rgb AND 0xff; g = drop_bit 8 rgb AND 0xff; b = rgb AND 0xff;
          bright = r \<ge> 0xc0 \<or> g \<ge> 0xc0 \<or> b \<ge> 0xc0
      in if bpp = 32 then rgb
         else if bpp = 16 then push_bit 8 (r AND 0xf8) OR push_bit 3 (g AND 0xfc) OR drop_bit 3 b
         else if bpp = 8 then (r AND 0xe0) OR (drop_bit 3 g AND 0x1c) OR drop_bit 6 b
         else if bpp = 4 then
           (if bright then 8 else 0) OR (drop_bit 5 r AND 0x4) OR (drop_bit 6 g AND 0x2) OR drop_bit 7 b
         else if bpp = 2 then
           (let i = drop_bit 7 r + drop_bit 7 g + drop_bit 7 b in if bright then i + 1 else i)
         else if bright then 1 else 0)"

declare rect_8.simps [simp del] rect_16_by_8.simps [simp del] rect_16_by_2.simps [simp del] rect_16.simps [simp del]
  rect_24_by_4.simps [simp del] rect_24_tail.simps [simp del] rect_24.simps [simp del] rect_head.simps [simp del]
  rect_tail.simps [simp del] rect_packed.simps [simp del] circle_loop.simps [simp del] fill_up.simps [simp del]
  fill_col.simps [simp del] text_row.simps [simp del] text_rows.simps [simp del]

end
