(* ===== verification/Fb_Props.thy ===== *)
theory Fb_Props
  imports Fb
begin

text \<open>
  What the drawing functions of dev/fb.c do: the six pixel formats as arrays of pixels, the
  points of lines and circles, and the pixels they change.
\<close>

section \<open>Pixels\<close>

text \<open>An array of pixels: what is written is read back, in the colours that a pixel has room for.\<close>

locale pixel_store =
  fixes put :: "int \<Rightarrow> u32 \<Rightarrow> mem \<Rightarrow> mem" and get :: "int \<Rightarrow> mem \<Rightarrow> u32" and count :: int and colors :: u32
  assumes get_put: "0 \<le> i \<Longrightarrow> i < count \<Longrightarrow> get i (put i c m) = c AND colors"
    and get_put_other: "0 \<le> i \<Longrightarrow> i < count \<Longrightarrow> 0 \<le> j \<Longrightarrow> j < count \<Longrightarrow> i \<noteq> j \<Longrightarrow> get j (put i c m) = get j m"
begin

lemma get_fold:
  "(\<And>i. i \<in> set is \<Longrightarrow> 0 \<le> i \<and> i < count) \<Longrightarrow> 0 \<le> j \<Longrightarrow> j < count \<Longrightarrow>
   get j (fold (\<lambda>i. put i c) is m) = (if j \<in> set is then c AND colors else get j m)"
proof (induction "is" arbitrary: m)
  case (Cons i "is")
  then have "get j (fold (\<lambda>i. put i c) is (put i c m)) = (if j \<in> set is then c AND colors else get j (put i c m))"
    by simp
  then show ?case using Cons.prems get_put [of i c m] get_put_other [of i j c m] by auto
qed simp

end

definition fn_bits :: "plotfn \<Rightarrow> nat" where
  "fn_bits fn = (case fn of PLOT_1 \<Rightarrow> 1 | PLOT_2 \<Rightarrow> 2 | PLOT_4 \<Rightarrow> 4 | PLOT_8 \<Rightarrow> 8 | PLOT_16 \<Rightarrow> 16 | PLOT_24 \<Rightarrow> 32)"

text \<open>Formats with several pixels in a word, and how each format is read.\<close>

definition packed_put :: "nat \<Rightarrow> byte_order \<Rightarrow> addr \<Rightarrow> nat \<Rightarrow> u32 \<Rightarrow> mem \<Rightarrow> mem" where
  "packed_put k bo p i c m =
     (let s = k * (i mod (32 div k)); a = p + of_nat (4 * (i div (32 div k)))
      in store_word bo m a ((load_word bo m a AND NOT (push_bit s (mask k))) OR push_bit s (c AND mask k)))"

definition packed_get :: "nat \<Rightarrow> byte_order \<Rightarrow> addr \<Rightarrow> nat \<Rightarrow> mem \<Rightarrow> u32" where
  "packed_get k bo p i m =
     drop_bit (k * (i mod (32 div k))) (load_word bo m (p + of_nat (4 * (i div (32 div k))))) AND mask k"

definition pixel_off :: "byte_order \<Rightarrow> plotfn \<Rightarrow> addr \<Rightarrow> int \<Rightarrow> mem \<Rightarrow> u32" where
  "pixel_off bo fn p off m = (case fn of
     PLOT_8 \<Rightarrow> ucast (m (elem p 1 off)) | PLOT_16 \<Rightarrow> ucast (load_half bo m (elem p 2 off))
   | PLOT_24 \<Rightarrow> load_word bo m (elem p 4 off) | _ \<Rightarrow> packed_get (fn_bits fn) bo p (nat off) m)"

lemma bit_field_same:
  fixes w c :: u32
  assumes "s + k \<le> 32"
  shows "drop_bit s ((w AND NOT (push_bit s (mask k))) OR push_bit s (c AND mask k)) AND mask k = c AND mask k"
  using assms by (intro bit_word_eqI) (auto simp: bit_simps)

lemma bit_field_other:
  fixes w c :: u32
  assumes "s + k \<le> t \<or> t + k \<le> s"
  shows "drop_bit t ((w AND NOT (push_bit s (mask k))) OR push_bit s (c AND mask k)) AND mask k = drop_bit t w AND mask k"
  using assms by (intro bit_word_eqI) (auto simp: bit_simps dest: bit_imp_le_length)

lemma packed_same:
  assumes "k \<in> {1, 2, 4}"
  shows "packed_get k bo p i (packed_put k bo p i c m) = c AND mask k"
proof -
  have "k * (i mod (32 div k)) + k \<le> 32"
  proof -
    have "i mod (32 div k) + 1 \<le> 32 div k" using assms by (auto simp: Suc_le_eq)
    then have "k * (i mod (32 div k) + 1) \<le> k * (32 div k)" by (rule mult_le_mono2)
    then show ?thesis using assms by auto
  qed
  then show ?thesis unfolding packed_get_def packed_put_def Let_def load_store_word_same by (rule bit_field_same)
qed

lemma packed_other:
  assumes k: "k \<in> {1, 2, 4}" and i: "i < 2 ^ 31" "j < 2 ^ 31" "i \<noteq> j"
  shows "packed_get k bo p j (packed_put k bo p i c m) = packed_get k bo p j m"
proof (cases "i div (32 div k) = j div (32 div k)")
  case True
  let ?u = "i mod (32 div k)" and ?v = "j mod (32 div k)"
  have "?u \<noteq> ?v" using i(3) True by (metis div_mult_mod_eq)
  then have "?u + 1 \<le> ?v \<or> ?v + 1 \<le> ?u" by linarith
  then have "k * (?u + 1) \<le> k * ?v \<or> k * (?v + 1) \<le> k * ?u" using mult_le_mono2 by blast
  then have "k * ?u + k \<le> k * ?v \<or> k * ?v + k \<le> k * ?u" by (simp add: add.commute)
  then show ?thesis
    unfolding packed_get_def packed_put_def Let_def True [symmetric] load_store_word_same by (rule bit_field_other)
next
  case False
  let ?a = "4 * (i div (32 div k))" and ?b = "4 * (j div (32 div k))"
  have d: "8 \<le> 32 div k" using k by auto
  have "i div (32 div k) \<le> i div 8" "j div (32 div k) \<le> j div 8" using d by (auto intro: div_le_mono2)
  then have "?a + 3 < 2 ^ 32" "?b + 3 < 2 ^ 32" using i by auto
  moreover have "?b + 3 < ?a \<or> ?a + 3 < ?b" using False by linarith
  ultimately show ?thesis unfolding packed_get_def packed_put_def Let_def by (subst load_store_word_off) simp_all
qed

lemma elem_nat: "elem p (int sz) (int i) = p + of_nat (sz * i)"
  by (simp add: elem_def)

lemma int_and_mask: "int i AND 0x1f = int (i mod 32)" "int i AND 0xf = int (i mod 16)"
  using take_bit_eq_mask [of 5 "int i"] take_bit_eq_mask [of 4 "int i"]
  by (simp_all add: take_bit_eq_mod zmod_int mask_eq_exp_minus_1)

lemma plot_packed:
  "plot_bpp_1 bo p (int i) c m = packed_put 1 bo p i c m"
  "plot_bpp_2 bo p (int i) c m = packed_put 2 bo p i c m"
  "plot_bpp_4 bo p (int i) c m = packed_put 4 bo p i c m"
proof -
  have mk: "mask 1 = (1 :: u32)" "mask 2 = (3 :: u32)" "mask 4 = (15 :: u32)" by (simp_all add: mask_eq_exp_minus_1)
  have e: "elem p 4 (drop_bit k (int i)) = p + of_nat (4 * (i div 2 ^ k))" for k
    using elem_nat [of p 4 "i div 2 ^ k"] by (simp add: drop_bit_eq_div zdiv_int)
  have s: "nat (push_bit 2 (int i) AND 0x1f) = 4 * (i mod 8)"
    using int_and_mask(1) [of "4 * i"] by (simp add: push_bit_eq_mult mult.commute mult_mod_right)
  show "plot_bpp_1 bo p (int i) c m = packed_put 1 bo p i c m"
    "plot_bpp_2 bo p (int i) c m = packed_put 2 bo p i c m"
    using e [of 5] e [of 4] int_and_mask [of i]
    by (simp_all add: plot_bpp_1_def plot_bpp_2_def packed_put_def mk Let_def mult.commute nat_mult_distrib)
  show "plot_bpp_4 bo p (int i) c m = packed_put 4 bo p i c m"
    using e [of 3] unfolding plot_bpp_4_def s packed_put_def mk Let_def by (simp add: or.commute)
qed

lemma half_same: "load_half bo (store_half bo m a v) a = v"
  by (cases bo; rule bit_word_eqI) (auto simp: load_half_def store_half_def bit_simps)

lemma half_other:
  assumes "a \<noteq> b" "a + 1 \<noteq> b" "b + 1 \<noteq> a"
  shows "load_half bo (store_half bo m a v) b = load_half bo m b"
  using assms by (cases bo) (auto simp: load_half_def store_half_def)

lemma elem_half_disjoint:
  assumes "i < 2 ^ 30" "j < 2 ^ 30" "i \<noteq> j"
  shows "elem p 2 (int i) \<noteq> elem p 2 (int j) \<and> elem p 2 (int i) + 1 \<noteq> elem p 2 (int j)"
proof -
  have e: "elem p 2 (int k) = p + of_nat (2 * k)" for k using elem_nat [of p 2 k] by simp
  have "(of_nat (2 * i) :: u32) \<noteq> of_nat (2 * j)" "(of_nat (2 * i + 1) :: u32) \<noteq> of_nat (2 * j)"
    using assms by (subst of_nat_eq_u32; simp; presburger)+
  then show ?thesis unfolding e by (simp add: add.assoc add.commute)
qed

interpretation fbs: pixel_store "plotfn_off bo fn p" "pixel_off bo fn p" "2 ^ 31 div int (fn_bits fn)" "mask (fn_bits fn)"
proof
  fix i :: int and c :: u32 and m
  assume "0 \<le> i" "i < 2 ^ 31 div int (fn_bits fn)"
  then obtain n where n: "i = int n" using nonneg_int_cases by blast
  have "ucast (ucast c :: u8) = c AND mask 8" "ucast (ucast c :: u16) = c AND mask 16" "c = c AND mask 32"
    by (rule bit_word_eqI; auto simp: bit_simps)+
  then show "pixel_off bo fn p i (plotfn_off bo fn p i c m) = c AND mask (fn_bits fn)"
    unfolding n by (cases fn)
      (simp_all add: pixel_off_def plotfn_off_def plot_packed packed_same fn_bits_def plot_bpp_8_def plot_bpp_16_def
        plot_bpp_24_def half_same)
next
  fix i j :: int and c m
  assume ij: "0 \<le> i" "i < 2 ^ 31 div int (fn_bits fn)" "0 \<le> j" "j < 2 ^ 31 div int (fn_bits fn)" "i \<noteq> j"
  then obtain n k where n: "i = int n" "j = int k" "n \<noteq> k" using nonneg_int_cases by metis
  show "pixel_off bo fn p j (plotfn_off bo fn p i c m) = pixel_off bo fn p j m"
  proof (cases fn)
    case PLOT_8
    then have "(of_nat n :: u32) \<noteq> of_nat k" using ij n by (subst of_nat_eq_u32) (auto simp: fn_bits_def)
    then show ?thesis using PLOT_8 elem_nat [of p 1] by (simp add: pixel_off_def plotfn_off_def plot_bpp_8_def n)
  next
    case PLOT_16
    then have "n < 2 ^ 30" "k < 2 ^ 30" using ij n by (auto simp: fn_bits_def)
    then show ?thesis using PLOT_16 elem_half_disjoint [of n k p] elem_half_disjoint [of k n p] n
      by (simp add: pixel_off_def plotfn_off_def plot_bpp_16_def half_other)
  next
    case PLOT_24
    then have "4 * n + 3 < 2 ^ 32" "4 * k + 3 < 2 ^ 32" using ij n by (auto simp: fn_bits_def)
    moreover have "4 * k + 3 < 4 * n \<or> 4 * n + 3 < 4 * k" using n(3) by linarith
    ultimately show ?thesis using PLOT_24 elem_nat [of p 4] load_store_word_off [of "4 * n" "4 * k" bo m p c]
      by (simp add: pixel_off_def plotfn_off_def plot_bpp_24_def n)
  qed (use ij n in \<open>simp_all add: pixel_off_def plotfn_off_def plot_packed packed_other fn_bits_def\<close>)
qed

section \<open>The screen\<close>

definition on_screen :: "fb_state \<Rightarrow> int \<times> int \<Rightarrow> bool" where
  "on_screen f = (\<lambda>(x, y). 0 \<le> x \<and> x < W f \<and> 0 \<le> y \<and> y < H f)"

definition pixel :: "byte_order \<Rightarrow> fb_state \<Rightarrow> mem \<Rightarrow> int \<times> int \<Rightarrow> u32" where
  "pixel bo f m = (\<lambda>(x, y). pixel_off bo (fb_plotfn_off f) (fb_active f) (y * W f + x) m)"

definition fb_ok :: "fb_state \<Rightarrow> bool" where
  "fb_ok f \<longleftrightarrow> W f * H f * int (fn_bits (fb_plotfn_off f)) < 2 ^ 31"

abbreviation colors :: "fb_state \<Rightarrow> u32" where
  "colors f \<equiv> mask (fn_bits (fb_plotfn_off f))"

lemma offset_range:
  assumes "fb_ok f" "on_screen f (x, y)"
  shows "0 \<le> y * W f + x" "y * W f + x < 2 ^ 31 div int (fn_bits (fb_plotfn_off f))"
proof -
  let ?n = "int (fn_bits (fb_plotfn_off f))"
  have n: "0 < ?n" by (simp add: fn_bits_def split: plotfn.splits)
  have h: "0 \<le> x" "x < W f" "0 \<le> y" "y + 1 \<le> H f" using assms(2) by (auto simp: on_screen_def)
  show "0 \<le> y * W f + x" using h by simp
  have "(y + 1) * W f \<le> H f * W f" using h by (intro mult_right_mono) auto
  then have "y * W f + x + 1 \<le> W f * H f" using h by (simp add: algebra_simps)
  then have "(y * W f + x + 1) * ?n \<le> W f * H f * ?n" by (simp add: mult_right_mono)
  then have "(y * W f + x + 1) * ?n \<le> 2 ^ 31" using assms(1) by (simp add: fb_ok_def)
  then have "y * W f + x + 1 \<le> 2 ^ 31 div ?n" using zdiv_mono1 [OF _ n] n by fastforce
  then show "y * W f + x < 2 ^ 31 div ?n" by simp
qed

lemma offset_inj:
  assumes "on_screen f (x, y)" "on_screen f (u, v)" "y * W f + x = v * W f + u"
  shows "x = u \<and> y = v"
proof -
  have "(y * W f + x) div W f = y" "(y * W f + x) mod W f = x" "(v * W f + u) div W f = v" "(v * W f + u) mod W f = u"
    using assms(1,2) by (auto simp: on_screen_def)
  then show ?thesis using assms(3) by metis
qed

lemma pixel_plot_unbounded:
  assumes "fb_ok f" "on_screen f p" "on_screen f q"
  shows "pixel bo f (plot_unbounded bo f (fst q) (snd q) c m) p = (if p = q then c AND colors f else pixel bo f m p)"
proof -
  obtain x y u v where pq: "p = (x, y)" "q = (u, v)" by (metis prod.collapse)
  note r = offset_range [OF assms(1,2) [unfolded pq]] offset_range [OF assms(1,3) [unfolded pq]]
  show ?thesis
  proof (cases "p = q")
    case True
    then show ?thesis using pq r fbs.get_put by (simp add: pixel_def plot_unbounded_def)
  next
    case False
    then have "v * W f + u \<noteq> y * W f + x" using offset_inj assms pq by metis
    then show ?thesis using False pq r fbs.get_put_other by (auto simp: pixel_def plot_unbounded_def)
  qed
qed

lemma fb_plot_on: "on_screen f (x, y) \<Longrightarrow> fb_plot bo f x y c m = plot_unbounded bo f x y c m"
  by (auto simp: fb_plot_def on_screen_def)

lemma fb_plot_off: "\<not> on_screen f (x, y) \<Longrightarrow> fb_plot bo f x y c m = m"
  by (auto simp: fb_plot_def on_screen_def)

lemma pixel_fb_plot:
  assumes "fb_ok f" "on_screen f p"
  shows "pixel bo f (fb_plot bo f x y c m) p = (if p = (x, y) then c AND colors f else pixel bo f m p)"
  using pixel_plot_unbounded [OF assms, of "(x, y)" bo c m] assms(2)
  by (cases "on_screen f (x, y)") (auto simp: fb_plot_on fb_plot_off)

lemma pixel_fold_plot:
  "fb_ok f \<Longrightarrow> on_screen f p \<Longrightarrow> pixel bo f (fold (\<lambda>(x, y). fb_plot bo f x y c) pts m) p =
     (if p \<in> set pts then c AND colors f else pixel bo f m p)"
  by (induction pts arbitrary: m) (auto simp: pixel_fb_plot)

lemma fold_plot_unbounded:
  "(\<And>p. p \<in> set pts \<Longrightarrow> on_screen f p) \<Longrightarrow>
   fold (\<lambda>(x, y). plot_unbounded bo f x y c) pts m = fold (\<lambda>(x, y). fb_plot bo f x y c) pts m"
  by (induction pts arbitrary: m) (auto simp: fb_plot_on)

text \<open>Drawing stays inside the buffer, which has whole words.\<close>

definition fb_span :: "fb_state \<Rightarrow> nat" where
  "fb_span f = 4 * nat ((W f * H f * int (fn_bits (fb_plotfn_off f)) + 31) div 32)"

lemma region_offset: "t < n \<Longrightarrow> n \<le> 2 ^ 32 \<Longrightarrow> p + of_nat t \<in> region p n"
  by (simp add: unat_of_nat_lt)

lemma store_half_region:
  assumes "a = p + of_nat t" "t + 1 < n" "n \<le> 2 ^ 32" "x \<notin> region p n"
  shows "store_half bo m a v x = m x"
proof -
  have "a \<in> region p n" "a + 1 \<in> region p n"
    using assms region_offset [of t n p] region_offset [of "t + 1" n p] by (simp_all add: add.assoc add.commute)
  then show ?thesis using assms(4) by (cases bo) (auto simp: store_half_def)
qed

lemma store_word_region:
  assumes "a = p + of_nat t" "t + 3 < n" "n \<le> 2 ^ 32" "x \<notin> region p n"
  shows "store_word bo m a v x = m x"
proof -
  have "a + of_nat k \<in> region p n" if "k \<le> 3" for k
    using region_offset [of "t + k" n p] that assms by (simp add: add.assoc)
  from this [of 0] this [of 1] this [of 2] this [of 3] show ?thesis
    using assms(4) by (intro store_word_other) auto
qed

lemma plotfn_off_region:
  assumes i: "int i * int (fn_bits fn) + int (fn_bits fn) \<le> int n * 8" and n: "n mod 4 = 0" "n \<le> 2 ^ 32" and x: "x \<notin> region p n"
  shows "plotfn_off bo fn p (int i) c m x = m x"
proof -
  define b where "b = fn_bits fn"
  have ib: "i * b + b \<le> n * 8" using i unfolding b_def by (metis of_nat_add of_nat_le_iff of_nat_mult of_nat_numeral)
  have n4: "n = 4 * (n div 4)" using n by auto
  have pk: "packed_put b bo p i c m x = m x" if k: "b \<in> {1, 2, 4}"
  proof -
    have "i div (32 div b) < n div 4"
      using ib n4 k by (auto simp: less_mult_imp_div_less div_less_iff_less_mult)
    then have "4 * (i div (32 div b)) + 3 < n" using n4 by linarith
    then show ?thesis unfolding packed_put_def Let_def by (intro store_word_region [OF refl _ n(2) x])
  qed
  show ?thesis
  proof (cases fn)
    case PLOT_8
    then have "i < n" using ib by (simp add: b_def fn_bits_def)
    then show ?thesis using PLOT_8 elem_nat [of p 1 i] region_offset [of i n p] n x
      by (auto simp: plotfn_off_def plot_bpp_8_def)
  next
    case PLOT_16
    then have "2 * i + 1 < n" using ib by (simp add: b_def fn_bits_def)
    then show ?thesis using PLOT_16 elem_nat [of p 2 i] store_half_region [OF refl _ n(2) x, of "2 * i"]
      by (auto simp: plotfn_off_def plot_bpp_16_def)
  next
    case PLOT_24
    then have "4 * i + 3 < n" using ib by (simp add: b_def fn_bits_def)
    then show ?thesis using PLOT_24 elem_nat [of p 4 i] store_word_region [OF refl _ n(2) x, of "4 * i"]
      by (auto simp: plotfn_off_def plot_bpp_24_def)
  qed (use pk in \<open>simp_all add: plotfn_off_def plot_packed b_def fn_bits_def\<close>)
qed

lemma plot_unbounded_span:
  assumes ok: "fb_ok f" and xy: "on_screen f (x, y)" and a: "a \<notin> region (fb_active f) (fb_span f)"
  shows "plot_unbounded bo f x y c m a = m a"
proof -
  let ?b = "int (fn_bits (fb_plotfn_off f))" and ?n = "fb_span f"
  let ?N = "W f * H f * ?b"
  have h: "0 \<le> x" "x < W f" "0 \<le> y" "y + 1 \<le> H f" using xy by (auto simp: on_screen_def)
  obtain i where i: "y * W f + x = int i" using offset_range(1) [OF ok xy] nonneg_int_cases by blast
  have "(y + 1) * W f \<le> H f * W f" using h by (intro mult_right_mono) auto
  then have "int i + 1 \<le> W f * H f" using h i by (simp add: algebra_simps)
  then have "(int i + 1) * ?b \<le> ?N" by (simp add: mult_right_mono)
  moreover have N: "0 \<le> ?N" "?N < 2 ^ 31" using ok by (simp_all add: fb_ok_def)
  moreover have s: "int ?n = 4 * ((?N + 31) div 32)" using N by (simp add: fb_span_def)
  moreover have "?N \<le> 32 * ((?N + 31) div 32)" by presburger
  ultimately have 1: "int i * ?b + ?b \<le> int ?n * 8" by (simp add: algebra_simps)
  have "?n mod 4 = 0" by (simp add: fb_span_def)
  moreover have "int ?n \<le> 2 ^ 32" unfolding s using N by simp
  then have "?n \<le> 2 ^ 32" by (metis of_nat_le_iff of_nat_numeral of_nat_power)
  ultimately show ?thesis unfolding plot_unbounded_def i by (rule plotfn_off_region [OF 1 _ _ a])
qed

lemma fold_plot_span:
  "fb_ok f \<Longrightarrow> a \<notin> region (fb_active f) (fb_span f) \<Longrightarrow> fold (\<lambda>(x, y). fb_plot bo f x y c) pts m a = m a"
proof (induction pts arbitrary: m)
  case (Cons p pts)
  obtain x y where p: "p = (x, y)" by force
  have "fb_plot bo f x y c m a = m a"
    using plot_unbounded_span [OF Cons.prems(1) _ Cons.prems(2), of x y] by (cases "on_screen f (x, y)") (simp_all add: fb_plot_on fb_plot_off)
  then show ?case using Cons p by simp
qed simp

text \<open>What a drawing function with the given points has done.\<close>

definition drawn :: "byte_order \<Rightarrow> fb_state \<Rightarrow> u32 \<Rightarrow> (int \<times> int) set \<Rightarrow> mem \<Rightarrow> mem \<Rightarrow> bool" where
  "drawn bo f color pts m m' \<longleftrightarrow>
     (\<forall>p. on_screen f p \<longrightarrow> pixel bo f m' p = (if p \<in> pts then color AND colors f else pixel bo f m p)) \<and>
     (\<forall>a. a \<notin> region (fb_active f) (fb_span f) \<longrightarrow> m' a = m a)"

lemma drawn_fold: "fb_ok f \<Longrightarrow> drawn bo f color (set pts) m (fold (\<lambda>(x, y). fb_plot bo f x y color) pts m)"
  unfolding drawn_def using pixel_fold_plot fold_plot_span by blast

section \<open>Lines\<close>

text \<open>After \<open>i\<close> steps in x and \<open>j\<close> in y the point lies within half a pixel of the line to (a, b).\<close>

definition near :: "int \<Rightarrow> int \<Rightarrow> int \<Rightarrow> int \<Rightarrow> bool" where
  "near a b i j \<longleftrightarrow> 0 \<le> i \<and> i \<le> a \<and> 0 \<le> j \<and> j \<le> b \<and> \<bar>2 * (j * a - i * b)\<bar> \<le> max a b"

lemma near_swap: "near a b i j \<longleftrightarrow> near b a j i"
  unfolding near_def by (auto simp: abs_minus_commute max.commute algebra_simps)

lemma near_bound:
  fixes a b i j :: int
  assumes "0 < a" "i \<le> a" "0 \<le> b" "2 * (j * a - i * b) \<le> a"
  shows "j \<le> b"
proof -
  have "i * b \<le> a * b" using assms by (simp add: mult_right_mono)
  then have "(2 * j - 2 * b) * a \<le> 1 * a" using assms(4) by (simp add: algebra_simps)
  then have "2 * j - 2 * b \<le> 1" using assms(1) by (simp only: mult_le_cancel_right)
  then show ?thesis by simp
qed

lemma near_end:
  assumes "near a b a j" "b \<le> a"
  shows "j = b"
proof (cases "a = 0")
  case False
  then have a: "0 < a" using assms by (simp add: near_def)
  have "- (2 * (j * a - a * b)) \<le> a" using assms by (auto simp: near_def)
  then have "(2 * b - 2 * j) * a \<le> 1 * a" by (simp add: algebra_simps)
  then have "2 * b - 2 * j \<le> 1" using a by (simp only: mult_le_cancel_right)
  then show ?thesis using assms by (simp add: near_def)
qed (use assms in \<open>simp add: near_def\<close>)

text \<open>One round of the loop: along the longer side it always advances.\<close>

lemma near_step_x:
  assumes n: "near a b i j" and ab: "b \<le> a" and i: "i < a"
  defines "e \<equiv> 2 * ((j + 1) * a - (i + 1) * b)"
  shows "- b \<le> e \<and> near a b (i + 1) (if e \<le> a then j + 1 else j)"
proof -
  define d where "d = j * a - i * b"
  have d: "- a \<le> 2 * d" "2 * d \<le> a" "0 \<le> b" "0 < a" "0 \<le> i" "0 \<le> j" using n ab i by (auto simp: near_def d_def)
  have e: "e = 2 * d + 2 * a - 2 * b" by (simp add: e_def d_def algebra_simps)
  let ?j = "if e \<le> a then j + 1 else j"
  have d': "?j * a - (i + 1) * b = (if e \<le> a then d + a - b else d - b)" by (simp add: d_def algebra_simps)
  have "\<bar>2 * (?j * a - (i + 1) * b)\<bar> \<le> a" unfolding d' using d e ab by auto
  moreover from this have "?j \<le> b" using i d by (intro near_bound [of a "i + 1" b ?j]) auto
  ultimately show ?thesis using d e ab i unfolding near_def by auto
qed

lemma near_step_y:
  assumes n: "near a b i j" and ab: "a \<le> b" and j: "j < b"
  defines "e \<equiv> 2 * ((j + 1) * a - (i + 1) * b)"
  shows "e \<le> a \<and> near a b (if - b \<le> e then i + 1 else i) (j + 1)"
proof -
  have "near b a j i" using n near_swap by blast
  from near_step_x [OF this ab j] show ?thesis
    unfolding e_def by (subst near_swap) (simp add: algebra_simps)
qed

definition line_near :: "int \<Rightarrow> int \<Rightarrow> int \<Rightarrow> int \<Rightarrow> int \<times> int \<Rightarrow> bool" where
  "line_near x0 y0 x1 y1 = (\<lambda>(x, y).
     min x0 x1 \<le> x \<and> x \<le> max x0 x1 \<and> min y0 y1 \<le> y \<and> y \<le> max y0 y1 \<and>
     2 * \<bar>(y - y0) * (x1 - x0) - (x - x0) * (y1 - y0)\<bar> \<le> max \<bar>x1 - x0\<bar> \<bar>y1 - y0\<bar>)"

definition king_move :: "int \<times> int \<Rightarrow> int \<times> int \<Rightarrow> bool" where
  "king_move p q \<longleftrightarrow> p \<noteq> q \<and> \<bar>fst q - fst p\<bar> \<le> 1 \<and> \<bar>snd q - snd p\<bar> \<le> 1"

definition is_line :: "int \<Rightarrow> int \<Rightarrow> int \<Rightarrow> int \<Rightarrow> (int \<times> int) list \<Rightarrow> bool" where
  "is_line x0 y0 x1 y1 pts \<longleftrightarrow> pts \<noteq> [] \<and> hd pts = (x0, y0) \<and> last pts = (x1, y1) \<and>
     int (length pts) = max \<bar>x1 - x0\<bar> \<bar>y1 - y0\<bar> + 1 \<and> successively king_move pts \<and>
     (\<forall>p\<in>set pts. line_near x0 y0 x1 y1 p)"

abbreviation dir :: "int \<Rightarrow> int \<Rightarrow> int" where
  "dir u v \<equiv> if u < v then 1 else - 1"

lemma near_line_near:
  assumes n: "near \<bar>x1 - x0\<bar> \<bar>y1 - y0\<bar> i j"
  shows "line_near x0 y0 x1 y1 (x0 + dir x0 x1 * i, y0 + dir y0 y1 * j)"
proof -
  have "\<bar>(dir y0 y1 * j) * (x1 - x0) - (dir x0 x1 * i) * (y1 - y0)\<bar> = \<bar>j * \<bar>x1 - x0\<bar> - i * \<bar>y1 - y0\<bar>\<bar>"
    by (cases "x0 < x1"; cases "y0 < y1") (simp_all add: abs_minus_commute algebra_simps)
  moreover have "2 * \<bar>j * \<bar>x1 - x0\<bar> - i * \<bar>y1 - y0\<bar>\<bar> \<le> max \<bar>x1 - x0\<bar> \<bar>y1 - y0\<bar>"
    using n unfolding near_def abs_mult by simp
  moreover have "0 \<le> i" "i \<le> \<bar>x1 - x0\<bar>" "0 \<le> j" "j \<le> \<bar>y1 - y0\<bar>" using n by (simp_all add: near_def)
  then have "min x0 x1 \<le> x0 + dir x0 x1 * i \<and> x0 + dir x0 x1 * i \<le> max x0 x1 \<and>
      min y0 y1 \<le> y0 + dir y0 y1 * j \<and> y0 + dir y0 y1 * j \<le> max y0 y1" by auto
  ultimately show ?thesis unfolding line_near_def prod.case by (simp only: add_diff_cancel_left' simp_thms)
qed

text \<open>Coordinates and radii for which nothing overflows.\<close>

definition moderate :: "int \<Rightarrow> bool" where
  "moderate x \<longleftrightarrow> \<bar>x\<bar> \<le> 2 ^ 28"

lemma s32_moderate: "\<bar>x\<bar> \<le> 5 * 2 ^ 28 \<Longrightarrow> s32 x = x"
  by (rule s32_id) auto

lemma moderate_between: "moderate a \<Longrightarrow> moderate b \<Longrightarrow> min a b \<le> x \<Longrightarrow> x \<le> max a b \<Longrightarrow> moderate x"
  by (auto simp: moderate_def min_def max_def split: if_splits)

lemma moderate_step: "moderate x \<Longrightarrow> \<bar>s\<bar> = 1 \<Longrightarrow> s32 (x + s) = x + s"
  by (rule s32_moderate) (auto simp: moderate_def)

lemma line_round:
  assumes n: "near a b i j" and le: "a \<le> 2 ^ 29" "b \<le> 2 ^ 29"
  defines "e \<equiv> (j + 1) * a - (i + 1) * b"
  shows "s32 (2 * e) = 2 * e" "s32 (e - b) = e - b" "s32 (e + a) = e + a" "s32 (e - b + a) = e - b + a"
proof -
  define d where "d = j * a - i * b"
  have "\<bar>2 * d\<bar> \<le> max a b" "0 \<le> a" "0 \<le> b" using n by (auto simp: near_def d_def)
  moreover have "e = d + a - b" by (simp add: e_def d_def algebra_simps)
  ultimately show "s32 (2 * e) = 2 * e" "s32 (e - b) = e - b" "s32 (e + a) = e + a" "s32 (e - b + a) = e - b + a"
    using le by (subst s32_id; simp)+
qed

lemma line_loop_points:
  fixes x0 y0 x1 y1 :: int
  defines "a \<equiv> \<bar>x1 - x0\<bar>" and "b \<equiv> \<bar>y1 - y0\<bar>" and "sx \<equiv> dir x0 x1" and "sy \<equiv> dir y0 y1"
  assumes "near a b i j" "int k = (if b \<le> a then a - i else b - j)"
    and mod: "moderate x0" "moderate y0" "moderate x1" "moderate y1"
  shows "\<exists>pts. line_loop P x1 y1 a (- b) sx sy (x0 + sx * i) (y0 + sy * j) ((j + 1) * a - (i + 1) * b) m =
      Some (fold (\<lambda>(x, y). P x y) pts m) \<and> length pts = k \<and>
      successively king_move ((x0 + sx * i, y0 + sy * j) # pts) \<and> last ((x0 + sx * i, y0 + sy * j) # pts) = (x1, y1) \<and>
      (\<forall>p\<in>set pts. line_near x0 y0 x1 y1 p)"
  using assms(5,6)
proof (induction k arbitrary: i j m)
  case 0
  have ij: "i = a \<and> j = b"
  proof (cases "b \<le> a")
    case True
    then show ?thesis using 0 near_end [of a b j] by simp
  next
    case False
    then show ?thesis using 0 near_end [of b a i] near_swap [of a b i j] by simp
  qed
  have "x0 + sx * i = x1 \<and> y0 + sy * j = y1" unfolding conjunct1 [OF ij] conjunct2 [OF ij] a_def b_def sx_def sy_def by auto
  then show ?case by (subst line_loop.simps) (intro exI [of _ "[]"], simp)
next
  case (Suc k)
  let ?x = "x0 + sx * i" and ?y = "y0 + sy * j" and ?err = "(j + 1) * a - (i + 1) * b"
  define i' where "i' = (if - b \<le> 2 * ?err then i + 1 else i)"
  define j' where "j' = (if 2 * ?err \<le> a then j + 1 else j)"
  have s: "near a b i' j'" "int k = (if b \<le> a then a - i' else b - j')" "i' \<noteq> i \<or> j' \<noteq> j"
  proof -
    show "near a b i' j'" "int k = (if b \<le> a then a - i' else b - j')" "i' \<noteq> i \<or> j' \<noteq> j"
      using Suc.prems near_step_x [OF Suc.prems(1)] near_step_y [OF Suc.prems(1)]
      unfolding i'_def j'_def by (cases "b \<le> a"; simp)+
  qed
  have sg: "\<bar>sx\<bar> = 1" "\<bar>sy\<bar> = 1" by (simp_all add: sx_def sy_def)
  have ne: "\<not> (?x = x1 \<and> ?y = y1)"
  proof
    assume e: "?x = x1 \<and> ?y = y1"
    have "i = a \<and> j = b" using e Suc.prems(1) unfolding near_def a_def b_def sx_def sy_def by (auto split: if_splits)
    then show False using Suc.prems(2) by (simp split: if_splits)
  qed
  let ?p = "(x0 + sx * i', y0 + sy * j')"
  define er where "er = ?err"
  have ab: "a \<le> 2 ^ 29" "b \<le> 2 ^ 29" using mod by (auto simp: a_def b_def moderate_def)
  note r = line_round [OF Suc.prems(1) ab, folded er_def]
  have xy: "s32 (?x + sx) = ?x + sx" "s32 (?y + sy) = ?y + sy"
  proof -
    have "line_near x0 y0 x1 y1 (?x, ?y)" using near_line_near Suc.prems(1) unfolding a_def b_def sx_def sy_def by blast
    then have "moderate ?x" "moderate ?y"
      using moderate_between [OF mod(1,3), of ?x] moderate_between [OF mod(2,4), of ?y] unfolding line_near_def prod.case by blast+
    then show "s32 (?x + sx) = ?x + sx" "s32 (?y + sy) = ?y + sy" using sg by (simp_all only: moderate_step)
  qed
  have er: "(j' + 1) * a - (i' + 1) * b = er + (if - b \<le> 2 * er then - b else 0) + (if 2 * er \<le> a then a else 0)"
    by (simp add: i'_def j'_def er_def algebra_simps)
  have p: "?p = (if - b \<le> 2 * er then ?x + sx else ?x, if 2 * er \<le> a then ?y + sy else ?y)"
    by (simp add: i'_def j'_def er_def algebra_simps)
  have unf: "line_loop P x1 y1 a (- b) sx sy ?x ?y ?err m =
      line_loop P x1 y1 a (- b) sx sy (fst ?p) (snd ?p) ((j' + 1) * a - (i' + 1) * b) (P (fst ?p) (snd ?p) m)"
    unfolding er p unfolding er_def [symmetric] line_loop.simps [of P x1 y1 a "- b" sx sy ?x ?y er m] if_not_P [OF ne]
    by (simp add: Let_def r xy)
  obtain pts where pts: "line_loop P x1 y1 a (- b) sx sy (fst ?p) (snd ?p) ((j' + 1) * a - (i' + 1) * b) (P (fst ?p) (snd ?p) m) =
      Some (fold (\<lambda>(x, y). P x y) pts (P (fst ?p) (snd ?p) m))" "length pts = k"
      "successively king_move (?p # pts)" "last (?p # pts) = (x1, y1)" "\<forall>p\<in>set pts. line_near x0 y0 x1 y1 p"
    using Suc.IH [OF s(1,2), of "P (fst ?p) (snd ?p) m"] by auto
  have k: "king_move (?x, ?y) ?p"
  proof -
    have "0 \<le> i' - i" "i' - i \<le> 1" "0 \<le> j' - j" "j' - j \<le> 1" by (auto simp: i'_def j'_def)
    moreover have "fst ?p - ?x = sx * (i' - i)" "snd ?p - ?y = sy * (j' - j)" by (simp_all add: algebra_simps)
    ultimately show ?thesis using s(3) sg by (auto simp: king_move_def abs_mult)
  qed
  have "line_near x0 y0 x1 y1 ?p" using near_line_near s(1) unfolding a_def b_def sx_def sy_def by blast
  then show ?case unfolding unf using pts k by (intro exI [of _ "?p # pts"]) auto
qed

section \<open>Circles\<close>

text \<open>\<open>f\<close> is the value of the circle's equation at the midpoint below the next point.\<close>

definition circle_inv :: "int \<Rightarrow> int \<Rightarrow> int \<Rightarrow> int \<Rightarrow> int \<Rightarrow> int \<Rightarrow> bool" where
  "circle_inv r x y f ddF_x ddF_y \<longleftrightarrow> f = (x * x + y * y - r * r) + 2 * x + 1 - y \<and> ddF_x = 2 * x + 1 \<and> ddF_y = - 2 * y \<and>
     0 \<le> x \<and> 0 \<le> y \<and> y \<le> r \<and> x \<le> y + 1 \<and> \<bar>x * x + y * y - r * r\<bar> \<le> y \<and> (x < y \<longrightarrow> x * x + y * y - r * r < y)"

lemma circle_inv_step:
  assumes inv: "circle_inv r x y f fx fy" and lt: "x < y" and st: "circle_step x y f fx fy = (x', y', f', fx', fy')"
    and mod: "moderate r"
  shows "circle_inv r x' y' f' fx' fy' \<and> x' = x + 1 \<and> y - 1 \<le> y' \<and> y' \<le> y"
proof -
  define e where "e = x * x + y * y - r * r"
  have i: "f = e + 2 * x + 1 - y" "fx = 2 * x + 1" "fy = - 2 * y" "0 \<le> x" "y \<le> r" "\<bar>e\<bar> \<le> y" "e < y"
    using inv lt by (auto simp: circle_inv_def e_def)
  have w: "s32 (fy + 2) = fy + 2" "s32 (f + (fy + 2)) = f + (fy + 2)" "s32 (fx + 2) = fx + 2"
    "s32 (f + (fx + 2)) = f + (fx + 2)" "s32 (f + (fy + 2) + (fx + 2)) = f + (fy + 2) + (fx + 2)"
    "s32 (4 + (f + (fy + fx))) = 4 + (f + (fy + fx))"
    using i lt mod by (auto simp: moderate_def intro!: s32_moderate)
  show ?thesis
  proof (cases "f \<ge> 0")
    case True
    then have s: "x' = x + 1" "y' = y - 1" "f' = f + (fy + 2) + (fx + 2)" "fx' = fx + 2" "fy' = fy + 2"
      using st by (auto simp: circle_step_def Let_def w)
    have e': "x' * x' + y' * y' - r * r = e + 2 * x + 2 - 2 * y" by (simp add: s e_def algebra_simps)
    show ?thesis unfolding circle_inv_def e' using s i True lt by auto
  next
    case False
    then have s: "x' = x + 1" "y' = y" "f' = f + (fx + 2)" "fx' = fx + 2" "fy' = fy"
      using st by (auto simp: circle_step_def Let_def w)
    have e': "x' * x' + y' * y' - r * r = e + 2 * x + 1" by (simp add: s e_def algebra_simps)
    show ?thesis unfolding circle_inv_def e' using s i False lt by auto
  qed
qed

lemma circle_loop_points:
  "circle_inv r x y f fx fy \<Longrightarrow> moderate r \<Longrightarrow>
   \<exists>ps. circle_loop draw x y f fx fy m = fold (\<lambda>(u, v). draw u v) ps m \<and>
     map fst ps = map (\<lambda>k. x + 1 + int k) [0..<length ps] \<and>
     snd (last ((x, y) # ps)) \<le> fst (last ((x, y) # ps)) \<and>
     (\<forall>(u, v)\<in>set ps. 0 \<le> u \<and> u \<le> r \<and> 0 \<le> v \<and> v \<le> r \<and> \<bar>u * u + v * v - r * r\<bar> \<le> v)"
proof (induction draw x y f fx fy m rule: circle_loop.induct)
  case (1 draw x y f fx fy m)
  show ?case
  proof (cases "x < y")
    case False
    then show ?thesis by (subst circle_loop.simps) (intro exI [of _ "[]"], simp)
  next
    case True
    obtain x' y' f' fx' fy' where st: "circle_step x y f fx fy = (x', y', f', fx', fy')" by (metis prod_cases5)
    note s = circle_inv_step [OF 1(2) True st 1(3)]
    obtain ps where ps: "circle_loop draw x' y' f' fx' fy' (draw x' y' m) = fold (\<lambda>(u, v). draw u v) ps (draw x' y' m)"
      "map fst ps = map (\<lambda>k. x' + 1 + int k) [0..<length ps]" "snd (last ((x', y') # ps)) \<le> fst (last ((x', y') # ps))"
      "\<forall>(u, v)\<in>set ps. 0 \<le> u \<and> u \<le> r \<and> 0 \<le> v \<and> v \<le> r \<and> \<bar>u * u + v * v - r * r\<bar> \<le> v"
      using 1(1) [OF True st [symmetric] refl refl refl conjunct1 [OF s] 1(3)] by auto
    have "map fst ((x', y') # ps) = map (\<lambda>k. x + 1 + int k) [0..<length ((x', y') # ps)]"
      using ps(2) s by (simp add: upt_conv_Cons map_Suc_upt [symmetric] algebra_simps del: upt_Suc)
    moreover have "0 \<le> x' \<and> x' \<le> r \<and> 0 \<le> y' \<and> y' \<le> r \<and> \<bar>x' * x' + y' * y' - r * r\<bar> \<le> y'"
      using s True 1(2) by (auto simp: circle_inv_def)
    moreover have "circle_loop draw x y f fx fy m = circle_loop draw x' y' f' fx' fy' (draw x' y' m)"
      using True st by (subst circle_loop.simps) simp
    ultimately show ?thesis using ps by (intro exI [of _ "(x', y') # ps"]) auto
  qed
qed

definition octants :: "int \<Rightarrow> int \<Rightarrow> int \<times> int \<Rightarrow> (int \<times> int) list" where
  "octants x0 y0 = (\<lambda>(x, y). [(x0 + x, y0 + y), (x0 - x, y0 + y), (x0 + x, y0 - y), (x0 - x, y0 - y),
     (x0 + y, y0 + x), (x0 - y, y0 + x), (x0 + y, y0 - x), (x0 - y, y0 - x)])"

lemma plot8_octants:
  "moderate x0 \<Longrightarrow> moderate y0 \<Longrightarrow> moderate x \<Longrightarrow> moderate y \<Longrightarrow>
   plot8 P x0 y0 x y m = fold (\<lambda>(x, y). P x y) (octants x0 y0 (x, y)) m"
  by (simp add: plot8_def octants_def s32_moderate moderate_def)

lemma fold_plot8:
  "moderate x0 \<Longrightarrow> moderate y0 \<Longrightarrow> \<forall>(u, v)\<in>set ps. moderate u \<and> moderate v \<Longrightarrow>
   fold (\<lambda>(u, v). plot8 P x0 y0 u v) ps m = fold (\<lambda>(x, y). P x y) (concat (map (octants x0 y0) ps)) m"
  by (induction ps arbitrary: m) (auto simp: plot8_octants)

definition circle_near :: "int \<Rightarrow> int \<Rightarrow> int \<Rightarrow> int \<times> int \<Rightarrow> bool" where
  "circle_near x0 y0 r = (\<lambda>(x, y). \<bar>(x - x0)\<^sup>2 + (y - y0)\<^sup>2 - r\<^sup>2\<bar> \<le> max \<bar>x - x0\<bar> \<bar>y - y0\<bar> \<and>
     \<bar>x - x0\<bar> \<le> r \<and> \<bar>y - y0\<bar> \<le> r)"

lemma octants_near:
  assumes "p \<in> set (octants x0 y0 (u, v))" "0 \<le> u" "u \<le> r" "0 \<le> v" "v \<le> r" "\<bar>u * u + v * v - r * r\<bar> \<le> v"
  shows "circle_near x0 y0 r p"
  using assms by (auto simp: octants_def circle_near_def power2_eq_square)

definition is_circle :: "int \<Rightarrow> int \<Rightarrow> int \<Rightarrow> (int \<times> int) set \<Rightarrow> bool" where
  "is_circle x0 y0 r pts \<longleftrightarrow> (\<forall>p\<in>pts. circle_near x0 y0 r p) \<and>
     (\<forall>u. 2 * u\<^sup>2 \<le> r\<^sup>2 \<longrightarrow> (\<exists>v. {(x0 + u, y0 + v), (x0 + u, y0 - v), (x0 + v, y0 + u), (x0 - v, y0 + u)} \<subseteq> pts))"

text \<open>The octant is drawn up to its diagonal.\<close>

lemma octant_complete:
  assumes n: "map fst ps = map (\<lambda>k. 1 + int k) [0..<length ps]" and l: "snd (last ((0, r) # ps)) \<le> fst (last ((0, r) # ps))"
    and v: "\<forall>(u, v)\<in>set ps. 0 \<le> u \<and> u \<le> r \<and> 0 \<le> v \<and> v \<le> r \<and> \<bar>u * u + v * v - r * r\<bar> \<le> v"
    and r: "0 \<le> r" and u: "0 < u" "2 * u\<^sup>2 \<le> r\<^sup>2"
  shows "\<exists>v. (u, v) \<in> set ps"
proof (cases "u \<le> int (length ps)")
  case True
  have "map fst ps ! (nat u - 1) = u" unfolding n using True u by (subst nth_map) auto
  then have "fst (ps ! (nat u - 1)) = u" "nat u - 1 < length ps" using True u by auto
  then show ?thesis by (metis nth_mem prod.collapse)
next
  case False
  have ne: "ps \<noteq> []"
  proof
    assume "ps = []"
    then have "r = 0" using l r by simp
    then show False using u by simp
  qed
  obtain a b where ab: "last ps = (a, b)" by force
  have "a = last (map fst ps)" using ne ab by (simp add: last_map)
  then have a: "a = int (length ps)" unfolding n using ne by (cases ps) (simp_all add: last_map)
  have "(a, b) \<in> set ps" using ne ab by (metis last_in_set)
  then have i: "0 \<le> b" "\<bar>a * a + b * b - r * r\<bar> \<le> b" using v by auto
  have b: "b \<le> a" using l ne ab by simp
  have "b * b \<le> a * a" using b i by (simp add: mult_mono)
  then have "r * r \<le> 2 * (a * a) + a" using i b by linarith
  moreover have "(a + 1) * (a + 1) \<le> u * u" using False a by (intro mult_mono) auto
  ultimately have False using u a by (simp add: power2_eq_square algebra_simps)
  then show ?thesis ..
qed

lemma circle_points:
  fixes P :: "int \<Rightarrow> int \<Rightarrow> mem \<Rightarrow> mem"
  assumes r: "0 \<le> r" and mod: "moderate r" "moderate x0" "moderate y0"
  shows "\<exists>pts. circle_loop (plot8 P x0 y0) 0 r (1 - r) 1 (- 2 * r)
        (P (x0 - r) y0 (P (x0 + r) y0 (P x0 (y0 - r) (P x0 (y0 + r) m)))) = fold (\<lambda>(x, y). P x y) pts m \<and>
      is_circle x0 y0 r (set pts)"
proof -
  let ?cd = "[(x0, y0 + r), (x0, y0 - r), (x0 + r, y0), (x0 - r, y0)]"
  let ?m = "fold (\<lambda>(x, y). P x y) ?cd m"
  have inv: "circle_inv r 0 r (1 - r) 1 (- 2 * r)" using r by (simp add: circle_inv_def)
  obtain ps where ps: "circle_loop (plot8 P x0 y0) 0 r (1 - r) 1 (- 2 * r) ?m = fold (\<lambda>(u, v). plot8 P x0 y0 u v) ps ?m"
    "map fst ps = map (\<lambda>k. 0 + 1 + int k) [0..<length ps]" "snd (last ((0, r) # ps)) \<le> fst (last ((0, r) # ps))"
    "\<forall>(u, v)\<in>set ps. 0 \<le> u \<and> u \<le> r \<and> 0 \<le> v \<and> v \<le> r \<and> \<bar>u * u + v * v - r * r\<bar> \<le> v"
    using circle_loop_points [OF inv mod(1), of "plot8 P x0 y0" ?m] by blast
  let ?pts = "?cd @ concat (map (octants x0 y0) ps)"
  have near: "\<forall>p\<in>set ?pts. circle_near x0 y0 r p"
  proof
    fix p assume "p \<in> set ?pts"
    then consider "p \<in> set ?cd" | u v where "(u, v) \<in> set ps" "p \<in> set (octants x0 y0 (u, v))" by auto
    then show "circle_near x0 y0 r p"
    proof cases
      case 1
      then show ?thesis using r by (auto simp: circle_near_def)
    next
      case 2
      then show ?thesis using ps(4) octants_near [OF 2(2)] by auto
    qed
  qed
  have full: "\<exists>v. {(x0 + u, y0 + v), (x0 + u, y0 - v), (x0 + v, y0 + u), (x0 - v, y0 + u)} \<subseteq> set ?pts" if h: "2 * u\<^sup>2 \<le> r\<^sup>2" for u
  proof (cases "u = 0")
    case False
    obtain v where v: "(\<bar>u\<bar>, v) \<in> set ps"
      using octant_complete [of ps r "\<bar>u\<bar>", OF _ ps(3,4) r] ps(2) False h by auto
    have "set (octants x0 y0 (\<bar>u\<bar>, v)) \<subseteq> set ?pts" using v by auto
    moreover have "{(x0 + u, y0 + v), (x0 + u, y0 - v), (x0 + v, y0 + u), (x0 - v, y0 + u)} \<subseteq> set (octants x0 y0 (\<bar>u\<bar>, v))"
      by (cases "u < 0") (simp_all add: octants_def)
    ultimately show ?thesis by blast
  qed (intro exI [of _ r], simp)
  have m: "?m = P (x0 - r) y0 (P (x0 + r) y0 (P x0 (y0 - r) (P x0 (y0 + r) m)))" by simp
  have "circle_loop (plot8 P x0 y0) 0 r (1 - r) 1 (- 2 * r) ?m = fold (\<lambda>(x, y). P x y) ?pts m"
  proof -
    have "\<forall>(u, v)\<in>set ps. moderate u \<and> moderate v" using ps(4) mod(1) by (auto simp: moderate_def)
    from fold_plot8 [OF mod(2,3) this] show ?thesis unfolding ps(1) by simp
  qed
  then show ?thesis unfolding m using near full unfolding is_circle_def by blast
qed

section \<open>Properties\<close>

lemma line_near_on_screen:
  assumes "on_screen f (x0, y0)" "on_screen f (x1, y1)" "line_near x0 y0 x1 y1 p"
  shows "on_screen f p"
  using assms by (auto simp: on_screen_def line_near_def)

lemma circle_near_on_screen:
  assumes "0 \<le> x0 - r" "x0 + r < W f" "0 \<le> y0 - r" "y0 + r < H f" "circle_near x0 y0 r p"
  shows "on_screen f p"
  using assms by (auto simp: on_screen_def circle_near_def)

text \<open>C13: For coordinates of at most 2^28 in absolute value, with which no int overflows,
  fb_line returns, and what it draws is a line: max(|dx|, |dy|) + 1 points from
  (x0, y0) to (x1, y1), each next to the one before, all in the rectangle of the end points and
  within half a pixel of the straight line.  Those on the screen get the colour, no other pixel
  changes and no byte outside the buffer; so the unchecked plot function is only used where it
  is safe.\<close>
theorem fb_line_correct:
  assumes ok: "fb_ok f" and on: "fb_bpp f \<noteq> 0" and mod: "moderate x0" "moderate y0" "moderate x1" "moderate y1"
  shows "\<exists>pts m'. fb_line bo f x0 y0 x1 y1 color m = Some m' \<and> is_line x0 y0 x1 y1 pts \<and> drawn bo f color (set pts) m m'"
proof -
  define P where "P = (if on_screen f (x0, y0) \<and> on_screen f (x1, y1)
    then (\<lambda>x y. plot_unbounded bo f x y color) else (\<lambda>x y. fb_plot bo f x y color))"
  have P: "fb_line bo f x0 y0 x1 y1 color m = line_loop P x1 y1 \<bar>x1 - x0\<bar> (- \<bar>y1 - y0\<bar>) (dir x0 x1) (dir y0 y1)
      x0 y0 (\<bar>x1 - x0\<bar> - \<bar>y1 - y0\<bar>) (P x0 y0 m)"
  proof -
    have "s32 (x1 - x0) = x1 - x0" "s32 (y1 - y0) = y1 - y0" using mod by (auto simp: moderate_def intro!: s32_moderate)
    then have "ABS (s32 (x1 - x0)) = \<bar>x1 - x0\<bar>" "s32 (- ABS (s32 (y1 - y0))) = - \<bar>y1 - y0\<bar>"
      using mod by (auto simp: ABS_def moderate_def s32_moderate)
    moreover have "s32 (\<bar>x1 - x0\<bar> + - \<bar>y1 - y0\<bar>) = \<bar>x1 - x0\<bar> - \<bar>y1 - y0\<bar>"
      using mod by (auto simp: moderate_def s32_moderate)
    ultimately show ?thesis using on by (auto simp: fb_line_def P_def on_screen_def Let_def)
  qed
  have n: "near \<bar>x1 - x0\<bar> \<bar>y1 - y0\<bar> 0 0" by (simp add: near_def)
  have k: "int (nat (max \<bar>x1 - x0\<bar> \<bar>y1 - y0\<bar>)) = (if \<bar>y1 - y0\<bar> \<le> \<bar>x1 - x0\<bar> then \<bar>x1 - x0\<bar> - 0 else \<bar>y1 - y0\<bar> - 0)"
    by auto
  obtain pts where l: "line_loop P x1 y1 \<bar>x1 - x0\<bar> (- \<bar>y1 - y0\<bar>) (dir x0 x1) (dir y0 y1) x0 y0
        (\<bar>x1 - x0\<bar> - \<bar>y1 - y0\<bar>) (P x0 y0 m) = Some (fold (\<lambda>(x, y). P x y) pts (P x0 y0 m))"
      "length pts = nat (max \<bar>x1 - x0\<bar> \<bar>y1 - y0\<bar>)" "successively king_move ((x0, y0) # pts)"
      "last ((x0, y0) # pts) = (x1, y1)" "\<forall>p\<in>set pts. line_near x0 y0 x1 y1 p"
    using line_loop_points [OF n k mod, of P "P x0 y0 m"] by auto
  let ?ps = "(x0, y0) # pts"
  have near: "\<forall>p\<in>set ?ps. line_near x0 y0 x1 y1 p" using l(5) near_line_near [OF n] by simp
  have "fold (\<lambda>(x, y). P x y) ?ps m = fold (\<lambda>(x, y). fb_plot bo f x y color) ?ps m"
  proof (cases "on_screen f (x0, y0) \<and> on_screen f (x1, y1)")
    case True
    then have "\<And>p. p \<in> set ?ps \<Longrightarrow> on_screen f p" using near line_near_on_screen by blast
    then show ?thesis unfolding P_def if_P [OF True] by (rule fold_plot_unbounded)
  qed (simp only: P_def if_False)
  then have "fb_line bo f x0 y0 x1 y1 color m = Some (fold (\<lambda>(x, y). fb_plot bo f x y color) ?ps m)"
    using P l(1) by simp
  moreover have "is_line x0 y0 x1 y1 ?ps" using near l(3,4) l(2) unfolding is_line_def by (simp add: max_def)
  ultimately show ?thesis using drawn_fold [OF ok] by blast
qed

abbreviation vga :: "u16 \<Rightarrow> u16 \<Rightarrow> u8 \<Rightarrow> plotfn \<Rightarrow> fb_state" where
  "vga w h code fn \<equiv> \<lparr>fb_0 = 0x80010000, fb_1 = 0, fb_visible = 0, fb_drawable = 0, fb_hdisp = w, fb_vdisp = h,
     fb_active = 0x80010000, fb_bpp = push_bit (unat code - 1) 1, fb_bpp_code = code, fb_plotfn_off = fn\<rparr>"

theorem fb_line_correct_witness:
  "\<exists>pts m'. fb_line LITTLE_ENDIAN (vga 640 360 4 PLOT_8) (- 5) 3 700 20 0xe0 (\<lambda>_. 0) = Some m' \<and>
     is_line (- 5) 3 700 20 pts \<and> drawn LITTLE_ENDIAN (vga 640 360 4 PLOT_8) 0xe0 (set pts) (\<lambda>_. 0) m'"
  by (rule fb_line_correct) (simp_all add: fb_ok_def fn_bits_def moderate_def)

text \<open>C14: For a centre and a radius of at most 2^28, with which no int overflows, fb_circle draws a circle: every point lies within about half a pixel of it (the error of
  its squared distance is at most its larger coordinate), and every column and row up to the
  diagonals of the circle has its points, above and below and on both sides.  Points outside the
  screen are left out, nothing else changes.\<close>
theorem fb_circle_correct:
  assumes ok: "fb_ok f" and on: "fb_bpp f \<noteq> 0" and r: "0 \<le> r"
    and mod: "moderate r" "moderate x0" "moderate y0"
  shows "\<exists>pts. is_circle x0 y0 r pts \<and> drawn bo f color pts m (fb_circle bo f x0 y0 r color m)"
proof -
  define in_screen where "in_screen \<longleftrightarrow> 0 \<le> x0 - r \<and> x0 + r < W f \<and> 0 \<le> y0 - r \<and> y0 + r < H f"
  define P where "P = (if in_screen then (\<lambda>x y. plot_unbounded bo f x y color) else (\<lambda>x y. fb_plot bo f x y color))"
  have w: "s32 (x0 - r) = x0 - r" "s32 (x0 + r) = x0 + r" "s32 (y0 - r) = y0 - r" "s32 (y0 + r) = y0 + r"
    "s32 (1 - r) = 1 - r" "s32 (- 2 * r) = - 2 * r"
    using mod by (auto simp: moderate_def intro!: s32_moderate)
  have PP: "(if x0 - r < 0 \<or> x0 + r \<ge> W f \<or> y0 - r < 0 \<or> y0 + r \<ge> H f
      then (\<lambda>x y. fb_plot bo f x y color) else (\<lambda>x y. plot_unbounded bo f x y color)) = P"
    by (auto simp: P_def in_screen_def)
  have P: "fb_circle bo f x0 y0 r color m = circle_loop (plot8 P x0 y0) 0 r (1 - r) 1 (- 2 * r)
        (P (x0 - r) y0 (P (x0 + r) y0 (P x0 (y0 - r) (P x0 (y0 + r) m))))"
    unfolding fb_circle_def Let_def w PP if_not_P [OF on] ..
  obtain pts where pts: "fb_circle bo f x0 y0 r color m = fold (\<lambda>(x, y). P x y) pts m" "is_circle x0 y0 r (set pts)"
    using circle_points [OF r mod, of P m] unfolding P by blast
  have "fold (\<lambda>(x, y). P x y) pts m = fold (\<lambda>(x, y). fb_plot bo f x y color) pts m"
  proof (cases in_screen)
    case True
    then have s: "0 \<le> x0 - r" "x0 + r < W f" "0 \<le> y0 - r" "y0 + r < H f" by (simp_all add: in_screen_def)
    have "circle_near x0 y0 r p" if "p \<in> set pts" for p using pts(2) that by (simp add: is_circle_def)
    then have "\<And>p. p \<in> set pts \<Longrightarrow> on_screen f p" using circle_near_on_screen [OF s] by blast
    then show ?thesis unfolding P_def if_P [OF True] by (rule fold_plot_unbounded)
  qed (simp only: P_def if_False)
  then show ?thesis using pts drawn_fold [OF ok] by metis
qed

theorem fb_circle_correct_witness:
  "\<exists>pts. is_circle 10 20 15 pts \<and>
     drawn BIG_ENDIAN (vga 640 360 5 PLOT_16) 0xf800 pts (\<lambda>_. 0) (fb_circle BIG_ENDIAN (vga 640 360 5 PLOT_16) 10 20 15 0xf800 (\<lambda>_. 0))"
  by (rule fb_circle_correct) (simp_all add: fb_ok_def fn_bits_def moderate_def)

section \<open>Rectangles\<close>

lemma upto_shift: "[a + x0..a + x1] = map ((+) a) [x0..x1]"
proof (induction "nat (x1 + 1 - x0)" arbitrary: x0)
  case (Suc n)
  then have "n = nat (x1 + 1 - (x0 + 1))" "x0 \<le> x1" by auto
  then show ?case using Suc.hyps(1) [of "x0 + 1"] upto_rec1 [of "a + x0" "a + x1"] upto_rec1 [of x0 x1]
    by (simp add: add.assoc)
qed simp

definition rect_pts :: "int \<Rightarrow> int \<Rightarrow> int \<Rightarrow> int \<Rightarrow> (int \<times> int) list" where
  "rect_pts x0 x1 y0 y1 = concat (map (\<lambda>y. map (\<lambda>x. (x, y)) [x0..x1]) [y0..y1])"

lemma set_rect_pts: "set (rect_pts x0 x1 y0 y1) = {(x, y). x0 \<le> x \<and> x \<le> x1 \<and> y0 \<le> y \<and> y \<le> y1}"
  by (auto simp: rect_pts_def)

lemma rect_pts_row: "y0 \<le> y1 \<Longrightarrow> rect_pts x0 x1 y0 y1 = map (\<lambda>x. (x, y0)) [x0..x1] @ rect_pts x0 x1 (y0 + 1) y1"
  by (simp add: rect_pts_def upto_rec1 [of y0 y1])

lemma rect_pts_none: "\<not> y0 \<le> y1 \<Longrightarrow> rect_pts x0 x1 y0 y1 = []"
  by (simp add: rect_pts_def)

text \<open>A row of pixels drawn by a function of the offset.\<close>

lemma fold_row:
  assumes "\<And>k m. plotfn_off bo (fb_plotfn_off f) (fb_active f) k c m = g k m"
  shows "fold g [y * W f + x0..y * W f + x1] m = fold (\<lambda>(x, y). plot_unbounded bo f x y c) (map (\<lambda>x. (x, y)) [x0..x1]) m"
proof -
  have "(\<lambda>x. g (y * W f + x)) = (\<lambda>x. plot_unbounded bo f x y c)" by (simp add: fun_eq_iff plot_unbounded_def assms)
  then show ?thesis unfolding upto_shift by (simp add: fold_map comp_def)
qed

lemma elem_add: "elem p s (i + k) = elem p s i + word_of_int (s * k)"
  by (simp add: elem_def algebra_simps)

lemma rect_24_tail_fold: "rect_24_tail bo p c i l m = fold (\<lambda>k. plot_bpp_24 bo p k c) [i..i + l - 1] m"
proof (induction bo p c i l m rule: rect_24_tail.induct)
  case (1 bo p c i l m)
  then show ?case using upto_rec1 [of i "i + l - 1"]
    by (subst rect_24_tail.simps) (auto simp flip: plot_bpp_24_def)
qed

lemma rect_24_by_4_fold:
  "rect_24_by_4 bo p c i l m = (i', l', m') \<Longrightarrow>
   fold (\<lambda>k. plot_bpp_24 bo p k c) [i'..i' + l' - 1] m' = fold (\<lambda>k. plot_bpp_24 bo p k c) [i..i + l - 1] m"
proof (induction bo p c i l m rule: rect_24_by_4.induct)
  case (1 bo p c i l m)
  show ?case
  proof (cases "l \<ge> 4")
    case True
    have "[i..i + l - 1] = i # (i + 1) # (i + 2) # (i + 3) # [i + 4..i + 4 + (l - 4) - 1]"
      using True by (simp add: upto_rec1 add.commute)
    then show ?thesis using 1 True by (simp add: rect_24_by_4.simps [of bo p c i l] flip: plot_bpp_24_def)
  next
    case False
    then show ?thesis using 1(2) by (simp add: rect_24_by_4.simps [of bo p c i l])
  qed
qed

lemma rect_24_row_fold: "rect_24_row bo p c i l m = fold (\<lambda>k. plot_bpp_24 bo p k c) [i..i + l - 1] m"
  unfolding rect_24_row_def by (auto simp: rect_24_tail_fold rect_24_by_4_fold split: prod.splits)

text \<open>A word with the colour in both halves is two pixels.\<close>

lemma store_word_halves:
  fixes c :: u32
  defines "cc \<equiv> push_bit 16 c OR (c AND 0xffff)"
  shows "store_word bo m (elem p 2 i) cc = plot_bpp_16 bo p (i + 1) c (plot_bpp_16 bo p i c m)"
proof -
  have f: "(0xffff :: u32) = mask 16" by (simp add: mask_eq_exp_minus_1)
  have b: "word_byte LITTLE_ENDIAN cc 0 = ucast (ucast c :: u16)" "word_byte LITTLE_ENDIAN cc 1 = ucast (drop_bit 8 (ucast c :: u16))"
    "word_byte LITTLE_ENDIAN cc 2 = ucast (ucast c :: u16)" "word_byte LITTLE_ENDIAN cc 3 = ucast (drop_bit 8 (ucast c :: u16))"
    "word_byte BIG_ENDIAN cc 0 = ucast (drop_bit 8 (ucast c :: u16))" "word_byte BIG_ENDIAN cc 1 = ucast (ucast c :: u16)"
    "word_byte BIG_ENDIAN cc 2 = ucast (drop_bit 8 (ucast c :: u16))" "word_byte BIG_ENDIAN cc 3 = ucast (ucast c :: u16)"
    unfolding cc_def f word_byte_def by (rule bit_word_eqI; auto simp: bit_simps)+
  show ?thesis by (cases bo) (simp_all add: store_word_def plot_bpp_16_def store_half_def elem_add b b [simplified] add.assoc)
qed

lemma ucast_halves: "ucast (push_bit 16 c OR (c AND 0xffff) :: u32) = (ucast c :: u16)"
proof -
  have f: "(0xffff :: u32) = mask 16" by (simp add: mask_eq_exp_minus_1)
  show ?thesis unfolding f by (rule bit_word_eqI) (auto simp: bit_simps)
qed

lemma rect_16_by_8_fold:
  "cc = push_bit 16 c OR (c AND 0xffff) \<Longrightarrow> rect_16_by_8 bo p cc i l m = (i', l', m') \<Longrightarrow> 0 \<le> l \<Longrightarrow>
   0 \<le> l' \<and> l' < 8 \<and> fold (\<lambda>k. plot_bpp_16 bo p k c) [i'..i' + l' - 1] m' = fold (\<lambda>k. plot_bpp_16 bo p k c) [i..i + l - 1] m"
proof (induction bo p cc i l m rule: rect_16_by_8.induct)
  case (1 bo p cc i l m)
  show ?case
  proof (cases "l \<ge> 8")
    case True
    have u: "[i..i + l - 1] = i # (i + 1) # (i + 2) # (i + 3) # (i + 4) # (i + 5) # (i + 6) # (i + 7) # [i + 8..i + 8 + (l - 8) - 1]"
      using True by (simp add: upto_rec1 add.commute)
    have "store_word bo (store_word bo (store_word bo (store_word bo m
          (elem p 2 i) cc) (elem p 2 (i + 2)) cc) (elem p 2 (i + 4)) cc) (elem p 2 (i + 6)) cc =
        fold (\<lambda>k. plot_bpp_16 bo p k c) [i, i + 1, i + 2, i + 3, i + 4, i + 5, i + 6, i + 7] m"
      unfolding 1(2) store_word_halves by (simp add: add.commute)
    then show ?thesis using 1 True unfolding u by (simp add: rect_16_by_8.simps [of bo p "push_bit 16 c OR (c AND 0xffff)" i l])
  next
    case False
    then show ?thesis using 1(3,4) by (simp add: rect_16_by_8.simps [of bo p cc i l])
  qed
qed

lemma rect_16_by_2_fold:
  "cc = push_bit 16 c OR (c AND 0xffff) \<Longrightarrow> rect_16_by_2 bo p cc i l m = (i', l', m') \<Longrightarrow> 0 \<le> l \<Longrightarrow>
   0 \<le> l' \<and> l' < 2 \<and> fold (\<lambda>k. plot_bpp_16 bo p k c) [i'..i' + l' - 1] m' = fold (\<lambda>k. plot_bpp_16 bo p k c) [i..i + l - 1] m"
proof (induction bo p cc i l m rule: rect_16_by_2.induct)
  case (1 bo p cc i l m)
  show ?case
  proof (cases "l \<ge> 2")
    case True
    have u: "[i..i + l - 1] = i # (i + 1) # [i + 2..i + 2 + (l - 2) - 1]" using True by (simp add: upto_rec1 add.commute)
    show ?thesis using 1 True unfolding u by (simp add: rect_16_by_2.simps [of bo p "push_bit 16 c OR (c AND 0xffff)" i l] store_word_halves)
  next
    case False
    then show ?thesis using 1(3,4) by (simp add: rect_16_by_2.simps [of bo p cc i l])
  qed
qed

lemma rect_16_row_fold:
  assumes "1 \<le> l"
  shows "rect_16_row bo p (push_bit 16 c OR (c AND 0xffff)) i l m = fold (\<lambda>k. plot_bpp_16 bo p k c) [i..i + l - 1] m"
proof -
  let ?cc = "push_bit 16 c OR (c AND 0xffff)" and ?g = "\<lambda>k. plot_bpp_16 bo p k c"
  obtain i1 l1 m1 where 1: "(if i AND 1 \<noteq> 0 then (i + 1, l - 1, store_half bo m (elem p 2 i) (ucast ?cc)) else (i, l, m)) = (i1, l1, m1)"
    by (metis prod_cases3)
  have f1: "0 \<le> l1" "fold ?g [i1..i1 + l1 - 1] m1 = fold ?g [i..i + l - 1] m"
    using 1 assms upto_rec1 [of i "i + l - 1"] by (auto simp: plot_bpp_16_def ucast_halves split: if_splits)
  obtain i2 l2 m2 where 2: "rect_16_by_8 bo p ?cc i1 l1 m1 = (i2, l2, m2)" by (metis prod_cases3)
  note f2 = rect_16_by_8_fold [OF refl 2 f1(1)]
  obtain i3 l3 m3 where 3: "rect_16_by_2 bo p ?cc i2 l2 m2 = (i3, l3, m3)" by (metis prod_cases3)
  note f3 = rect_16_by_2_fold [OF refl 3 conjunct1 [OF f2]]
  have "rect_16_row bo p ?cc i l m = (if l3 \<noteq> 0 then store_half bo m3 (elem p 2 i3) (ucast ?cc) else m3)"
    unfolding rect_16_row_def 1 Let_def prod.case 2 3 ..
  also have "\<dots> = fold ?g [i3..i3 + l3 - 1] m3"
    using f3 by (cases "l3 = 0") (auto simp: plot_bpp_16_def ucast_halves upto_rec1 [of i3])
  finally show ?thesis using f1 f2 f3 by simp
qed

lemma memset_row_fold:
  assumes "0 \<le> l" "l < 2 ^ 32"
  shows "fst (memset bo m (elem p 1 i) c (word_of_int l)) = fold (\<lambda>k. plot_bpp_8 p k c) [i..i + l - 1] m"
proof -
  have "filled m (elem p 1 i) n (ucast c) = fold (\<lambda>k. plot_bpp_8 p k c) [i..i + int n - 1] m" for n
  proof (induction n arbitrary: m i)
    case (Suc n)
    have u: "[i..i + int (Suc n) - 1] = i # [i + 1..i + 1 + int n - 1]" by (simp add: upto_rec1)
    have e: "elem p 1 i + 1 = elem p 1 (i + 1)" by (simp add: elem_add)
    show ?case unfolding u filled_Suc e using Suc.IH [of "m(elem p 1 i := ucast c)" "i + 1"] by (simp add: plot_bpp_8_def)
  qed simp
  moreover have "unat (word_of_int l :: u32) = nat l" using assms by (simp add: unat_of_nat_lt flip: of_nat_nat)
  ultimately show ?thesis using assms by (simp add: memset_fills)
qed

lemma row_upto: "[y * W f + x0..y * W f + x0 + (x1 - x0 + 1) - 1] = [y * W f + x0..y * W f + x1]"
  by (simp add: algebra_simps)

lemma rect_24_points:
  "fb_plotfn_off f = PLOT_24 \<Longrightarrow> rect_24 bo f x0 x1 y0 y1 c m = fold (\<lambda>(x, y). plot_unbounded bo f x y c) (rect_pts x0 x1 y0 y1) m"
proof (induction bo f x0 x1 y0 y1 c m rule: rect_24.induct)
  case (1 bo f x0 x1 y0 y1 c m)
  have g: "fold (\<lambda>k. plot_bpp_24 bo (fb_active f) k c) [y0 * W f + x0..y0 * W f + x1] m =
      fold (\<lambda>(x, y). plot_unbounded bo f x y c) (map (\<lambda>x. (x, y0)) [x0..x1]) m"
    by (rule fold_row) (simp add: plotfn_off_def 1(2))
  show ?case
  proof (cases "y0 \<le> y1")
    case True
    show ?thesis unfolding rect_24.simps [of bo f x0 x1 y0 y1 c m] if_P [OF True] rect_24_row_fold row_upto g
        1(1) [OF True 1(2), unfolded rect_24_row_fold row_upto g] rect_pts_row [OF True] by simp
  qed (simp add: rect_24.simps [of bo f x0 x1 y0] rect_pts_none)
qed

lemma rect_16_points:
  "fb_plotfn_off f = PLOT_16 \<Longrightarrow> x0 \<le> x1 \<Longrightarrow> cc = push_bit 16 c OR (c AND 0xffff) \<Longrightarrow>
   rect_16 bo f x0 x1 y0 y1 cc m = fold (\<lambda>(x, y). plot_unbounded bo f x y c) (rect_pts x0 x1 y0 y1) m"
proof (induction bo f x0 x1 y0 y1 cc m rule: rect_16.induct)
  case (1 bo f x0 x1 y0 y1 cc m)
  have "1 \<le> x1 - x0 + 1" using 1(3) by simp
  note r = rect_16_row_fold [OF this, of bo "fb_active f" c "y0 * W f + x0" m, unfolded row_upto]
  have g: "fold (\<lambda>k. plot_bpp_16 bo (fb_active f) k c) [y0 * W f + x0..y0 * W f + x1] m =
      fold (\<lambda>(x, y). plot_unbounded bo f x y c) (map (\<lambda>x. (x, y0)) [x0..x1]) m"
    by (rule fold_row) (simp add: plotfn_off_def 1(2))
  show ?case
  proof (cases "y0 \<le> y1")
    case True
    show ?thesis unfolding rect_16.simps [of bo f x0 x1 y0 y1 cc m] if_P [OF True]
        1(1) [OF True 1(2,3,4)] rect_pts_row [OF True] unfolding 1(4) r g by simp
  qed (simp add: rect_16.simps [of bo f x0 x1 y0] rect_pts_none)
qed

lemma rect_8_points:
  "fb_plotfn_off f = PLOT_8 \<Longrightarrow> x0 \<le> x1 \<Longrightarrow> x1 - x0 + 1 < 2 ^ 32 \<Longrightarrow> i = y0 * W f + x0 \<Longrightarrow> l = x1 - x0 + 1 \<Longrightarrow>
   rect_8 bo f y0 y1 i l c m = fold (\<lambda>(x, y). plot_unbounded bo f x y c) (rect_pts x0 x1 y0 y1) m"
proof (induction bo f y0 y1 i l c m rule: rect_8.induct)
  case (1 bo f y0 y1 i l c m)
  have "0 \<le> x1 - x0 + 1" using 1(3) by simp
  note r = memset_row_fold [OF this 1(4), of bo m "fb_active f" "y0 * W f + x0" c, unfolded row_upto]
  have i: "i + W f = (y0 + 1) * W f + x0" using 1(5) by (simp add: algebra_simps)
  have g: "fold (\<lambda>k. plot_bpp_8 (fb_active f) k c) [y0 * W f + x0..y0 * W f + x1] m =
      fold (\<lambda>(x, y). plot_unbounded bo f x y c) (map (\<lambda>x. (x, y0)) [x0..x1]) m"
    by (rule fold_row) (simp add: plotfn_off_def 1(2))
  show ?case
  proof (cases "y0 \<le> y1")
    case True
    show ?thesis unfolding rect_8.simps [of bo f y0 y1 i l c m] if_P [OF True]
        1(1) [OF True 1(2,3,4) i 1(6)] rect_pts_row [OF True] unfolding 1(5,6) r g by simp
  qed (simp add: rect_8.simps [of bo f y0 y1] rect_pts_none)
qed

lemma drawn_cong:
  "drawn bo f c P m m' \<Longrightarrow> (\<And>p. on_screen f p \<Longrightarrow> p \<in> P \<longleftrightarrow> p \<in> Q) \<Longrightarrow> drawn bo f c Q m m'"
  by (simp add: drawn_def)

definition byte_format :: "fb_state \<Rightarrow> bool" where
  "byte_format f \<longleftrightarrow> (fb_bpp_code f, fb_plotfn_off f) \<in> {(FB_BPP_8, PLOT_8), (FB_BPP_16, PLOT_16), (FB_BPP_24, PLOT_24)}"

text \<open>C15: In the formats of 8, 16 and 32 bits per pixel a rectangle that meets the columns of the screen
  is filled exactly: every pixel of it on the screen has the colour, no other pixel and no byte
  outside the buffer changes.\<close>
theorem fb_rectangle_fills:
  assumes ok: "fb_ok f" and b: "byte_format f" and x: "0 \<le> max x0 x1" "min x0 x1 < W f" "0 < W f"
  shows "drawn bo f color {(x, y). min x0 x1 \<le> x \<and> x \<le> max x0 x1 \<and> min y0 y1 \<le> y \<and> y \<le> max y0 y1} m
    (fb_rectangle bo f x0 y0 x1 y1 color m)"
proof -
  define a0 a1 b0 b1 where "a0 = max 0 (min x0 x1)" "a1 = min (W f - 1) (max x0 x1)"
    "b0 = max 0 (min y0 y1)" "b1 = min (H f - 1) (max y0 y1)"
  note d = this
  have w: "0 \<le> W f" "W f < 2 ^ 16" using uint_lt2p [of "fb_hdisp f"] by simp_all
  have a: "a0 \<le> a1" "a1 - a0 + 1 < 2 ^ 32" using x w by (auto simp: d)
  have "fb_rectangle bo f x0 y0 x1 y1 color m =
      (if fb_bpp_code f = FB_BPP_8 then rect_8 bo f b0 b1 (b0 * W f + a0) (a1 - a0 + 1) color m
       else if fb_bpp_code f = FB_BPP_16 then rect_16 bo f a0 a1 b0 b1 (push_bit 16 color OR (color AND 0xffff)) m
       else rect_24 bo f a0 a1 b0 b1 color m)"
  proof -
    have "(if x1 < x0 then (x1, x0) else (x0, x1)) = (min x0 x1, max x0 x1)"
      "(if y1 < y0 then (y1, y0) else (y0, y1)) = (min y0 y1, max y0 y1)" by auto
    moreover have "(if min x0 x1 < 0 then 0 else min x0 x1) = a0" "(if min y0 y1 < 0 then 0 else min y0 y1) = b0"
      "(if max x0 x1 \<ge> W f then W f - 1 else max x0 x1) = a1" "(if max y0 y1 \<ge> H f then H f - 1 else max y0 y1) = b1"
      by (auto simp: d)
    ultimately show ?thesis using b unfolding fb_rectangle_def byte_format_def by auto
  qed
  also have "\<dots> = fold (\<lambda>(x, y). plot_unbounded bo f x y color) (rect_pts a0 a1 b0 b1) m"
    using b rect_8_points [OF _ a refl refl] rect_16_points [OF _ a(1) refl] rect_24_points unfolding byte_format_def by auto
  also have "\<dots> = fold (\<lambda>(x, y). fb_plot bo f x y color) (rect_pts a0 a1 b0 b1) m"
    by (rule fold_plot_unbounded) (auto simp: set_rect_pts on_screen_def d)
  finally have "drawn bo f color (set (rect_pts a0 a1 b0 b1)) m (fb_rectangle bo f x0 y0 x1 y1 color m)"
    using drawn_fold [OF ok] by metis
  then show ?thesis by (rule drawn_cong) (auto simp: set_rect_pts on_screen_def d)
qed

theorem fb_rectangle_fills_witness:
  "drawn LITTLE_ENDIAN (vga 640 360 5 PLOT_16) 7 {(x, y). min 700 3 \<le> x \<and> x \<le> max 700 3 \<and> min 2 (- 9) \<le> y \<and> y \<le> max 2 (- 9)}
    (\<lambda>_. 0) (fb_rectangle LITTLE_ENDIAN (vga 640 360 5 PLOT_16) 700 2 3 (- 9) 7 (\<lambda>_. 0))"
  by (rule fb_rectangle_fills) (simp_all add: fb_ok_def fn_bits_def byte_format_def)

text \<open>C34: A rectangle left of the screen is not clipped away at 8 bits per pixel: its width is negative,
  memset takes it for a length near 4 GB, and all of the memory but a few bytes gets the colour.\<close>
theorem fb_rectangle_left_overruns:
  assumes "fb_bpp_code f = FB_BPP_8" "x0 \<le> x1" "- (2 ^ 31) \<le> x1" "x1 < - 1" "0 \<le> y" "y < H f"
  shows "fb_rectangle bo f x0 y x1 y color m =
    (\<lambda>a. if int (unat (a - elem (fb_active f) 1 (y * W f))) < 2 ^ 32 + x1 + 1 then ucast color else m a)"
proof -
  have "unat (word_of_int (x1 + 1) :: u32) = nat (2 ^ 32 + x1 + 1)"
  proof -
    have "(word_of_int (x1 + 1) :: u32) = of_nat (nat (2 ^ 32 + x1 + 1))"
      using assms(3) by (simp add: word_of_nat_eq_iff word_of_int_eq_iff take_bit_eq_mod)
    moreover have "unat (of_nat (nat (2 ^ 32 + x1 + 1)) :: u32) = nat (2 ^ 32 + x1 + 1)"
      using assms(3,4) by (intro unat_of_nat_lt) simp
    ultimately show ?thesis by simp
  qed
  moreover have "fb_rectangle bo f x0 y x1 y color m = fst (memset bo m (elem (fb_active f) 1 (y * W f)) color (word_of_int (x1 + 1)))"
  proof -
    have "\<not> W f \<le> x1" using assms(4) uint_ge_0 [of "fb_hdisp f"] by linarith
    then show ?thesis using assms by (simp add: fb_rectangle_def rect_8.simps [of bo f y y] rect_8.simps [of bo f "y + 1" y])
  qed
  ultimately show ?thesis using assms(3) by (auto simp: memset_fills filled_def fun_eq_iff zless_nat_eq_int_zless)
qed

theorem fb_rectangle_left_overruns_witness:
  "fb_rectangle LITTLE_ENDIAN (vga 640 360 4 PLOT_8) (- 9) 0 (- 3) 0 0xff (\<lambda>_. 0) 0x90000000 = 0xff"
  using fb_rectangle_left_overruns [of "vga 640 360 4 PLOT_8" "- 9" "- 3" 0 LITTLE_ENDIAN "0xff" "\<lambda>_. 0"]
  by (simp add: elem_def)

section \<open>Colours\<close>

text \<open>Values of \<open>k\<close> bits.\<close>

definition fits :: "nat \<Rightarrow> u32 \<Rightarrow> bool" where
  "fits k w \<longleftrightarrow> w AND mask k = w"

lemma fits_bits: "fits k w \<longleftrightarrow> (\<forall>n. bit w n \<longrightarrow> n < k)"
proof
  assume "fits k w"
  then show "\<forall>n. bit w n \<longrightarrow> n < k" unfolding fits_def by (metis bit_and_iff bit_mask_iff)
qed (auto simp: fits_def bit_simps intro: bit_word_eqI)

lemma fits_ops:
  "fits k a \<Longrightarrow> fits k b \<Longrightarrow> fits k (a OR b)" "fits k b \<Longrightarrow> fits k (a AND b)"
  "fits k a \<Longrightarrow> fits (k + j) (push_bit j a)" "fits (k + j) a \<Longrightarrow> fits k (drop_bit j a)"
  by (auto simp: fits_bits bit_simps)

lemma fits_le: "fits j a \<Longrightarrow> j \<le> k \<Longrightarrow> fits k a"
  by (auto simp: fits_bits)

text \<open>C35: fb_rgb2pal gives a value that fits in a pixel in every format but that of four grey levels.
  There white gives 4, and plotting it has the same effect as plotting black.\<close>
theorem fb_rgb2pal_range:
  "fits 1 (fb_rgb2pal 1 rgb) \<and> fits 4 (fb_rgb2pal 4 rgb) \<and> fits 8 (fb_rgb2pal 8 rgb) \<and> fits 16 (fb_rgb2pal 16 rgb) \<and>
   fb_rgb2pal 2 0xffffff = 4 \<and> plot_bpp_2 bo p off (fb_rgb2pal 2 0xffffff) = plot_bpp_2 bo p off (fb_rgb2pal 2 0)"
proof -
  have c: "fits 8 0xff" "fits 8 0xf8" "fits 8 0xfc" "fits 8 0xe0" "fits 8 0x1c" "fits 8 3" "fits 4 4" "fits 4 1" "fits 4 2" "fits 4 8" "fits 4 0" "fits 1 1" "fits 1 0"
    by (simp_all add: fits_def mask_eq_exp_minus_1)
  have b: "fits 8 (w AND 0xff)" for w by (rule fits_ops(2) [OF c(1)])
  have d: "fits k (drop_bit j (w AND 0xff))" if "8 - j \<le> k" for w j k
    using b that by (intro fits_le [of "8 - j" _ k] fits_ops(4) fits_le [OF b]) auto
  have "fits 1 (fb_rgb2pal 1 rgb)" using c by (simp add: fb_rgb2pal_def Let_def)
  moreover have "fits 4 (fb_rgb2pal 4 rgb)"
    unfolding fb_rgb2pal_def Let_def by (simp, intro conjI impI fits_ops(1) fits_ops(2) d) (simp_all add: c)
  moreover have "fits 8 (fb_rgb2pal 8 rgb)"
    unfolding fb_rgb2pal_def Let_def by (simp, intro conjI impI fits_ops(1) fits_ops(2) d) (simp_all add: c)
  moreover have "fits 16 (fb_rgb2pal 16 rgb)"
  proof -
    have p: "fits 16 (push_bit 8 (w AND 0xf8))" "fits 16 (push_bit 3 (w AND 0xfc))" for w
      using fits_ops(3) [OF fits_ops(2) [OF c(2)], of 8 w] fits_le [OF fits_ops(3) [OF fits_ops(2) [OF c(3)], of 3 w]]
      by (simp_all del: push_bit_and)
    have n: "(16 :: u8) \<noteq> 32" by simp
    show ?thesis unfolding fb_rgb2pal_def Let_def if_not_P [OF n] if_P [OF refl] by (intro fits_ops(1) p d) simp
  qed
  moreover have "fb_rgb2pal 2 0xffffff = 4" "fb_rgb2pal 2 0 = 0" by (simp_all add: fb_rgb2pal_def)
  ultimately show ?thesis by (auto simp: plot_bpp_2_def)
qed

end
