(* ===== verification/Sprite.thy ===== *)
theory Sprite
  imports Fb_Props
begin

text \<open>
  Sprites, dev/sprite.c: the list of sprites, grabbing and putting them, and the colours that the
  image loaders compute.  The decoders themselves are third-party code and not modelled.
\<close>

section \<open>Sprites\<close>

text \<open>\<open>spr_p\<close> is the address of the structure; the list is in the order of the SLIST.\<close>

record sprite =
  spr_p :: addr
  spr_data :: addr
  spr_trans_color :: int
  spr_id :: u16
  spr_size_x :: u16
  spr_size_y :: u16

definition spr_find :: "int \<Rightarrow> sprite list \<Rightarrow> sprite option" where
  "spr_find sid sprs = find (\<lambda>s. uint (spr_id s) = sid) sprs"

definition spr_flush :: "byte_order \<Rightarrow> mstate \<Rightarrow> sprite list \<Rightarrow> (mstate \<times> sprite list) exec option" where
  "spr_flush bo st sprs = (case sprs of [] \<Rightarrow> Some (Ret (st, sprs)) | sp # rest \<Rightarrow>
     (case free bo st (spr_p sp) of None \<Rightarrow> None | Some (Exit e) \<Rightarrow> Some (Exit e) | Some (Ret st) \<Rightarrow> Some (Ret (st, rest))))"

definition spr_free :: "byte_order \<Rightarrow> int \<Rightarrow> mstate \<Rightarrow> sprite list \<Rightarrow> (int \<times> mstate \<times> sprite list) exec option" where
  "spr_free bo sid st sprs = (case spr_find sid sprs of None \<Rightarrow> Some (Ret (- 1, st, sprs)) | Some sp \<Rightarrow>
     (case free bo st (spr_p sp) of None \<Rightarrow> None | Some (Exit e) \<Rightarrow> Some (Exit e)
      | Some (Ret st) \<Rightarrow> Some (Ret (0, st, remove1 sp sprs))))"

text \<open>The sizes of a new sprite are what the allocator left there.\<close>

definition spr_alloc :: "byte_order \<Rightarrow> board \<Rightarrow> addr \<Rightarrow> int \<Rightarrow> int \<Rightarrow> mstate \<Rightarrow> sprite list \<Rightarrow>
    (sprite option \<times> mstate \<times> sprite list) exec option" where
  "spr_alloc bo bd end0 sid bufsize st sprs = (case spr_free bo sid st sprs of None \<Rightarrow> None | Some (Exit e) \<Rightarrow> Some (Exit e)
     | Some (Ret (_, st, sprs)) \<Rightarrow>
       (case malloc bo bd end0 st (20 + word_of_int bufsize) of None \<Rightarrow> None | Some (st, p) \<Rightarrow>
        if p = 0 then Some (Ret (None, st, sprs))
        else let sp = \<lparr>spr_p = p, spr_data = p + 18, spr_trans_color = - 1, spr_id = word_of_int sid,
                       spr_size_x = load_half bo (ms_mem st) (p + 14), spr_size_y = load_half bo (ms_mem st) (p + 16)\<rparr>
             in Some (Ret (Some sp, st, sp # sprs))))"

fun grab_8 :: "nat \<Rightarrow> addr \<Rightarrow> addr \<Rightarrow> mem \<Rightarrow> mem" where
  "grab_8 0 src dst m = m"
| "grab_8 (Suc n) src dst m = grab_8 n (src + 1) (dst + 1) (m(dst := m src))"

fun grab_16 :: "byte_order \<Rightarrow> nat \<Rightarrow> addr \<Rightarrow> addr \<Rightarrow> mem \<Rightarrow> mem" where
  "grab_16 bo 0 src dst m = m"
| "grab_16 bo (Suc n) src dst m = grab_16 bo n (src + 2) (dst + 2) (store_half bo m dst (load_half bo m src))"

function grab_rows :: "byte_order \<Rightarrow> fb_state \<Rightarrow> int \<Rightarrow> int \<Rightarrow> int \<Rightarrow> int \<Rightarrow> addr \<Rightarrow> mem \<Rightarrow> mem" where
  "grab_rows bo f x0 x1 y y1 dst m =
     (if y \<le> y1 then
        let n = nat (x1 - x0 + 1)
        in if fb_bpp f = 8
           then grab_rows bo f x0 x1 (y + 1) y1 (dst + of_nat n) (grab_8 n (elem (fb_active f) 1 (y * W f + x0)) dst m)
           else grab_rows bo f x0 x1 (y + 1) y1 (dst + of_nat (2 * n)) (grab_16 bo n (elem (fb_active f) 2 (y * W f + x0)) dst m)
      else m)"
  by pat_completeness auto
termination by (relation "measure (\<lambda>(_, _, _, _, y, y1, _). nat (y1 - y + 1))") auto

text \<open>A sprite that spr_alloc could not make is a null pointer here.\<close>

definition spr_grab :: "byte_order \<Rightarrow> board \<Rightarrow> addr \<Rightarrow> fb_state \<Rightarrow> int \<Rightarrow> int \<Rightarrow> int \<Rightarrow> int \<Rightarrow> int \<Rightarrow> mstate \<Rightarrow> sprite list \<Rightarrow>
    (int \<times> mstate \<times> sprite list) exec option" where
  "spr_grab bo bd end0 f sid x0 y0 x1 y1 st sprs =
     (if x0 < 0 \<or> x1 \<ge> W f \<or> x0 > x1 \<or> y0 < 0 \<or> y1 \<ge> H f \<or> y0 > y1 \<or> sid < 0 \<or> fb_bpp f = 0
      then Some (Ret (- 1, st, sprs))
      else case spr_alloc bo bd end0 sid ((x1 - x0 + 1) * (y1 - y0 + 1) * uint (fb_bpp f) div 8) st sprs of
        None \<Rightarrow> None | Some (Exit e) \<Rightarrow> Some (Exit e)
      | Some (Ret (None, st, sprs)) \<Rightarrow> None
      | Some (Ret (Some sp, st, sprs)) \<Rightarrow>
          Some (Ret (0, st\<lparr>ms_mem := grab_rows bo f x0 x1 y0 y1 (spr_data sp) (ms_mem st)\<rparr>,
            sp\<lparr>spr_size_x := word_of_int (x1 - x0 + 1), spr_size_y := word_of_int (y1 - y0 + 1)\<rparr> # tl sprs)))"

definition spr_update :: "int \<Rightarrow> (sprite \<Rightarrow> sprite) \<Rightarrow> sprite list \<Rightarrow> sprite list" where
  "spr_update sid g sprs =
     (let k = length (takeWhile (\<lambda>s. uint (spr_id s) \<noteq> sid) sprs) in if k < length sprs then sprs[k := g (sprs ! k)] else sprs)"

definition spr_trans :: "int \<Rightarrow> int \<Rightarrow> sprite list \<Rightarrow> int \<times> sprite list" where
  "spr_trans sid color sprs =
     (if spr_find sid sprs = None then (- 1, sprs) else (0, spr_update sid (\<lambda>s. s\<lparr>spr_trans_color := color\<rparr>) sprs))"

definition spr_size :: "int \<Rightarrow> sprite list \<Rightarrow> (int \<times> int) option" where
  "spr_size sid sprs = map_option (\<lambda>s. (uint (spr_size_x s), uint (spr_size_y s))) (spr_find sid sprs)"

fun put_8 :: "int \<Rightarrow> nat \<Rightarrow> addr \<Rightarrow> addr \<Rightarrow> mem \<Rightarrow> mem" where
  "put_8 tr 0 src dst m = m"
| "put_8 tr (Suc n) src dst m =
     put_8 tr n (src + 1) (dst + 1) (if uint (m src) \<noteq> tr then m(dst := m src) else m)"

fun put_16 :: "byte_order \<Rightarrow> int \<Rightarrow> nat \<Rightarrow> addr \<Rightarrow> addr \<Rightarrow> mem \<Rightarrow> mem" where
  "put_16 bo tr 0 src dst m = m"
| "put_16 bo tr (Suc n) src dst m =
     put_16 bo tr n (src + 2) (dst + 2)
       (if uint (load_half bo m src) \<noteq> tr then store_half bo m dst (load_half bo m src) else m)"

function put_rows :: "byte_order \<Rightarrow> fb_state \<Rightarrow> sprite \<Rightarrow> int \<Rightarrow> int \<Rightarrow> int \<Rightarrow> int \<Rightarrow> int \<Rightarrow> int \<Rightarrow> mem \<Rightarrow> mem" where
  "put_rows bo f sp x0 y0 x0_v x1 y y1 m =
     (if y < y1 then
        put_rows bo f sp x0 y0 x0_v x1 (y + 1) y1
          (if fb_bpp f = 8
           then put_8 (spr_trans_color sp) (nat (x1 - x0_v)) (elem (spr_data sp) 1 ((y - y0) * uint (spr_size_x sp) + (x0_v - x0)))
             (elem (fb_active f) 1 (y * W f + x0_v)) m
           else put_16 bo (spr_trans_color sp) (nat (x1 - x0_v)) (elem (spr_data sp) 2 ((y - y0) * uint (spr_size_x sp) + (x0_v - x0)))
             (elem (fb_active f) 2 (y * W f + x0_v)) m)
      else m)"
  by pat_completeness auto
termination by (relation "measure (\<lambda>(_, _, _, _, _, _, _, y, y1, _). nat (y1 - y))") auto

definition spr_put_at :: "byte_order \<Rightarrow> fb_state \<Rightarrow> sprite \<Rightarrow> int \<Rightarrow> int \<Rightarrow> mem \<Rightarrow> mem" where
  "spr_put_at bo f sp x0 y0 m =
     (let x1 = x0 + uint (spr_size_x sp); y1 = y0 + uint (spr_size_y sp);
          x0_v = (if x0 < 0 then 0 else x0); y0_v = (if y0 < 0 then 0 else y0);
          x1 = (if x1 > W f then W f else x1); y1 = (if y1 > H f then H f else y1)
      in put_rows bo f sp x0 y0 x0_v x1 y0_v y1 m)"

definition spr_put :: "byte_order \<Rightarrow> fb_state \<Rightarrow> int \<Rightarrow> int \<Rightarrow> int \<Rightarrow> sprite list \<Rightarrow> mem \<Rightarrow> int \<times> mem" where
  "spr_put bo f sid x0 y0 sprs m =
     (case spr_find sid sprs of None \<Rightarrow> (- 1, m) | Some sp \<Rightarrow> (0, spr_put_at bo f sp x0 y0 m))"

section \<open>Colours of the image loaders\<close>

definition jpeg_565 :: "u32 \<Rightarrow> u32" where
  "jpeg_565 rgb = (drop_bit 8 rgb AND 0xf8) OR drop_bit 5 (rgb AND 0xfc00) OR drop_bit 3 (rgb AND 0xff)"

definition jpeg_332 :: "u32 \<Rightarrow> u32" where
  "jpeg_332 rgb = (drop_bit 16 rgb AND 0xe) OR drop_bit 11 (rgb AND 0xe000) OR drop_bit 6 (rgb AND 0xc0)"

definition png_332 :: "u8 \<Rightarrow> u8 \<Rightarrow> u8 \<Rightarrow> u8" where
  "png_332 r g b = (r AND 0xe0) OR drop_bit 3 (g AND 0xe0) OR (b AND 0x3)"

definition png_565 :: "u8 \<Rightarrow> u8 \<Rightarrow> u8 \<Rightarrow> u16" where
  "png_565 r g b = push_bit 8 (ucast r AND 0xf8) OR push_bit 3 (ucast g AND 0xfc) OR (ucast b AND 0x1f)"

declare grab_rows.simps [simp del] put_rows.simps [simp del]

section \<open>Copies of rows\<close>

lemma region_off: "a \<in> region dst n \<Longrightarrow> n \<le> 2 ^ 32 \<Longrightarrow> \<exists>i<n. a = dst + of_nat i"
  by (intro exI [of _ "unat (a - dst)"]) simp

lemma off_not_region_next: "n < 2 ^ 32 \<Longrightarrow> dst \<notin> region (dst + 1 :: u32) n"
  by (simp add: unsigned_minus_1_eq_mask mask_eq_exp_minus_1)

text \<open>One row of a sprite: a pixel is copied unless it has the transparent colour.\<close>

lemma put_8_row:
  "n < 2 ^ 32 \<Longrightarrow> (\<forall>i<n. \<forall>j<n. src + of_nat i \<noteq> dst + of_nat j) \<Longrightarrow>
   (\<forall>i<n. put_8 tr n src dst m (dst + of_nat i) =
     (if uint (m (src + of_nat i)) \<noteq> tr then m (src + of_nat i) else m (dst + of_nat i))) \<and>
   (\<forall>a. a \<notin> region dst n \<longrightarrow> put_8 tr n src dst m a = m a)"
proof (induction n arbitrary: src dst m)
  case (Suc n)
  let ?m = "if uint (m src) \<noteq> tr then m(dst := m src) else m"
  have d: "\<forall>i<n. \<forall>j<n. src + 1 + of_nat i \<noteq> dst + 1 + of_nat j"
  proof (intro allI impI)
    fix i j assume "i < n" "j < n"
    then have "src + of_nat (Suc i) \<noteq> dst + of_nat (Suc j)" using Suc.prems(2) by (metis Suc_less_eq)
    then show "src + 1 + of_nat i \<noteq> dst + 1 + of_nat j" by (simp add: add.assoc)
  qed
  have n: "n < 2 ^ 32" using Suc.prems(1) by simp
  note ih = Suc.IH [OF n d, of ?m]
  have sd: "src + of_nat i \<noteq> dst" if "i < Suc n" for i using Suc.prems(2) [rule_format, of i 0] that by simp
  have "put_8 tr (Suc n) src dst m (dst + of_nat i) =
     (if uint (m (src + of_nat i)) \<noteq> tr then m (src + of_nat i) else m (dst + of_nat i))" if "i < Suc n" for i
  proof (cases i)
    case 0
    then show ?thesis using conjunct2 [OF ih] off_not_region_next [OF n, of dst] by simp
  next
    case (Suc k)
    then have k: "k < n" using that by simp
    have e: "dst + of_nat i = dst + 1 + of_nat k" "src + of_nat i = src + 1 + of_nat k" using Suc by simp_all
    have "(of_nat i :: u32) \<noteq> of_nat 0" using Suc that Suc.prems(1) by (subst of_nat_eq_u32) auto
    then have "dst + 1 + of_nat k \<noteq> dst" unfolding e(1) [symmetric] by simp
    moreover have "src + 1 + of_nat k \<noteq> dst" using sd [OF that] e by simp
    ultimately show ?thesis unfolding e using conjunct1 [OF ih] k by auto
  qed
  moreover have "put_8 tr (Suc n) src dst m a = m a" if "a \<notin> region dst (Suc n)" for a
    using that conjunct2 [OF ih] by (auto simp: region_Suc)
  ultimately show ?case by blast
qed simp

lemma uint_not_minus_1: "uint w \<noteq> - 1"
  using uint_ge_0 [of w] by linarith

lemma grab_8_put: "grab_8 n src dst m = put_8 (- 1) n src dst m"
  by (induction n arbitrary: src dst m) (simp_all add: uint_not_minus_1)

lemma elem_inj:
  assumes "elem p 1 i = elem p 1 j" "0 \<le> i" "i < 2 ^ 31" "0 \<le> j" "j < 2 ^ 31"
  shows "i = j"
proof -
  have "(word_of_int i :: u32) = word_of_int j" using assms(1) unfolding elem_def by (simp only: add_left_cancel mult_1)
  moreover have "sint (word_of_int i :: u32) = i" by (rule sint_word_of_int_32) (use assms in auto)
  moreover have "sint (word_of_int j :: u32) = j" by (rule sint_word_of_int_32) (use assms in auto)
  ultimately show ?thesis by metis
qed

lemma elem_shift: "elem p 1 i + of_nat k = elem p 1 (i + int k)"
  by (simp add: elem_def add.assoc)

text \<open>A position in an array of rows.\<close>

lemma cell_range:
  fixes u v w h :: int
  assumes "0 \<le> u" "u < w" "0 \<le> v" "v < h"
  shows "0 \<le> v * w + u" "v * w + u < w * h"
proof -
  show "0 \<le> v * w + u" using assms by simp
  have "(v + 1) * w \<le> h * w" using assms by (intro mult_right_mono) auto
  then show "v * w + u < w * h" using assms by (simp add: algebra_simps)
qed

lemma cell_inj:
  fixes u v x y w :: int
  assumes "0 \<le> u" "u < w" "0 \<le> x" "x < w" "v * w + u = y * w + x"
  shows "u = x \<and> v = y"
proof -
  have "(v * w + u) div w = v" "(v * w + u) mod w = u" "(y * w + x) div w = y" "(y * w + x) mod w = x" using assms(1-4) by auto
  then show ?thesis using assms(5) by metis
qed

definition spr_ok :: "fb_state \<Rightarrow> sprite \<Rightarrow> bool" where
  "spr_ok f sp \<longleftrightarrow> fb_bpp f = 8 \<and> W f * H f < 2 ^ 31 \<and> uint (spr_size_x sp) * uint (spr_size_y sp) < 2 ^ 31 \<and>
     (\<forall>i j. 0 \<le> i \<and> i < uint (spr_size_x sp) * uint (spr_size_y sp) \<and> 0 \<le> j \<and> j < W f * H f \<longrightarrow>
        elem (spr_data sp) 1 i \<noteq> elem (fb_active f) 1 j)"

definition spr_byte :: "sprite \<Rightarrow> mem \<Rightarrow> int \<Rightarrow> int \<Rightarrow> u8" where
  "spr_byte sp m i j = m (elem (spr_data sp) 1 (j * uint (spr_size_x sp) + i))"

definition fb_byte :: "fb_state \<Rightarrow> mem \<Rightarrow> int \<Rightarrow> int \<Rightarrow> u8" where
  "fb_byte f m u v = m (elem (fb_active f) 1 (v * W f + u))"

definition outside :: "fb_state \<Rightarrow> addr \<Rightarrow> bool" where
  "outside f a \<longleftrightarrow> (\<forall>j. 0 \<le> j \<and> j < W f * H f \<longrightarrow> a \<noteq> elem (fb_active f) 1 j)"

lemma spr_byte_cong:
  assumes ok: "spr_ok f sp" and i: "0 \<le> i" "i < uint (spr_size_x sp)" "0 \<le> j" "j < uint (spr_size_y sp)"
    and m: "\<And>a. outside f a \<Longrightarrow> m' a = m a"
  shows "spr_byte sp m' i j = spr_byte sp m i j"
  unfolding spr_byte_def using cell_range [OF i] ok by (intro m) (auto simp: outside_def spr_ok_def)

lemma put_row_8:
  fixes m :: mem
  assumes ok: "spr_ok f sp" and x: "0 \<le> x0_v" "x0 \<le> x0_v" "x1 \<le> W f" "x1 \<le> x0 + uint (spr_size_x sp)"
    and y: "0 \<le> y" "y < H f" "y0 \<le> y" "y < y0 + uint (spr_size_y sp)"
  defines "m' \<equiv> put_8 (spr_trans_color sp) (nat (x1 - x0_v)) (elem (spr_data sp) 1 ((y - y0) * uint (spr_size_x sp) + (x0_v - x0)))
             (elem (fb_active f) 1 (y * W f + x0_v)) m"
  shows "(\<forall>u v. on_screen f (u, v) \<longrightarrow> fb_byte f m' u v =
      (if v = y \<and> x0_v \<le> u \<and> u < x1 \<and> uint (spr_byte sp m (u - x0) (v - y0)) \<noteq> spr_trans_color sp
       then spr_byte sp m (u - x0) (v - y0) else fb_byte f m u v)) \<and> (\<forall>a. outside f a \<longrightarrow> m' a = m a)"
proof -
  let ?w = "uint (spr_size_x sp)" and ?h = "uint (spr_size_y sp)" and ?n = "nat (x1 - x0_v)"
  let ?src = "elem (spr_data sp) 1 ((y - y0) * ?w + (x0_v - x0))" and ?dst = "elem (fb_active f) 1 (y * W f + x0_v)"
  have s: "?src + of_nat i = elem (spr_data sp) 1 ((y - y0) * ?w + (x0_v - x0 + int i))" for i by (simp add: elem_shift add.assoc)
  have d: "?dst + of_nat i = elem (fb_active f) 1 (y * W f + (x0_v + int i))" for i by (simp add: elem_shift add.assoc)
  have sr: "0 \<le> (y - y0) * ?w + (x0_v - x0 + int i)" "(y - y0) * ?w + (x0_v - x0 + int i) < ?w * ?h" if "i < ?n" for i
    using cell_range [of "x0_v - x0 + int i" ?w "y - y0" ?h] that x y by auto
  have dr: "0 \<le> y * W f + (x0_v + int i)" "y * W f + (x0_v + int i) < W f * H f" if "i < ?n" for i
    using cell_range [of "x0_v + int i" "W f" y "H f"] that x y by auto
  have wl: "W f < 2 ^ 16" using uint_lt2p [of "fb_hdisp f"] by simp
  then have n: "?n < 2 ^ 32" using x by simp
  have dj: "elem (spr_data sp) 1 i \<noteq> elem (fb_active f) 1 j" if "0 \<le> i" "i < ?w * ?h" "0 \<le> j" "j < W f * H f" for i j
    using ok that by (simp add: spr_ok_def)
  have "\<forall>i<?n. \<forall>j<?n. ?src + of_nat i \<noteq> ?dst + of_nat j"
  proof (intro allI impI)
    fix i j assume "i < ?n" "j < ?n"
    then show "?src + of_nat i \<noteq> ?dst + of_nat j" unfolding s d by (intro dj sr dr)
  qed
  note row = put_8_row [OF n this, of "spr_trans_color sp" m, folded m'_def]
  have "fb_byte f m' u v =
      (if v = y \<and> x0_v \<le> u \<and> u < x1 \<and> uint (spr_byte sp m (u - x0) (v - y0)) \<noteq> spr_trans_color sp
       then spr_byte sp m (u - x0) (v - y0) else fb_byte f m u v)" if uv: "on_screen f (u, v)" for u v
  proof (cases "v = y \<and> x0_v \<le> u \<and> u < x1")
    case True
    then have i: "nat (u - x0_v) < ?n" "int (nat (u - x0_v)) = u - x0_v" by auto
    show ?thesis using conjunct1 [OF row, rule_format, OF i(1)] True
      unfolding s d i(2) fb_byte_def spr_byte_def by simp
  next
    case False
    have c: "0 \<le> u" "u < W f" "0 \<le> v" "v < H f" using uv by (auto simp: on_screen_def)
    have "elem (fb_active f) 1 (v * W f + u) \<notin> region ?dst ?n"
    proof
      assume "elem (fb_active f) 1 (v * W f + u) \<in> region ?dst ?n"
      from region_off [OF this less_imp_le [OF n]] obtain i
        where i: "i < ?n" "elem (fb_active f) 1 (v * W f + u) = elem (fb_active f) 1 (y * W f + (x0_v + int i))"
        unfolding d by blast
      note cr = cell_range [OF c]
      have "W f * H f < 2 ^ 31" using ok by (simp add: spr_ok_def)
      from elem_inj [OF i(2) cr(1) less_trans [OF cr(2) this] dr(1) [OF i(1)] less_trans [OF dr(2) [OF i(1)] this]]
      show False using cell_inj [OF c(1,2), of "x0_v + int i" v y] i(1) x False by auto
    qed
    then show ?thesis using conjunct2 [OF row] False unfolding fb_byte_def by auto
  qed
  moreover have "m' a = m a" if "outside f a" for a
  proof -
    have "a \<notin> region ?dst ?n"
    proof
      assume "a \<in> region ?dst ?n"
      from region_off [OF this less_imp_le [OF n]] obtain i where "i < ?n" "a = ?dst + of_nat i" by blast
      then show False using that dr [of i] unfolding d outside_def by blast
    qed
    then show ?thesis using conjunct2 [OF row] by blast
  qed
  ultimately show ?thesis by blast
qed

lemma put_rows_8:
  "spr_ok f sp \<Longrightarrow> 0 \<le> x0_v \<Longrightarrow> x0 \<le> x0_v \<Longrightarrow> x1 \<le> W f \<Longrightarrow> x1 \<le> x0 + uint (spr_size_x sp) \<Longrightarrow>
   0 \<le> y \<Longrightarrow> y0 \<le> y \<Longrightarrow> y1 \<le> H f \<Longrightarrow> y1 \<le> y0 + uint (spr_size_y sp) \<Longrightarrow>
   (\<forall>u v. on_screen f (u, v) \<longrightarrow> fb_byte f (put_rows bo f sp x0 y0 x0_v x1 y y1 m) u v =
      (if y \<le> v \<and> v < y1 \<and> x0_v \<le> u \<and> u < x1 \<and> uint (spr_byte sp m (u - x0) (v - y0)) \<noteq> spr_trans_color sp
       then spr_byte sp m (u - x0) (v - y0) else fb_byte f m u v)) \<and>
   (\<forall>a. outside f a \<longrightarrow> put_rows bo f sp x0 y0 x0_v x1 y y1 m a = m a)"
proof (induction bo f sp x0 y0 x0_v x1 y y1 m rule: put_rows.induct)
  case (1 bo f sp x0 y0 x0_v x1 y y1 m)
  show ?case
  proof (cases "y < y1")
    case False
    then show ?thesis by (auto simp: put_rows.simps [of bo f sp x0 y0 x0_v x1 y y1])
  next
    case True
    have b8: "fb_bpp f = 8" using 1(2) by (simp add: spr_ok_def)
    define m' where "m' = put_8 (spr_trans_color sp) (nat (x1 - x0_v)) (elem (spr_data sp) 1 ((y - y0) * uint (spr_size_x sp) + (x0_v - x0)))
             (elem (fb_active f) 1 (y * W f + x0_v)) m"
    have y: "y < H f" "y < y0 + uint (spr_size_y sp)" using True 1 by auto
    note row = put_row_8 [OF 1(2,3,4,5,6,7) y(1) 1(8) y(2), of m, folded m'_def]
    have out: "\<And>a. outside f a \<Longrightarrow> m' a = m a" using row by blast
    have r: "put_rows bo f sp x0 y0 x0_v x1 y y1 m = put_rows bo f sp x0 y0 x0_v x1 (y + 1) y1 m'"
      using True b8 by (simp add: put_rows.simps [of bo f sp x0 y0 x0_v x1 y y1 m] m'_def)
    have y1: "0 \<le> y + 1" "y0 \<le> y + 1" using 1 by auto
    note ih = 1(1) [OF True 1(2,3,4,5,6) y1 1(9,10), unfolded if_P [OF b8], folded m'_def]
    have sb: "spr_byte sp m' (u - x0) (v - y0) = spr_byte sp m (u - x0) (v - y0)"
      if "x0_v \<le> u" "u < x1" "y \<le> v" "v < y1" for u v
      using that 1 by (intro spr_byte_cong [OF 1(2) _ _ _ _ out]) auto
    have "fb_byte f (put_rows bo f sp x0 y0 x0_v x1 (y + 1) y1 m') u v =
      (if y \<le> v \<and> v < y1 \<and> x0_v \<le> u \<and> u < x1 \<and> uint (spr_byte sp m (u - x0) (v - y0)) \<noteq> spr_trans_color sp
       then spr_byte sp m (u - x0) (v - y0) else fb_byte f m u v)" if uv: "on_screen f (u, v)" for u v
    proof -
      note a = conjunct1 [OF ih, rule_format, OF uv] and b = conjunct1 [OF row, rule_format, OF uv]
      show ?thesis
      proof (cases "y + 1 \<le> v \<and> v < y1 \<and> x0_v \<le> u \<and> u < x1")
        case True
        then show ?thesis using a b sb [of u v] by auto
      next
        case False
        then have "fb_byte f (put_rows bo f sp x0 y0 x0_v x1 (y + 1) y1 m') u v = fb_byte f m' u v" using a by auto
        then show ?thesis using b False \<open>y < y1\<close> by auto
      qed
    qed
    then show ?thesis unfolding r using ih out by auto
  qed
qed

text \<open>C17: spr_put at 8 bits per pixel: a pixel of the screen under the sprite gets the sprite's pixel
  unless that is transparent, every other pixel and every byte outside the framebuffer stays,
  wherever the sprite lies, also partly or wholly off the screen.\<close>
theorem spr_put_draws:
  assumes ok: "spr_ok f sp" and find: "spr_find sid sprs = Some sp"
  shows "\<exists>m'. spr_put bo f sid x0 y0 sprs m = (0, m') \<and>
    (\<forall>u v. on_screen f (u, v) \<longrightarrow> fb_byte f m' u v =
      (if x0 \<le> u \<and> u < x0 + uint (spr_size_x sp) \<and> y0 \<le> v \<and> v < y0 + uint (spr_size_y sp) \<and>
          uint (spr_byte sp m (u - x0) (v - y0)) \<noteq> spr_trans_color sp
       then spr_byte sp m (u - x0) (v - y0) else fb_byte f m u v)) \<and>
    (\<forall>a. outside f a \<longrightarrow> m' a = m a)"
proof -
  define xv x1 yv y1 where "xv = max 0 x0" "x1 = min (W f) (x0 + uint (spr_size_x sp))"
    "yv = max 0 y0" "y1 = min (H f) (y0 + uint (spr_size_y sp))"
  note d = this
  have p: "spr_put bo f sid x0 y0 sprs m = (0, put_rows bo f sp x0 y0 xv x1 yv y1 m)"
  proof -
    have "(if x0 < 0 then 0 else x0) = xv" "(if y0 < 0 then 0 else y0) = yv"
      "(if x0 + uint (spr_size_x sp) > W f then W f else x0 + uint (spr_size_x sp)) = x1"
      "(if y0 + uint (spr_size_y sp) > H f then H f else y0 + uint (spr_size_y sp)) = y1" by (auto simp: d)
    then show ?thesis using find unfolding spr_put_def spr_put_at_def Let_def by simp
  qed
  have b: "0 \<le> xv" "x0 \<le> xv" "x1 \<le> W f" "x1 \<le> x0 + uint (spr_size_x sp)" "0 \<le> yv" "y0 \<le> yv" "y1 \<le> H f" "y1 \<le> y0 + uint (spr_size_y sp)"
    by (auto simp: d)
  note r = put_rows_8 [OF ok b, of bo m]
  have e: "yv \<le> v \<and> v < y1 \<and> xv \<le> u \<and> u < x1 \<longleftrightarrow>
      x0 \<le> u \<and> u < x0 + uint (spr_size_x sp) \<and> y0 \<le> v \<and> v < y0 + uint (spr_size_y sp)" if "on_screen f (u, v)" for u v
    using that by (auto simp: d on_screen_def)
  have "fb_byte f (put_rows bo f sp x0 y0 xv x1 yv y1 m) u v =
      (if x0 \<le> u \<and> u < x0 + uint (spr_size_x sp) \<and> y0 \<le> v \<and> v < y0 + uint (spr_size_y sp) \<and>
          uint (spr_byte sp m (u - x0) (v - y0)) \<noteq> spr_trans_color sp
       then spr_byte sp m (u - x0) (v - y0) else fb_byte f m u v)" if uv: "on_screen f (u, v)" for u v
    unfolding conjunct1 [OF r, rule_format, OF uv] using e [OF uv] by auto
  then show ?thesis unfolding p using r by blast
qed

abbreviation demo_sprite :: sprite where
  "demo_sprite \<equiv> \<lparr>spr_p = 0x80200000, spr_data = 0x80200012, spr_trans_color = 0, spr_id = 7, spr_size_x = 16, spr_size_y = 8\<rparr>"

theorem spr_put_draws_witness:
  "\<exists>m'. spr_put LITTLE_ENDIAN (vga 640 360 4 PLOT_8) 7 (- 3) 350 [demo_sprite] (\<lambda>_. 9) = (0, m') \<and>
     fb_byte (vga 640 360 4 PLOT_8) m' 12 355 = 9"
proof -
  have e: "elem 0x80200012 1 i \<noteq> elem 0x80010000 1 j" if "0 \<le> i" "i < 128" "0 \<le> j" "j < 230400" for i j
  proof
    assume "elem 0x80200012 1 i = elem 0x80010000 1 j"
    then have "elem 0x80010000 1 (0x1f0012 + i) = elem 0x80010000 1 j" by (simp add: elem_def)
    from elem_inj [OF this] that show False by simp
  qed
  have "spr_ok (vga 640 360 4 PLOT_8) demo_sprite" unfolding spr_ok_def using e by simp
  moreover have "spr_find 7 [demo_sprite] = Some demo_sprite" by (simp add: spr_find_def)
  ultimately obtain m' where "spr_put LITTLE_ENDIAN (vga 640 360 4 PLOT_8) 7 (- 3) 350 [demo_sprite] (\<lambda>_. 9) = (0, m')"
    and p: "\<forall>u v. on_screen (vga 640 360 4 PLOT_8) (u, v) \<longrightarrow> fb_byte (vga 640 360 4 PLOT_8) m' u v =
      (if - 3 \<le> u \<and> u < - 3 + uint (spr_size_x demo_sprite) \<and> 350 \<le> v \<and> v < 350 + uint (spr_size_y demo_sprite) \<and>
          uint (spr_byte demo_sprite (\<lambda>_. 9) (u - - 3) (v - 350)) \<noteq> spr_trans_color demo_sprite
       then spr_byte demo_sprite (\<lambda>_. 9) (u - - 3) (v - 350) else fb_byte (vga 640 360 4 PLOT_8) (\<lambda>_. 9) u v)"
    using spr_put_draws [of "vga 640 360 4 PLOT_8" demo_sprite 7 "[demo_sprite]" LITTLE_ENDIAN "- 3" 350 "\<lambda>_. 9"] by blast
  then show ?thesis using p [rule_format, of 12 355] by (auto simp: on_screen_def spr_byte_def fb_byte_def split: if_splits)
qed

definition rgb24 :: "u8 \<Rightarrow> u8 \<Rightarrow> u8 \<Rightarrow> u32" where
  "rgb24 r g b = push_bit 16 (ucast r) OR push_bit 8 (ucast g) OR ucast b"

lemma word32_bits: "(a :: u32) = b \<longleftrightarrow> list_all (\<lambda>n. bit a n = bit b n) [0, 1, 2, 3, 4, 5, 6, 7, 8, 9, 10, 11, 12, 13, 14, 15, 16, 17, 18, 19, 20, 21, 22, 23, 24, 25, 26, 27, 28, 29, 30, 31]"
proof -
  have "[0..<32] = [0, 1, 2, 3, 4, 5, 6, 7, 8, 9, 10, 11, 12, 13, 14, 15, 16, 17, 18, 19, 20, 21, 22, 23, 24, 25, 26, 27, 28, 29, 30, 31]" by code_simp
  moreover have "a = b \<longleftrightarrow> list_all (\<lambda>n. bit a n = bit b n) [0..<32]" by (auto simp: list_all_iff intro: bit_word_eqI)
  ultimately show ?thesis by (simp only:)
qed

lemma word8_bits: "(a :: u8) = b \<longleftrightarrow> list_all (\<lambda>n. bit a n = bit b n) [0, 1, 2, 3, 4, 5, 6, 7]"
proof -
  have "[0..<8] = [0, 1, 2, 3, 4, 5, 6, 7]" by code_simp
  moreover have "a = b \<longleftrightarrow> list_all (\<lambda>n. bit a n = bit b n) [0..<8]" by (auto simp: list_all_iff intro: bit_word_eqI)
  ultimately show ?thesis by (simp only:)
qed

lemma bit_u8_high: "8 \<le> n \<Longrightarrow> \<not> bit (w :: u8) n"
  by (auto dest: bit_imp_le_length)

lemma rgb24_parts:
  "drop_bit 16 (rgb24 r g b) AND 0xff = ucast r" "drop_bit 8 (rgb24 r g b) AND 0xff = ucast g" "rgb24 r g b AND 0xff = ucast b"
  unfolding word32_bits rgb24_def by (simp_all add: bit_simps bit_u8_high)

lemma ucast_8_32: "(ucast (a :: u8) :: u32) = ucast b \<longleftrightarrow> a = b"
proof
  assume "(ucast a :: u32) = ucast b"
  then have e: "bit (ucast a :: u32) n = bit (ucast b :: u32) n" for n by simp
  have "bit a n = bit b n" if "n < 8" for n using e [of n] that by (auto simp: bit_simps)
  then show "a = b" by (intro bit_word_eqI) simp
qed simp

lemma or_low_eq:
  fixes x a b :: u32
  assumes "x AND mask n = 0" "a AND mask n = a" "b AND mask n = b"
  shows "x OR a = x OR b \<longleftrightarrow> a = b"
proof
  assume "x OR a = x OR b"
  then have "(x OR a) AND mask n = (x OR b) AND mask n" by simp
  then show "a = b" using assms by (simp add: bit.conj_disj_distrib2)
qed simp

text \<open>C36: The colours that the image loaders store are not those of the palette.  A PNG pixel gets the
  palette's value exactly when the low bits of its blue component, which the loader takes, equal the high bits that the palette takes;
  a JPEG pixel gets a value without red, so never the palette's when its red component has one of the
  bits that the palette keeps.\<close>
theorem image_colors_differ:
  "(ucast (png_565 r g b) = fb_rgb2pal 16 (rgb24 r g b) \<longleftrightarrow> b AND 0x1f = drop_bit 3 b) \<and>
   (ucast (png_332 r g b) = fb_rgb2pal 8 (rgb24 r g b) \<longleftrightarrow> b AND 0x3 = drop_bit 6 b) \<and>
   \<not> (r AND 0xf8 \<noteq> 0 \<and> jpeg_565 (rgb24 r g b) = fb_rgb2pal 16 (rgb24 r g b)) \<and>
   \<not> (r AND 0xe0 \<noteq> 0 \<and> jpeg_332 (rgb24 r g b) = fb_rgb2pal 8 (rgb24 r g b))"
proof (intro conjI)
  let ?c = "rgb24 r g b"
  let ?x = "push_bit 8 (ucast r AND 0xf8) OR push_bit 3 (ucast g AND 0xfc) :: u32"
  let ?y = "(ucast r AND 0xe0) OR (drop_bit 3 (ucast g) AND 0x1c) :: u32"
  have p16: "fb_rgb2pal 16 ?c = ?x OR ucast (drop_bit 3 b)"
    unfolding fb_rgb2pal_def Let_def rgb24_parts unfolding word32_bits by (simp add: bit_simps bit_u8_high)
  have p8: "fb_rgb2pal 8 ?c = ?y OR ucast (drop_bit 6 b)"
    unfolding fb_rgb2pal_def Let_def rgb24_parts unfolding word32_bits by (simp add: bit_simps bit_u8_high)
  have q16: "ucast (png_565 r g b) = ?x OR ucast (b AND 0x1f)"
    unfolding word32_bits png_565_def by (simp add: bit_simps bit_u8_high)
  have q8: "ucast (png_332 r g b) = ?y OR ucast (b AND 0x3)"
    unfolding word32_bits png_332_def by (simp add: bit_simps bit_u8_high)
  have x: "?x AND mask 5 = 0" "?y AND mask 2 = 0"
    unfolding word32_bits by (simp_all add: bit_simps bit_u8_high)
  have a: "ucast (b AND 0x1f) AND mask 5 = (ucast (b AND 0x1f) :: u32)" "ucast (drop_bit 3 b) AND mask 5 = (ucast (drop_bit 3 b) :: u32)"
    "ucast (b AND 0x3) AND mask 2 = (ucast (b AND 0x3) :: u32)" "ucast (drop_bit 6 b) AND mask 2 = (ucast (drop_bit 6 b) :: u32)"
    unfolding word32_bits by (simp_all add: bit_simps bit_u8_high)
  show "ucast (png_565 r g b) = fb_rgb2pal 16 ?c \<longleftrightarrow> b AND 0x1f = drop_bit 3 b"
    unfolding p16 q16 or_low_eq [OF x(1) a(1,2)] by (rule ucast_8_32)
  show "ucast (png_332 r g b) = fb_rgb2pal 8 ?c \<longleftrightarrow> b AND 0x3 = drop_bit 6 b"
    unfolding p8 q8 or_low_eq [OF x(2) a(3,4)] by (rule ucast_8_32)
  have j: "jpeg_565 ?c AND 0xf800 = 0" "jpeg_332 ?c AND 0xe0 = 0"
    unfolding word32_bits jpeg_565_def jpeg_332_def rgb24_def by (simp_all add: bit_simps bit_u8_high)
  have k: "fb_rgb2pal 16 ?c AND 0xf800 = push_bit 8 (ucast (r AND 0xf8))" "fb_rgb2pal 8 ?c AND 0xe0 = ucast (r AND 0xe0)"
    unfolding p16 p8 word32_bits by (simp_all add: bit_simps bit_u8_high)
  show "\<not> (r AND 0xf8 \<noteq> 0 \<and> jpeg_565 ?c = fb_rgb2pal 16 ?c)"
  proof
    assume "r AND 0xf8 \<noteq> 0 \<and> jpeg_565 ?c = fb_rgb2pal 16 ?c"
    then have n: "r AND 0xf8 \<noteq> 0" and "push_bit 8 (ucast (r AND 0xf8)) = (0 :: u32)" using j(1) k(1) by simp_all
    then have "push_bit 8 (ucast (r AND 0xf8)) = (0 :: u32)" by simp
    then have "r AND 0xf8 = 0" unfolding word32_bits word8_bits by (simp add: bit_simps bit_u8_high)
    then show False using n by simp
  qed
  show "\<not> (r AND 0xe0 \<noteq> 0 \<and> jpeg_332 ?c = fb_rgb2pal 8 ?c)"
    using j(2) k(2) ucast_8_32 [of "r AND 0xe0" 0] by auto
qed

end
