(* ===== verification/Fb_Fill.thy ===== *)
theory Fb_Fill
  imports Fb_Props
begin

text \<open>
  Flood fill, fb_fill of dev/fb.c: it ends, and it only repaints pixels of the colour it started on.
\<close>

section \<open>Flood fill\<close>

text \<open>What the fill relies on: reading and writing pixels of the screen, and coordinates that survive
  the stack of int16_t.\<close>

locale fill_screen =
  fixes rd :: "mem \<Rightarrow> int \<Rightarrow> u32" and wr :: "mem \<Rightarrow> int \<Rightarrow> u32 \<Rightarrow> mem" and f :: fb_state and cur color :: u32 and S :: "addr set" and ok :: bool
  assumes rd_wr: "ok \<Longrightarrow> 0 \<le> i \<Longrightarrow> i < W f * H f \<Longrightarrow> 0 \<le> j \<Longrightarrow> j < W f * H f \<Longrightarrow>
      rd (wr m i color) j = (if j = i then color else rd m j)"
    and wr_out: "ok \<Longrightarrow> 0 \<le> i \<Longrightarrow> i < W f * H f \<Longrightarrow> a \<notin> S \<Longrightarrow> wr m i color a = m a"
    and ne: "ok \<Longrightarrow> color \<noteq> cur" and small: "ok \<Longrightarrow> W f < 2 ^ 15" "ok \<Longrightarrow> H f < 2 ^ 15"
begin

definition repainted :: "mem \<Rightarrow> mem \<Rightarrow> bool" where
  "repainted m m' \<longleftrightarrow> (\<forall>i. 0 \<le> i \<and> i < W f * H f \<longrightarrow> rd m' i = rd m i \<or> rd m i = cur \<and> rd m' i = color) \<and>
     (\<forall>a. a \<notin> S \<longrightarrow> m' a = m a)"

definition left_over :: "mem \<Rightarrow> nat" where
  "left_over m = card {i. 0 \<le> i \<and> i < W f * H f \<and> rd m i = cur}"

definition pending :: "(int \<times> int) list \<Rightarrow> bool" where
  "pending st \<longleftrightarrow> list_all (on_screen f) st"

lemma repainted_refl: "repainted m m"
  by (simp add: repainted_def)

lemma repainted_trans:
  assumes "repainted m m1" "repainted m1 m2" and ok: ok
  shows "repainted m m2"
proof -
  have "rd m2 i = rd m i \<or> rd m i = cur \<and> rd m2 i = color" if "0 \<le> i \<and> i < W f * H f" for i
  proof -
    have "rd m1 i = rd m i \<or> rd m i = cur \<and> rd m1 i = color" "rd m2 i = rd m1 i \<or> rd m1 i = cur \<and> rd m2 i = color"
      using assms that unfolding repainted_def by blast+
    then show ?thesis using ne [OF ok] by metis
  qed
  moreover have "m2 a = m a" if "a \<notin> S" for a using assms that unfolding repainted_def by metis
  ultimately show ?thesis unfolding repainted_def by blast
qed

lemma s16_small: "0 \<le> x \<Longrightarrow> x < 2 ^ 15 \<Longrightarrow> s16 x = x"
  by (simp add: s16_def sint_sbintrunc' signed_take_bit_int_eq_self)

lemma paint:
  assumes i: "0 \<le> i" "i < W f * H f" and c: "rd m i = cur" and ok: ok
  shows "repainted m (wr m i color)" "left_over (wr m i color) < left_over m"
proof -
  show "repainted m (wr m i color)" unfolding repainted_def using wr_out [OF ok i] c by (simp add: rd_wr [OF ok i])
  let ?A = "\<lambda>m. {i. 0 \<le> i \<and> i < W f * H f \<and> rd m i = cur}"
  have "?A (wr m i color) = ?A m - {i}" using ne [OF ok] by (auto simp: rd_wr [OF ok i])
  moreover have "i \<in> ?A m" using i c by simp
  moreover have "finite (?A m)" by (rule finite_subset [of _ "{0..<W f * H f}"]) auto
  ultimately show "left_over (wr m i color) < left_over m" unfolding left_over_def by (simp only: card_Diff1_less)
qed

lemma fill_up_range: "- 1 \<le> y \<Longrightarrow> - 1 \<le> fill_up rd f cur x y m \<and> fill_up rd f cur x y m \<le> y"
proof (induction "nat (y + 1)" arbitrary: y)
  case 0
  then have "y = - 1" by simp
  then show ?case by (simp add: fill_up.simps [of rd f cur x "- 1"])
next
  case (Suc n)
  then have "n = nat (y - 1 + 1)" "- 1 \<le> y - 1" by auto
  from Suc.hyps(1) [OF this] show ?case using Suc.hyps(2) by (simp add: fill_up.simps [of rd f cur x y])
qed

lemma fill_side_push: "fill_side rd' c on inside off m = (b, True) \<Longrightarrow> inside"
  by (auto simp: fill_side_def split: if_splits)

lemma fill_col_ok:
  "ok \<Longrightarrow> 0 \<le> x \<Longrightarrow> x < W f \<Longrightarrow> 0 \<le> y \<Longrightarrow> pending st \<Longrightarrow> fill_col rd wr f cur color x y l r st m = (ab, st', m') \<Longrightarrow>
   pending st' \<and> repainted m m' \<and> ((ab, st', m') = (False, st, m) \<or> left_over m' < left_over m)"
proof (induction "nat (H f - y)" arbitrary: y l r st m)
  case 0
  then show ?case by (simp add: fill_col.simps [of rd wr f cur color x y] repainted_refl)
next
  case (Suc n)
  show ?case
  proof (cases "y < H f \<and> rd m (y * W f + x) = cur")
    case False
    have "fill_col rd wr f cur color x y l r st m = (False, st, m)"
      unfolding fill_col.simps [of rd wr f cur color x y l r st m] if_not_P [OF False] ..
    then show ?thesis using Suc.prems by (simp add: repainted_refl)
  next
    case True
    have i: "0 \<le> y * W f + x" "y * W f + x < W f * H f"
    proof -
      show "0 \<le> y * W f + x" using Suc.prems by simp
      have "(y + 1) * W f \<le> H f * W f" using True by (intro mult_right_mono) auto
      then show "y * W f + x < W f * H f" using Suc.prems by (simp add: algebra_simps)
    qed
    define m1 where "m1 = wr m (y * W f + x) color"
    note p = paint [OF i conjunct2 [OF True] Suc.prems(1), folded m1_def]
    obtain l1 pl where L: "fill_side rd cur l (x > 0) (y * W f + x - 1) m1 = (l1, pl)" by force
    obtain r1 pr where R: "fill_side rd cur r (x < W f - 1) (y * W f + x + 1) m1 = (r1, pr)" by force
    define s1 where "s1 = (if pl then (s16 (x - 1), s16 y) # st else st)"
    define s2 where "s2 = (if pr then (s16 (x + 1), s16 y) # s1 else s1)"
    have y16: "s16 y = y" using Suc.prems True small [OF Suc.prems(1)] by (intro s16_small) auto
    have s1: "pending s1"
    proof (cases pl)
      case pl: True
      then have "0 < x" using fill_side_push [of rd cur l "x > 0" "y * W f + x - 1" m1 l1] L by simp
      then have "s16 (x - 1) = x - 1" using Suc.prems small [OF Suc.prems(1)] by (intro s16_small) auto
      then show ?thesis using pl y16 Suc.prems True \<open>0 < x\<close> by (simp add: s1_def pending_def on_screen_def)
    qed (use Suc.prems in \<open>simp add: s1_def\<close>)
    have s2: "pending s2"
    proof (cases pr)
      case pr: True
      then have "x < W f - 1" using fill_side_push [of rd cur r "x < W f - 1" "y * W f + x + 1" m1 r1] R by simp
      then have "s16 (x + 1) = x + 1" using Suc.prems small [OF Suc.prems(1)] by (intro s16_small) auto
      then show ?thesis using pr y16 Suc.prems True s1 \<open>x < W f - 1\<close> by (simp add: s2_def pending_def on_screen_def)
    qed (use s1 in \<open>simp add: s2_def\<close>)
    have u: "fill_col rd wr f cur color x y l r st m =
        (if pl \<and> length s1 = fill_ssiz then (True, s1, m1)
         else if pr \<and> length s2 = fill_ssiz then (True, s2, m1)
         else fill_col rd wr f cur color x (y + 1) l1 r1 s2 m1)"
      unfolding fill_col.simps [of rd wr f cur color x y l r st m] if_P [OF True] Let_def m1_def [symmetric] L R prod.case
        s1_def [symmetric] s2_def [symmetric] ..
    consider (left) "pl \<and> length s1 = fill_ssiz" | (right) "\<not> (pl \<and> length s1 = fill_ssiz)" "pr \<and> length s2 = fill_ssiz"
      | (more) "\<not> (pl \<and> length s1 = fill_ssiz)" "\<not> (pr \<and> length s2 = fill_ssiz)" by blast
    then show ?thesis
    proof cases
      case left
      then have "(ab, st', m') = (True, s1, m1)" using Suc.prems(6) unfolding u if_P [OF left] by simp
      then show ?thesis using p s1 by simp
    next
      case right
      then have "(ab, st', m') = (True, s2, m1)" using Suc.prems(6) unfolding u if_not_P [OF right(1)] if_P [OF right(2)] by simp
      then show ?thesis using p s2 by simp
    next
      case more
      have c: "fill_col rd wr f cur color x (y + 1) l1 r1 s2 m1 = (ab, st', m')"
        using Suc.prems(6) unfolding u if_not_P [OF more(1)] if_not_P [OF more(2)] .
      have "n = nat (H f - (y + 1))" "0 \<le> y + 1" using Suc.hyps(2) Suc.prems(4) by auto
      from Suc.hyps(1) [OF this(1) Suc.prems(1,2,3) this(2) s2 c]
      have k: "pending st'" "repainted m1 m'" "m' = m1 \<or> left_over m' < left_over m1" by blast+
      have "left_over m' < left_over m" using k(3) p(2) by auto
      then show ?thesis using k(1) repainted_trans [OF p(1) k(2) Suc.prems(1)] by blast
    qed
  qed
qed

lemma fill_loop_ok:
  "ok \<Longrightarrow> pending st \<Longrightarrow> \<exists>m'. fill_loop rd wr f cur color st m = Some m' \<and> repainted m m'"
proof (induction "(left_over m, length st)" arbitrary: m st
    rule: wf_induct_rule [OF wf_lex_prod [OF wf_less_than wf_less_than], case_names less])
  case less
  show ?case
  proof (cases "st = []")
    case True
    then show ?thesis by (simp add: fill_loop.simps [of rd wr f cur color "[]"] repainted_refl)
  next
    case False
    then obtain x y rest where st: "st = (x, y) # rest" by (metis list.exhaust surj_pair)
    have xy: "0 \<le> x" "x < W f" "0 \<le> y" "pending rest" using less.prems by (auto simp: st pending_def on_screen_def)
    let ?y = "fill_up rd f cur x y m + 1"
    have y: "0 \<le> ?y" using fill_up_range [of y x m] xy by simp
    obtain ab st' m1 where c: "fill_col rd wr f cur color x ?y False False rest m = (ab, st', m1)" by (metis prod_cases3)
    note k = fill_col_ok [OF less.prems(1) xy(1,2) y xy(4) c]
    have u: "fill_loop rd wr f cur color st m = (if ab then Some m1 else fill_loop rd wr f cur color st' m1)"
      using c by (simp add: fill_loop.simps [of rd wr f cur color "(x, y) # rest" m] st)
    show ?thesis
    proof (cases ab)
      case True
      then show ?thesis using u k by simp
    next
      case False
      have "((left_over m1, length st'), (left_over m, length st)) \<in> less_than <*lex*> less_than"
        using k False by (auto simp: st)
      from less.hyps [OF this less.prems(1)] k obtain m' where "fill_loop rd wr f cur color st' m1 = Some m'" "repainted m1 m'" by auto
      then show ?thesis using u False k repainted_trans [OF _ _ less.prems(1)] by auto
    qed
  qed
qed

end

lemma offset_cell:
  assumes "0 \<le> i" "i < W f * H f"
  shows "on_screen f (i mod W f, i div W f)" "i div W f * W f + i mod W f = i"
proof -
  have "W f \<noteq> 0"
  proof
    assume "W f = 0"
    then have "W f * H f = 0" by simp
    then show False using assms by linarith
  qed
  then have w: "0 < W f" using uint_ge_0 [of "fb_hdisp f"] by linarith
  have e: "i div W f * W f + i mod W f = i" by simp
  have m: "0 \<le> i mod W f" using w by simp
  have "i div W f < H f"
  proof (rule ccontr)
    assume "\<not> i div W f < H f"
    then have "H f * W f \<le> i div W f * W f" using w by (intro mult_right_mono) auto
    then have "W f * H f \<le> i div W f * W f" by (simp only: mult.commute [of "W f"])
    then show False using e m assms(2) by linarith
  qed
  then show "on_screen f (i mod W f, i div W f)" using w assms(1) by (simp add: on_screen_def pos_imp_zdiv_nonneg_iff)
qed simp

interpretation fill: fill_screen "\<lambda>m i. pixel_off bo fn p i m" "\<lambda>m i c. plotfn_off bo fn p i c m" f cur color
  "region (fb_active f) (fb_span f)"
  "fb_ok f \<and> fn = fb_plotfn_off f \<and> p = fb_active f \<and> color AND mask (fn_bits fn) = color \<and> color \<noteq> cur \<and> W f < 2 ^ 15 \<and> H f < 2 ^ 15"
proof
  fix i j m
  assume ok: "fb_ok f \<and> fn = fb_plotfn_off f \<and> p = fb_active f \<and> color AND mask (fn_bits fn) = color \<and> color \<noteq> cur \<and> W f < 2 ^ 15 \<and> H f < 2 ^ 15"
    and i: "0 \<le> i" "i < W f * H f" and j: "0 \<le> j" "j < W f * H f"
  have c: "color AND mask (fn_bits fn) = color" using ok by blast
  have r: "k < 2 ^ 31 div int (fn_bits fn)" if "0 \<le> k" "k < W f * H f" for k
    using offset_range(2) [of f, OF _ offset_cell(1) [OF that]] ok offset_cell(2) [OF that] by simp
  show "pixel_off bo fn p j (plotfn_off bo fn p i color m) = (if j = i then color else pixel_off bo fn p j m)"
    using fbs.get_put [OF i(1) r [OF i], of bo p color m] fbs.get_put_other [OF i(1) r [OF i] j(1) r [OF j], of bo p color m] c
    by (cases "j = i") auto
next
  fix i a m
  assume ok: "fb_ok f \<and> fn = fb_plotfn_off f \<and> p = fb_active f \<and> color AND mask (fn_bits fn) = color \<and> color \<noteq> cur \<and> W f < 2 ^ 15 \<and> H f < 2 ^ 15"
    and i: "0 \<le> i" "i < W f * H f" and a: "a \<notin> region (fb_active f) (fb_span f)"
  show "plotfn_off bo fn p i color m a = m a"
    using plot_unbounded_span [OF conjunct1 [OF ok] offset_cell(1) [OF i] a, of bo color m] ok
    unfolding plot_unbounded_def offset_cell(2) [OF i] by simp
qed blast+

lemma fill_with_ok:
  assumes ok: "fb_ok f" "color AND colors f = color" "W f < 2 ^ 15" "H f < 2 ^ 15" and xy: "on_screen f (x, y)"
  shows "\<exists>m'. fill_with (\<lambda>m i. pixel_off bo (fb_plotfn_off f) (fb_active f) i m) (\<lambda>m i c. plotfn_off bo (fb_plotfn_off f) (fb_active f) i c m)
      got f x y color m = Some m' \<and>
    (\<forall>q. on_screen f q \<longrightarrow> pixel bo f m' q = pixel bo f m q \<or> pixel bo f m q = pixel bo f m (x, y) \<and> pixel bo f m' q = color) \<and>
    (\<forall>a. a \<notin> region (fb_active f) (fb_span f) \<longrightarrow> m' a = m a)"
proof (cases "pixel bo f m (x, y) = color \<or> \<not> got")
  case True
  then show ?thesis by (intro exI [of _ m]) (auto simp: fill_with_def pixel_def Let_def)
next
  case False
  let ?cur = "pixel bo f m (x, y)"
  have c: "fb_ok f \<and> fb_plotfn_off f = fb_plotfn_off f \<and> fb_active f = fb_active f \<and> color AND colors f = color \<and> color \<noteq> ?cur \<and> W f < 2 ^ 15 \<and> H f < 2 ^ 15"
    using ok False by auto
  have b: "0 \<le> x" "x < 2 ^ 15" "0 \<le> y" "y < 2 ^ 15" using xy ok by (auto simp: on_screen_def)
  have s: "s16 x = x" "s16 y = y"
    using b by (simp_all add: s16_def sint_sbintrunc' signed_take_bit_int_eq_self)
  have p: "fill.pending f [(x, y)]" using xy by (simp add: fill.pending_def)
  obtain m' where m': "fill_loop (\<lambda>m i. pixel_off bo (fb_plotfn_off f) (fb_active f) i m)
      (\<lambda>m i c. plotfn_off bo (fb_plotfn_off f) (fb_active f) i c m) f ?cur color [(x, y)] m = Some m'"
    "fill.repainted bo (fb_plotfn_off f) (fb_active f) f ?cur color m m'"
    using fill.fill_loop_ok [OF c p] by blast
  have "pixel bo f m' q = pixel bo f m q \<or> pixel bo f m q = ?cur \<and> pixel bo f m' q = color" if q: "on_screen f q" for q
  proof -
    obtain u v where uv: "q = (u, v)" by force
    have "0 \<le> v * W f + u" "v * W f + u < W f * H f"
    proof -
      have h: "0 \<le> u" "u < W f" "0 \<le> v" "v + 1 \<le> H f" using q uv by (auto simp: on_screen_def)
      show "0 \<le> v * W f + u" using h by simp
      have "(v + 1) * W f \<le> H f * W f" using h by (intro mult_right_mono) auto
      then show "v * W f + u < W f * H f" using h by (simp add: algebra_simps)
    qed
    then show ?thesis using m'(2) unfolding fill.repainted_def by (simp add: uv pixel_def)
  qed
  moreover have "fill_with (\<lambda>m i. pixel_off bo (fb_plotfn_off f) (fb_active f) i m) (\<lambda>m i c. plotfn_off bo (fb_plotfn_off f) (fb_active f) i c m)
      got f x y color m = Some m'"
    using False m'(1) by (simp add: fill_with_def pixel_def s)
  ultimately show ?thesis using m'(2) unfolding fill.repainted_def by blast
qed



end
