(* ===== verification/Tasks.thy ===== *)
theory Tasks
  imports Malloc_Props
begin

text \<open>
  Tasks and threads, sys/task.c, over the allocator interface.  The structures are kept in lists in the order of the queues, with their
  addresses.
\<close>

section \<open>Tasks and threads\<close>

record thread =
  td_addr :: addr
  td_stackb :: addr

record taskent =
  tk_addr :: addr
  tk_files :: addr
  tk_maxfiles :: nat
  tk_stdin :: addr
  tk_stdout :: addr
  tk_stderr :: addr
  tk_tds :: "thread list"
  tk_parent :: addr
  tk_fds :: "int list"

abbreviation "sizeof_task \<equiv> 48 :: u32"
abbreviation "sizeof_thread \<equiv> 24 :: u32"

fun free_all :: "('h \<Rightarrow> addr \<Rightarrow> 'h exec option) \<Rightarrow> addr list \<Rightarrow> 'h \<Rightarrow> 'h exec option" where
  "free_all rel [] h = Some (Ret h)"
| "free_all rel (p # ps) h = (case rel h p of None \<Rightarrow> None | Some (Exit e) \<Rightarrow> Some (Exit e) | Some (Ret h) \<Rightarrow> free_all rel ps h)"

definition thread_free :: "('h \<Rightarrow> addr \<Rightarrow> 'h exec option) \<Rightarrow> thread \<Rightarrow> 'h \<Rightarrow> 'h exec option" where
  "thread_free rel td h = free_all rel [td_stackb td, td_addr td] h"

definition thread_alloc :: "('h \<Rightarrow> u32 \<Rightarrow> ('h \<times> addr) option) \<Rightarrow> ('h \<Rightarrow> u32 \<Rightarrow> u32 \<Rightarrow> ('h \<times> addr) option) \<Rightarrow>
    ('h \<Rightarrow> addr \<Rightarrow> 'h exec option) \<Rightarrow> taskent \<Rightarrow> u32 \<Rightarrow> 'h \<Rightarrow> ('h \<times> taskent \<times> addr) exec option" where
  "thread_alloc alloc zalloc rel ts stacksiz h =
     (case zalloc h 1 sizeof_thread of None \<Rightarrow> None | Some (h, td) \<Rightarrow>
      (case alloc h stacksiz of None \<Rightarrow> None | Some (h, stack) \<Rightarrow>
       if td = 0 \<or> stack = 0 then
         (case free_all rel [td, stack] h of None \<Rightarrow> None | Some (Exit e) \<Rightarrow> Some (Exit e) | Some (Ret h) \<Rightarrow> Some (Ret (h, ts, 0)))
       else Some (Ret (h, ts\<lparr>tk_tds := \<lparr>td_addr = td, td_stackb = stack\<rparr> # tk_tds ts\<rparr>, td))))"

text \<open>The files and streams, the removal from the list of tasks, and the structure itself.\<close>

definition task_free :: "('h \<Rightarrow> addr \<Rightarrow> 'h exec option) \<Rightarrow> taskent \<Rightarrow> taskent list \<Rightarrow> 'h \<Rightarrow> ('h \<times> taskent list) exec option" where
  "task_free rel ts tasks h =
     (case free_all rel [tk_files ts, tk_stdin ts, tk_stdout ts, tk_stderr ts] h of
        None \<Rightarrow> None | Some (Exit e) \<Rightarrow> Some (Exit e)
      | Some (Ret h) \<Rightarrow>
          (case rel h (tk_addr ts) of None \<Rightarrow> None | Some (Exit e) \<Rightarrow> Some (Exit e)
           | Some (Ret h) \<Rightarrow> Some (Ret (h, filter (\<lambda>t. tk_addr t \<noteq> tk_addr ts) tasks))))"

text \<open>\<open>szf\<close> and \<open>szF\<close> are the sizes of struct file and FILE, \<open>parent\<close> the current task; \<open>tk_fds\<close> are the
  descriptors in the three FILE objects.\<close>

definition task_alloc :: "('h \<Rightarrow> u32 \<Rightarrow> u32 \<Rightarrow> ('h \<times> addr) option) \<Rightarrow> ('h \<Rightarrow> addr \<Rightarrow> 'h exec option) \<Rightarrow> u32 \<Rightarrow> u32 \<Rightarrow> addr \<Rightarrow>
    taskent list \<Rightarrow> 'h \<Rightarrow> ('h \<times> taskent list \<times> addr) exec option" where
  "task_alloc zalloc rel szf szF parent tasks h =
     (case zalloc h 1 sizeof_task of None \<Rightarrow> None | Some (h, ts) \<Rightarrow>
      if ts = 0 then Some (Ret (h, tasks, 0)) else
      (case zalloc h 4 szf of None \<Rightarrow> None | Some (h, files) \<Rightarrow>
      (case zalloc h 1 szF of None \<Rightarrow> None | Some (h, sin) \<Rightarrow>
      (case zalloc h 1 szF of None \<Rightarrow> None | Some (h, sout) \<Rightarrow>
      (case zalloc h 1 szF of None \<Rightarrow> None | Some (h, serr) \<Rightarrow>
       let t = \<lparr>tk_addr = ts, tk_files = files, tk_maxfiles = 4, tk_stdin = sin, tk_stdout = sout, tk_stderr = serr,
                tk_tds = [], tk_parent = 0, tk_fds = [0, 0, 0]\<rparr>;
           tasks = tasks @ [t]
       in if files = 0 \<or> sin = 0 \<or> sout = 0 \<or> serr = 0 then
            (case task_free rel t tasks h of None \<Rightarrow> None | Some (Exit e) \<Rightarrow> Some (Exit e)
             | Some (Ret (h, tasks)) \<Rightarrow> Some (Ret (h, tasks, 0)))
          else Some (Ret (h, butlast tasks @ [t\<lparr>tk_parent := parent, tk_fds := [0, 1, 2]\<rparr>], ts)))))))"

text \<open>Blocks of a task that its creation took.\<close>

definition task_blocks :: "taskent \<Rightarrow> addr set" where
  "task_blocks t = {tk_addr t, tk_files t, tk_stdin t, tk_stdout t, tk_stderr t}"

context heap_allocator
begin

lemma free_all_outcome:
  "invar h \<Longrightarrow> distinct (filter (\<lambda>p. p \<noteq> 0) ps) \<Longrightarrow> (\<And>p. p \<in> set ps \<Longrightarrow> p = 0 \<or> p \<in> live h) \<Longrightarrow>
   \<exists>h'. free_all release ps h = Some (Ret h') \<and> invar h' \<and> static h' = static h \<and> live h' = live h - set ps"
proof (induction ps arbitrary: h)
  case (Cons p ps)
  obtain h1 where 1: "release h p = Some (Ret h1)" "invar h1" "static h1 = static h" "live h1 = live h - {p}"
    using release_outcome [OF Cons.prems(1), of p] Cons.prems(3) [of p] by auto
  have "q = 0 \<or> q \<in> live h1" if "q \<in> set ps" for q
    using Cons.prems(3) [of q] Cons.prems(2) that 1(4) by (auto split: if_splits)
  moreover have "distinct (filter (\<lambda>p. p \<noteq> 0) ps)" using Cons.prems(2) by (auto split: if_splits)
  ultimately obtain h2 where "free_all release ps h1 = Some (Ret h2)" "invar h2" "static h2 = static h1" "live h2 = live h1 - set ps"
    using Cons.IH [OF 1(2)] by auto
  then show ?case using 1 by (intro exI [of _ h2]) auto
qed simp

lemma thread_alloc_outcome:
  assumes i: "invar h" and s: "unat stacksiz \<le> 2 ^ 32 - 4"
  shows "\<exists>h' ts' td. thread_alloc alloc zalloc release ts stacksiz h = Some (Ret (h', ts', td)) \<and> invar h' \<and>
    (if td = 0 then live h' = live h \<and> ts' = ts
     else \<exists>stack. live h' = live h \<union> {td, stack} \<and> td \<noteq> stack \<and> {td, stack} \<inter> live h = {} \<and>
       ts' = ts\<lparr>tk_tds := \<lparr>td_addr = td, td_stackb = stack\<rparr> # tk_tds ts\<rparr> \<and>
       (\<exists>h''. thread_free release \<lparr>td_addr = td, td_stackb = stack\<rparr> h' = Some (Ret h'') \<and> invar h'' \<and> live h'' = live h))"
proof -
  have "unat (1 * sizeof_thread) \<le> 2 ^ 32 - 4" by simp
  from zalloc_outcome [OF i this] obtain h1 td where 1: "zalloc h 1 sizeof_thread = Some (h1, td)" "invar h1"
    "if td = 0 then live h1 = live h else td \<notin> live h \<and> td \<notin> static h \<and> live h1 = insert td (live h)" by metis
  from alloc_cases [OF 1(2) s] obtain h2 stack where 2: "alloc h1 stacksiz = Some (h2, stack)" "invar h2"
    "if stack = 0 then live h2 = live h1 else stack \<notin> live h1 \<and> stack \<notin> static h1 \<and> live h2 = insert stack (live h1)" by metis
  note n = null_not_live [OF i] null_not_live [OF 1(2)] null_not_live [OF 2(2)]
  have d: "distinct (filter (\<lambda>p. p \<noteq> 0) [td, stack])" "distinct (filter (\<lambda>p. p \<noteq> 0) [stack, td])"
    "\<And>p. p \<in> {td, stack} \<Longrightarrow> p = 0 \<or> p \<in> live h2"
    using 1(3) 2(3) by (auto split: if_splits)
  show ?thesis
  proof (cases "td = 0 \<or> stack = 0")
    case True
    obtain h3 where "free_all release [td, stack] h2 = Some (Ret h3)" "invar h3" "live h3 = live h2 - {td, stack}"
      using free_all_outcome [OF 2(2) d(1)] d(3) by auto
    moreover have "live h2 - {td, stack} = live h" using True 1(3) 2(3) n by (auto split: if_splits)
    ultimately show ?thesis using True 1(1) 2(1) by (simp add: thread_alloc_def)
  next
    case False
    obtain h3 where "free_all release [stack, td] h2 = Some (Ret h3)" "invar h3" "live h3 = live h2 - {stack, td}"
      using free_all_outcome [OF 2(2) d(2)] d(3) by auto
    moreover have "live h2 - {stack, td} = live h" using False 1(3) 2(3) by auto
    ultimately have "\<exists>h''. thread_free release \<lparr>td_addr = td, td_stackb = stack\<rparr> h2 = Some (Ret h'') \<and> invar h'' \<and> live h'' = live h"
      by (auto simp: thread_free_def)
    moreover have td: "td \<noteq> 0" and lv: "live h2 = live h \<union> {td, stack} \<and> td \<noteq> stack \<and> {td, stack} \<inter> live h = {}"
      using False 1(3) 2(3) by auto
    ultimately have ex: "\<exists>stack'. live h2 = live h \<union> {td, stack'} \<and> td \<noteq> stack' \<and> {td, stack'} \<inter> live h = {} \<and>
       ts\<lparr>tk_tds := \<lparr>td_addr = td, td_stackb = stack\<rparr> # tk_tds ts\<rparr> = ts\<lparr>tk_tds := \<lparr>td_addr = td, td_stackb = stack'\<rparr> # tk_tds ts\<rparr> \<and>
       (\<exists>h''. thread_free release \<lparr>td_addr = td, td_stackb = stack'\<rparr> h2 = Some (Ret h'') \<and> invar h'' \<and> live h'' = live h)"
      by (intro exI [of _ stack] conjI refl) simp_all
    have eq: "thread_alloc alloc zalloc release ts stacksiz h =
        Some (Ret (h2, ts\<lparr>tk_tds := \<lparr>td_addr = td, td_stackb = stack\<rparr> # tk_tds ts\<rparr>, td))"
      using False 1(1) 2(1) by (simp add: thread_alloc_def)
    show ?thesis
      by (rule exI [of _ h2], rule exI [of _ "ts\<lparr>tk_tds := \<lparr>td_addr = td, td_stackb = stack\<rparr> # tk_tds ts\<rparr>"], rule exI [of _ td])
        (simp only: eq 2(2) if_not_P [OF td] ex simp_thms)
  qed
qed

lemma task_free_outcome:
  assumes i: "invar h" and p: "\<And>p. p \<in> task_blocks t \<Longrightarrow> p = 0 \<or> p \<in> live h"
    and d: "distinct (filter (\<lambda>p. p \<noteq> 0) [tk_files t, tk_stdin t, tk_stdout t, tk_stderr t, tk_addr t])"
  shows "\<exists>h'. task_free release t tasks h = Some (Ret (h', filter (\<lambda>u. tk_addr u \<noteq> tk_addr t) tasks)) \<and> invar h' \<and>
    live h' = live h - task_blocks t"
proof -
  let ?ps = "[tk_files t, tk_stdin t, tk_stdout t, tk_stderr t]"
  have "distinct (filter (\<lambda>p. p \<noteq> 0) ?ps)" using d by (auto split: if_splits)
  then obtain h1 where 1: "free_all release ?ps h = Some (Ret h1)" "invar h1" "live h1 = live h - set ?ps"
    using free_all_outcome [OF i, of ?ps] p by (auto simp: task_blocks_def)
  have "tk_addr t = 0 \<or> tk_addr t \<in> live h" using p [of "tk_addr t"] by (simp add: task_blocks_def)
  moreover have "tk_addr t = 0 \<or> tk_addr t \<notin> set ?ps" using d by (auto split: if_splits)
  ultimately have "tk_addr t = 0 \<or> tk_addr t \<in> live h1" unfolding 1(3) by blast
  then obtain h2 where 2: "release h1 (tk_addr t) = Some (Ret h2)" "invar h2" "live h2 = live h1 - {tk_addr t}"
    using release_outcome [OF 1(2)] by metis
  have "live h2 = live h - task_blocks t" using 1(3) 2(3) by (auto simp: task_blocks_def)
  then show ?thesis using 1 2 by (simp add: task_free_def)
qed

lemma task_alloc_outcome:
  assumes i: "invar h" and sz: "unat (4 * szf) \<le> 2 ^ 32 - 4" "unat szF \<le> 2 ^ 32 - 4"
    and fresh: "\<And>t. t \<in> set tasks \<Longrightarrow> tk_addr t \<in> live h \<union> static h"
  shows "\<exists>h' tasks' ts. task_alloc zalloc release szf szF parent tasks h = Some (Ret (h', tasks', ts)) \<and> invar h' \<and>
    (if ts = 0 then live h' = live h \<and> tasks' = tasks
     else \<exists>t. tasks' = tasks @ [t] \<and> tk_addr t = ts \<and> tk_parent t = parent \<and> live h' = live h \<union> task_blocks t \<and>
       task_blocks t \<inter> live h = {} \<and> card (task_blocks t) = 5)"
proof -
  have "unat (1 * sizeof_task) \<le> 2 ^ 32 - 4" by simp
  from zalloc_outcome [OF i this] obtain h1 ts where 1: "zalloc h 1 sizeof_task = Some (h1, ts)" "invar h1" "static h1 = static h"
    "if ts = 0 then live h1 = live h else ts \<notin> live h \<and> ts \<notin> static h \<and> live h1 = insert ts (live h)" by metis
  show ?thesis
  proof (cases "ts = 0")
    case True
    then show ?thesis using 1 by (intro exI [of _ h1] exI [of _ tasks] exI [of _ 0]) (simp add: task_alloc_def)
  next
    case False
    then have ts: "ts \<notin> live h" "ts \<notin> static h" "live h1 = insert ts (live h)" using 1(4) by auto
    have F: "unat (1 * szF) \<le> 2 ^ 32 - 4" using sz(2) by simp
    from zalloc_outcome [OF 1(2) sz(1)] obtain h2 a where 2: "zalloc h1 4 szf = Some (h2, a)" "invar h2"
      "if a = 0 then live h2 = live h1 else a \<notin> live h1 \<and> a \<notin> static h1 \<and> live h2 = insert a (live h1)" by metis
    from zalloc_outcome [OF 2(2) F] obtain h3 b where 3: "zalloc h2 1 szF = Some (h3, b)" "invar h3"
      "if b = 0 then live h3 = live h2 else b \<notin> live h2 \<and> b \<notin> static h2 \<and> live h3 = insert b (live h2)" by metis
    from zalloc_outcome [OF 3(2) F] obtain h4 c where 4: "zalloc h3 1 szF = Some (h4, c)" "invar h4"
      "if c = 0 then live h4 = live h3 else c \<notin> live h3 \<and> c \<notin> static h3 \<and> live h4 = insert c (live h3)" by metis
    from zalloc_outcome [OF 4(2) F] obtain h5 d where 5: "zalloc h4 1 szF = Some (h5, d)" "invar h5"
      "if d = 0 then live h5 = live h4 else d \<notin> live h4 \<and> d \<notin> static h4 \<and> live h5 = insert d (live h4)" by metis
    let ?t = "\<lparr>tk_addr = ts, tk_files = a, tk_maxfiles = 4, tk_stdin = b, tk_stdout = c, tk_stderr = d, tk_tds = [], tk_parent = 0, tk_fds = [0, 0, 0]\<rparr>"
    have n0: "0 \<notin> live h" by (rule null_not_live [OF i])
    have lv: "live h5 - {0} = live h \<union> ({ts, a, b, c, d} - {0})" and n5: "0 \<notin> live h5"
      using ts(3) 2(3) 3(3) 4(3) 5(3) n0 null_not_live [OF 5(2)] by (auto split: if_splits)
    have dj: "({ts, a, b, c, d} - {0}) \<inter> live h = {}" using ts 2(3) 3(3) 4(3) 5(3) by (auto split: if_splits)
    have ds: "distinct (filter (\<lambda>p. p \<noteq> 0) [a, b, c, d, ts])" using ts 2(3) 3(3) 4(3) 5(3) False by (auto split: if_splits)
    show ?thesis
    proof (cases "a = 0 \<or> b = 0 \<or> c = 0 \<or> d = 0")
      case True
      have bl: "p = 0 \<or> p \<in> live h5" if "p \<in> task_blocks ?t" for p using that lv by (auto simp: task_blocks_def)
      have dt: "distinct (filter (\<lambda>p. p \<noteq> 0) [tk_files ?t, tk_stdin ?t, tk_stdout ?t, tk_stderr ?t, tk_addr ?t])"
        using ds by (simp only: taskent.simps)
      obtain h6 where "task_free release ?t (tasks @ [?t]) h5 =
          Some (Ret (h6, filter (\<lambda>u. tk_addr u \<noteq> tk_addr ?t) (tasks @ [?t])))" "invar h6" "live h6 = live h5 - task_blocks ?t"
        using task_free_outcome [OF 5(2) bl dt] by blast
      then have 6: "task_free release ?t (tasks @ [?t]) h5 = Some (Ret (h6, filter (\<lambda>u. tk_addr u \<noteq> ts) (tasks @ [?t])))"
        "invar h6" "live h6 = live h5 - task_blocks ?t" by (simp_all only: taskent.simps)
      have "filter (\<lambda>u. tk_addr u \<noteq> ts) (tasks @ [?t]) = tasks" using fresh ts by (auto simp: filter_id_conv)
      moreover have "live h6 = live h" using 6(3) lv dj n5 n0 by (auto simp: task_blocks_def)
      moreover have "task_alloc zalloc release szf szF parent tasks h = Some (Ret (h6, filter (\<lambda>u. tk_addr u \<noteq> ts) (tasks @ [?t]), 0))"
        using False True 1(1) 2(1) 3(1) 4(1) 5(1) 6(1) by (simp add: task_alloc_def Let_def)
      ultimately show ?thesis using 6(2) by (intro exI [of _ h6] exI [of _ tasks] exI [of _ 0]) simp
    next
      case ok: False
      let ?u = "\<lparr>tk_addr = ts, tk_files = a, tk_maxfiles = 4, tk_stdin = b, tk_stdout = c, tk_stderr = d, tk_tds = [], tk_parent = parent, tk_fds = [0, 1, 2]\<rparr>"
      have e: "task_alloc zalloc release szf szF parent tasks h = Some (Ret (h5, tasks @ [?u], ts))"
        using False ok 1(1) 2(1) 3(1) 4(1) 5(1) by (simp add: task_alloc_def Let_def)
      have b: "task_blocks ?u = {ts, a, b, c, d}" by (auto simp: task_blocks_def)
      have nz: "{ts, a, b, c, d} - {0} = {ts, a, b, c, d}" using ok False by auto
      have cd: "card {ts, a, b, c, d} = 5" using ds ok False by (auto simp: card_insert_if)
      have l5: "live h5 = live h \<union> {ts, a, b, c, d}" using lv n5 unfolding nz by simp
      have "\<exists>t. tasks @ [?u] = tasks @ [t] \<and> tk_addr t = ts \<and> tk_parent t = parent \<and> live h5 = live h \<union> task_blocks t \<and>
          task_blocks t \<inter> live h = {} \<and> card (task_blocks t) = 5"
        by (rule exI [of _ ?u]) (simp only: b l5 dj [unfolded nz] cd taskent.simps simp_thms)
      then show ?thesis using e 5(2) False by (intro exI [of _ h5] exI [of _ "tasks @ [?u]"] exI [of _ ts]) (simp only: if_False simp_thms)
    qed
  qed
qed

end

section \<open>Over malloc\<close>

text \<open>C18: task_alloc leaks nothing: when one of its five allocations fails it gives every block back and
  the list of tasks is as before; when it succeeds the task owns five new blocks and is the last
  of the list.\<close>
theorem task_alloc_leaks_nothing:
  assumes "malloc_invar bo h" "unat (4 * szf) \<le> 2 ^ 32 - 4" "unat szF \<le> 2 ^ 32 - 4"
    and "\<And>t. t \<in> set tasks \<Longrightarrow> tk_addr t \<in> malloc_live bo h \<union> below_heap h"
  shows "\<exists>h' tasks' ts. task_alloc (calloc bo bd e) (free bo) szf szF parent tasks h = Some (Ret (h', tasks', ts)) \<and> malloc_invar bo h' \<and>
    (if ts = 0 then malloc_live bo h' = malloc_live bo h \<and> tasks' = tasks
     else \<exists>t. tasks' = tasks @ [t] \<and> tk_addr t = ts \<and> tk_parent t = parent \<and>
       malloc_live bo h' = malloc_live bo h \<union> task_blocks t \<and> task_blocks t \<inter> malloc_live bo h = {} \<and> card (task_blocks t) = 5)"
  by (rule hl.task_alloc_outcome [OF assms])

theorem task_alloc_leaks_nothing_witness:
  "\<exists>h' tasks' ts. task_alloc (calloc LITTLE_ENDIAN demo_board 64) (free LITTLE_ENDIAN) 8 4 0x40 [] demo_heap = Some (Ret (h', tasks', ts)) \<and>
     malloc_invar LITTLE_ENDIAN h' \<and> (ts = 0 \<longrightarrow> malloc_live LITTLE_ENDIAN h' = malloc_live LITTLE_ENDIAN demo_heap)"
proof -
  have "malloc_invar LITTLE_ENDIAN demo_heap" using demo_heap_ok(1) by (auto simp: malloc_invar_def)
  from task_alloc_leaks_nothing [OF this, of 8 4 "[]" demo_board 64 "0x40"] show ?thesis by (auto split: if_splits)
qed

text \<open>thread_alloc in the same way; thread_free gives back what it took.\<close>

lemma thread_alloc_leaks_nothing:
  assumes "malloc_invar bo h" "unat stacksiz \<le> 2 ^ 32 - 4"
  shows "\<exists>h' ts' td. thread_alloc (malloc bo bd e) (calloc bo bd e) (free bo) ts stacksiz h = Some (Ret (h', ts', td)) \<and> malloc_invar bo h' \<and>
    (if td = 0 then malloc_live bo h' = malloc_live bo h \<and> ts' = ts
     else \<exists>stack. malloc_live bo h' = malloc_live bo h \<union> {td, stack} \<and> td \<noteq> stack \<and> {td, stack} \<inter> malloc_live bo h = {} \<and>
       ts' = ts\<lparr>tk_tds := \<lparr>td_addr = td, td_stackb = stack\<rparr> # tk_tds ts\<rparr> \<and>
       (\<exists>h''. thread_free (free bo) \<lparr>td_addr = td, td_stackb = stack\<rparr> h' = Some (Ret h'') \<and> malloc_invar bo h'' \<and>
          malloc_live bo h'' = malloc_live bo h))"
  by (rule hl.thread_alloc_outcome [OF assms])

end
