(* ===== verification/Isr.thy ===== *)
theory Isr
  imports Prelude
begin

text \<open>
  The registry of interrupt handlers, gen/isr.c.  A handler is a function on the state of the
  machine; enabling and disabling an interrupt and the message about a stray one are parameters.
  Handlers do not change the registry while it is walked.
\<close>

record 's isr_link =
  isr_key :: nat
  handler_fn :: "'s \<Rightarrow> int \<times> 's"

fun isr_foreach :: "'s isr_link list \<Rightarrow> int \<Rightarrow> 's \<Rightarrow> int \<times> 's" where
  "isr_foreach [] serviced s = (serviced, s)"
| "isr_foreach (l # ls) serviced s = (let (r, s) = handler_fn l s in isr_foreach ls (s32 (serviced + r)) s)"

definition isr_irq :: "(nat \<Rightarrow> 's isr_link list) \<Rightarrow> (nat \<Rightarrow> 's \<Rightarrow> 's) \<Rightarrow> (nat \<Rightarrow> 's \<Rightarrow> 's) \<Rightarrow> nat \<Rightarrow> 's \<Rightarrow> 's" where
  "isr_irq reg stray disable_irq irq s =
     (let (serviced, s) = isr_foreach (reg irq) 0 s in if serviced = 0 then disable_irq irq (stray irq s) else s)"

text \<open>\<open>None\<close>: a bit beyond the eight lists, or a negative argument, whose shift never ends.\<close>

partial_function (option) isr_loop :: "(nat \<Rightarrow> 's isr_link list) \<Rightarrow> (nat \<Rightarrow> 's \<Rightarrow> 's) \<Rightarrow> (nat \<Rightarrow> 's \<Rightarrow> 's) \<Rightarrow> int \<Rightarrow> nat \<Rightarrow> 's \<Rightarrow> 's option" where
  "isr_loop reg stray disable_irq irqs irq s =
     (if irqs = 0 then Some s
      else if irqs AND 1 = 0 then isr_loop reg stray disable_irq (drop_bit 1 irqs) (Suc irq) s
      else if irq \<ge> 8 then None
      else isr_loop reg stray disable_irq (drop_bit 1 irqs) (Suc irq) (isr_irq reg stray disable_irq irq s))"

definition isr_dispatch :: "(nat \<Rightarrow> 's isr_link list) \<Rightarrow> (nat \<Rightarrow> 's \<Rightarrow> 's) \<Rightarrow> (nat \<Rightarrow> 's \<Rightarrow> 's) \<Rightarrow> int \<Rightarrow> 's \<Rightarrow> 's option" where
  "isr_dispatch reg stray disable_irq filtered_irqs s = isr_loop reg stray disable_irq filtered_irqs 0 s"

definition isr_register_handler :: "(nat \<Rightarrow> 's \<Rightarrow> 's) \<Rightarrow> nat \<Rightarrow> 's isr_link \<Rightarrow> (nat \<Rightarrow> 's isr_link list) \<Rightarrow> 's \<Rightarrow>
    (nat \<Rightarrow> 's isr_link list) \<times> 's" where
  "isr_register_handler enable_irq irq l reg s = (reg(irq := l # reg irq), enable_irq irq s)"

fun isr_unlink :: "nat \<Rightarrow> 's isr_link list \<Rightarrow> 's isr_link list option" where
  "isr_unlink k [] = None"
| "isr_unlink k (l # ls) = (if isr_key l = k then Some ls else map_option ((#) l) (isr_unlink k ls))"

text \<open>Removing a handler that is not registered follows a null pointer.\<close>

definition isr_remove_handler :: "(nat \<Rightarrow> 's \<Rightarrow> 's) \<Rightarrow> nat \<Rightarrow> 's isr_link \<Rightarrow> (nat \<Rightarrow> 's isr_link list) \<Rightarrow> 's \<Rightarrow>
    ((nat \<Rightarrow> 's isr_link list) \<times> 's) option" where
  "isr_remove_handler disable_irq irq l reg s = (case isr_unlink (isr_key l) (reg irq) of None \<Rightarrow> None
     | Some ls \<Rightarrow> Some (reg(irq := ls), if ls = [] then disable_irq irq s else s))"

lemma isr_loop_step:
  assumes "k < 8"
  shows "isr_loop reg stray dis q k s =
    (if q = 0 then Some s else isr_loop reg stray dis (drop_bit 1 q) (Suc k) (if odd q then isr_irq reg stray dis k s else s))"
  using assms by (simp add: isr_loop.simps [of reg stray dis q k s] and_one_eq odd_iff_mod_2_eq_one even_iff_mod_2_eq_zero)

lemma isr_loop_irqs:
  "n + k = 8 \<Longrightarrow> 0 \<le> q \<Longrightarrow> q < 2 ^ n \<Longrightarrow>
   isr_loop reg stray dis q k s = Some (fold (isr_irq reg stray dis) (filter (\<lambda>i. bit q (i - k)) [k..<8]) s)"
proof (induction n arbitrary: k q s)
  case 0
  then have "q = 0" "k = 8" by simp_all
  then show ?case by (simp add: isr_loop.simps [of reg stray dis 0])
next
  case (Suc n)
  have k: "k < 8" "[k..<8] = k # [Suc k..<8]" using Suc.prems(1) by (simp_all add: upt_conv_Cons)
  have q: "0 \<le> drop_bit 1 q" "drop_bit 1 q < 2 ^ n" using Suc.prems(2,3) by (simp_all add: drop_bit_eq_div)
  have f: "filter (\<lambda>i. bit q (i - k)) [Suc k..<8] = filter (\<lambda>i. bit (drop_bit 1 q) (i - Suc k)) [Suc k..<8]"
    by (rule filter_cong) (auto simp: bit_drop_bit_eq simp flip: Suc_diff_Suc)
  have ih: "isr_loop reg stray dis (drop_bit 1 q) (Suc k) t =
      Some (fold (isr_irq reg stray dis) (filter (\<lambda>i. bit q (i - k)) [Suc k..<8]) t)" for t
    unfolding f using Suc.IH [of "Suc k" "drop_bit 1 q" t] Suc.prems(1) q by simp
  show ?case
  proof (cases "q = 0")
    case True
    then show ?thesis by (simp add: isr_loop_step [OF k(1)])
  next
    case False
    then show ?thesis unfolding isr_loop_step [OF k(1)] if_not_P [OF False] ih k(2) by (simp add: bit_0)
  qed
qed

text \<open>The state after all handlers of an interrupt, and whether one of them, called in the state that
  the ones before it leave, answers that it served the interrupt.\<close>

definition run_handlers :: "'s isr_link list \<Rightarrow> 's \<Rightarrow> 's" where
  "run_handlers ls s = fold (\<lambda>l. snd \<circ> handler_fn l) ls s"

definition claims :: "'s isr_link list \<Rightarrow> 's \<Rightarrow> bool" where
  "claims ls s \<longleftrightarrow> (\<exists>i<length ls. fst (handler_fn (ls ! i) (run_handlers (take i ls) s)) \<noteq> 0)"

lemma claims_simps [simp]:
  "\<not> claims [] s" "claims (l # ls) s \<longleftrightarrow> fst (handler_fn l s) \<noteq> 0 \<or> claims ls (snd (handler_fn l s))"
proof -
  show "claims (l # ls) s \<longleftrightarrow> fst (handler_fn l s) \<noteq> 0 \<or> claims ls (snd (handler_fn l s))"
    unfolding claims_def length_Cons Ex_less_Suc2 by (simp add: run_handlers_def)
qed (simp add: claims_def)

lemma isr_foreach_claims:
  "\<forall>l\<in>set ls. \<forall>s. fst (handler_fn l s) \<in> {0, 1} \<Longrightarrow> 0 \<le> n \<Longrightarrow> n + int (length ls) < 2 ^ 31 \<Longrightarrow>
   \<exists>r. isr_foreach ls n s = (r, run_handlers ls s) \<and> n \<le> r \<and> (r = n \<longleftrightarrow> \<not> claims ls s)"
proof (induction ls arbitrary: n s)
  case (Cons l ls)
  obtain r t where h: "handler_fn l s = (r, t)" by fastforce
  then have r: "r = 0 \<or> r = 1" using Cons.prems(1) by (metis fst_conv insertE list.set_intros(1) singletonD)
  then have n: "s32 (n + r) = n + r" "0 \<le> n + r" "n + r + int (length ls) < 2 ^ 31"
    using Cons.prems(2,3) by (auto intro: s32_id)
  obtain r' where "isr_foreach ls (n + r) t = (r', run_handlers ls t)" "n + r \<le> r'" "r' = n + r \<longleftrightarrow> \<not> claims ls t"
    using Cons.IH [OF _ n(2,3)] Cons.prems(1) by (metis list.set_intros(2))
  then show ?case using r n(1) by (auto simp: h run_handlers_def)
qed (simp add: run_handlers_def)

text \<open>C19: isr_dispatch returns for every set of the eight interrupts, and serves exactly the pending
  ones, from the lowest to the highest.  All handlers of an interrupt run, newest first; when one of
  them answers 1 that is all, and when all of them answer 0, or there is none, the interrupt is
  reported as stray and disabled.  Handlers answer 0 or 1, and fewer than 2^31 are registered.\<close>
theorem isr_dispatch_serves:
  assumes "0 \<le> irqs" "irqs < 2 ^ 8"
    and "\<And>irq l s. l \<in> set (reg irq) \<Longrightarrow> fst (handler_fn l s) \<in> {0, 1}"
    and "\<And>irq. length (reg irq) < 2 ^ 31"
  shows "isr_dispatch reg stray disable_irq irqs s =
    Some (fold (\<lambda>irq s. let s' = run_handlers (reg irq) s
                        in if claims (reg irq) s then s' else disable_irq irq (stray irq s'))
      (filter (bit irqs) [0..<8]) s)"
proof -
  have "isr_irq reg stray disable_irq = (\<lambda>irq s. let s' = run_handlers (reg irq) s
      in if claims (reg irq) s then s' else disable_irq irq (stray irq s'))"
  proof (intro ext)
    fix irq s
    have "int (length (reg irq)) < 2 ^ 31" using assms(4) [of irq] by simp
    then obtain r where "isr_foreach (reg irq) 0 s = (r, run_handlers (reg irq) s)" "r = 0 \<longleftrightarrow> \<not> claims (reg irq) s"
      using isr_foreach_claims [of "reg irq" 0 s] assms(3) by auto
    then show "isr_irq reg stray disable_irq irq s = (let s' = run_handlers (reg irq) s
        in if claims (reg irq) s then s' else disable_irq irq (stray irq s'))"
      by (simp add: isr_irq_def Let_def)
  qed
  then show ?thesis
    using isr_loop_irqs [of 8 0 irqs reg stray disable_irq s] assms(1,2) by (simp add: isr_dispatch_def)
qed

theorem isr_dispatch_serves_witness:
  "isr_dispatch (\<lambda>irq. if irq = 2 then [\<lparr>isr_key = 0, handler_fn = \<lambda>s. (1, s @ [10])\<rparr>] else []) (\<lambda>i s. s @ [i]) (\<lambda>i s. s @ [20 + i])
     5 ([] :: nat list) = Some [0, 20, 10]"
proof -
  have "filter (bit (5 :: int)) [0..<8] = [0, 2]" by (simp add: upt_rec)
  then show ?thesis
    by (subst isr_dispatch_serves) (simp_all add: run_handlers_def split: if_splits)
qed

lemma register_remove:
  "isr_remove_handler dis irq l (fst (isr_register_handler en irq l reg s)) t =
     Some (reg, if reg irq = [] then dis irq t else t)"
  by (auto simp: isr_remove_handler_def isr_register_handler_def)

end
