(* ===== verification/Spec2Isabelle.thy ===== *)
theory Spec2Isabelle
  imports Gen_Arith Qsort Disk_Props Fat_Glue Srec Sprite Fb_Fill Tasks Isr
begin

text \<open>
  Verification of the run-time library of the f32c soft processor, src/src/lib
  (the C library, the devices and the file layer that every f32c program is
  linked with), and of its serial boot loaders, src/src/boot.

  \<^bold>\<open>The program.\<close>  The library has no operating system below it.  Its parts are the
  integer helpers the compiler calls, the string and memory functions, the
  allocator, number conversion and formatted output, calendar time, a
  descriptor layer with pipes, the serial port with its terminal processing,
  and a FAT file system over RAM, FRAM, flash and SD card disks, the last three
  behind an SPI controller, and a framebuffer with sprites.  The boot loaders
  bring a program into memory over the serial port.  The descriptor layer calls the drivers through
  tables of operations; everything that outlives a call comes from the
  allocator.

  \<^bold>\<open>Theories and sources\<close> (paths under src/src/lib/src).
  \<^item> Prelude: word arithmetic read as arithmetic on numbers, shared by all theories.
  \<^item> Gen_Arith: gen/div.c, gen/div64.c, gen/mul.c, gen/ctz.c and relatives, stdlib/random.c.
    Division and multiplication agree with the operations on words, signed
    division truncates, counting zeros is exact.
  \<^item> Memory: memory as a function from 32-bit addresses to bytes, words in both byte orders.
  \<^item> Strings: string/*.c and the inline functions of include/string.h, the word-wise routines included;
    each is equal to its byte-wise reference or characterised on C strings.
  \<^item> Alloc_Spec: the interfaces \<open>allocator\<close>, \<open>zero_allocator\<close> and \<open>heap_allocator\<close> that clients rely on.
  \<^item> Malloc, Malloc_Props: stdlib/malloc.c.  The heap is a chain of blocks; malloc is best fit,
    free merges forward, realloc keeps contents, malloc_init sizes the memory,
    and malloc, calloc and free are interpretations of the three interfaces.
  \<^item> Fifo: bounded queues as a locale; Pipe (sys/pipe.c) and Sio (dev/sio.c, sys/tty.c)
    interpret it with their ring buffers.
  \<^item> Qsort: stdlib/qsort.c on arrays; a sorted permutation for every total preorder.
  \<^item> Convert: strtol and relatives, atoi, strerror, perror.
  \<^item> Printf: stdio/printf.c and sprintf.c; decimal output is inverted by strtol, snprintf never
    writes past its limit.
  \<^item> Time, Time_Text: stdtime/*.c; timegm inverts gmtime, the text of asctime fits its buffers,
    the clock counts microseconds.
  \<^item> Files, File_Props: sys/file.c, pipe(), sio_open, the file operations of fs/ff_glue.c,
    gen/termios.c, gen/isatty.c, sys/signal.c.  \<open>kern\<close> holds the descriptor table and
    every structure behind a pointer, \<open>sys_env\<close> the operations below it.  The locale
    \<open>file_kernel\<close> proves open and close over \<open>heap_allocator\<close>, and its interpretation
    puts them on malloc.c: reference counts are exact, and open and close leave the allocated
    blocks as they were, the descriptor table apart.
  \<^item> Spi: dev/spi.c.  \<open>spi_ctl\<close> states what a working controller does.
  \<^item> Diskio, Disks, Disk_Props: fs/diskio*.c.  The RAM disk gives back what is written to it, the
    FRAM driver's transfers are the transactions its commands describe.
  \<^item> Fat_Glue: the rest of fs/ff_glue.c; a time stamp decodes to the time it was made from.
  \<^item> Fb, Fb_Props, Fb_Fill: dev/fb.c.  The locale \<open>pixel_store\<close> is an array of pixels; its interpretation covers
    the six pixel formats.  Lines and circles with coordinates up to 2^28 are drawn within half a
    pixel and never leave the buffer, the unrolled loops of fb_rectangle fill exactly the
    clipped rectangle in the formats of whole bytes (the packed formats are
    modelled without a theorem), and two defects are stated as theorems.  The locale
    \<open>fill_screen\<close> shows that flood fill ends and what it repaints.
  \<^item> Sprite: dev/sprite.c without its decoders; spr_put draws the clipped sprite.
  \<^item> Tasks, Isr: sys/task.c over \<open>heap_allocator\<close>, and gen/isr.c; a failed creation of a task leaks
    nothing, dispatch serves exactly the pending interrupts.
  \<^item> Boot, Srec: boot/rom/loader.c (the binary protocol), boot/sio/binboot.c and boot/sio/loader.c.  The
    locale \<open>bin_loader\<close> holds what the two loops of the binary protocol share; what a
    host sends arrives in memory, and a file of S-records is loaded as it says.

  \<^bold>\<open>Conventions.\<close>  Machine integers are words and wrap, or ints wrapped by \<open>s32\<close>; numbers that the code keeps far below
  their limits (lengths, descriptors) are nat or int.  Strings without their
  terminating zero are byte lists where the code does not write into them.
  \<open>None\<close> is a loop that never ends or undefined behaviour such as a call through a
  null pointer; \<open>Exit\<close> is the end of the program.  Loops that may run forever are
  partial functions into option, and theorems about them state that they
  return.  There is no fuel: every other loop is a function with a termination
  proof, and bounded waits count what the code counts (2047 polls of spi_byte,
  2^20 and 2^24 tokens of the SD card).

  \<^bold>\<open>Parameters.\<close>  Devices are given by their loads and stores; the signal handler, floating-point
  output, the FatFs calls and the sizes of their objects are arguments.
  Hypotheses on them are definitions with a concrete instance in a witness:
  \<open>uart_ok\<close>, \<open>sends_only\<close> and \<open>boot_uart\<close> for the serial port, \<open>spi_ctl\<close> for the SPI controller.

  \<^bold>\<open>Not modelled.\<close>  fatfs.c, ffunicode.c, tjpgd.c, upng.c, math and float are third-party code;
  lang, examples, bench, misc and compiler are ports and demonstrations;
  dev/sio_intr.c is not built and does not compile against the headers.  Left out
  are mkfs, the loaders of images around the third-party decoders, the character
  display, the search of the flash in the ROM loader, the FAT loader and the
  tools of the host.
\<close>

end
